(* ===== verification/Prelude.thy ===== *)
theory Prelude
  imports Main
begin

section \<open>Shared vocabulary of the development\<close>

text \<open>
  Everything the component theories share: the ways the C++ program can leave the normal
  path (\<open>fault\<close>), the error type \<open>outcome\<close> of code that always returns, the type \<open>res\<close>
  of code that loops on system calls and so may also not return, the two sequencing
  operators with their monotonicity and total-correctness rules, and the lemmas about
  lists (memory copies, searching in strings) used by several components.
\<close>

subsection \<open>Faults and outcomes\<close>

text \<open>
  \<open>Exit\<close> is the \<open>exit(EXIT_FAILURE)\<close> of \<open>errif\<close>, \<open>Throw\<close> an exception nobody catches (the
  program has no \<open>catch\<close>, so it ends in \<open>std::terminate\<close>), \<open>Undefined\<close> behaviour the C++
  standard leaves undefined.
\<close>

datatype fault = Exit string | Throw string | Undefined string

type_synonym 'a outcome = "fault + 'a"

text \<open>\<open>errif\<close> of error_solve.cpp: print the message and leave the process when the condition holds.\<close>

definition errif :: "bool \<Rightarrow> string \<Rightarrow> unit outcome" where
  "errif condition errmsg = (if condition then Inl (Exit errmsg) else Inr ())"

definition ebind :: "'a outcome \<Rightarrow> ('a \<Rightarrow> 'b outcome) \<Rightarrow> 'b outcome" where
  "ebind m f = (case m of Inl e \<Rightarrow> Inl e | Inr x \<Rightarrow> f x)"

lemma ebind_simps [simp]:
  "ebind (Inl e) f = Inl e"
  "ebind (Inr x) f = f x"
  by (simp_all add: ebind_def)

lemma ebind_eq_Inr: "ebind m f = Inr y \<longleftrightarrow> (\<exists>x. m = Inr x \<and> f x = Inr y)"
  by (cases m) auto

lemma ebind_eq_Inl: "ebind m f = Inl e \<longleftrightarrow> m = Inl e \<or> (\<exists>x. m = Inr x \<and> f x = Inl e)"
  by (cases m) auto

lemma errif_simps [simp]:
  "errif False msg = Inr ()"
  "errif True msg = Inl (Exit msg)"
  by (simp_all add: errif_def)

lemma errif_eq_Inr [simp]: "errif c msg = Inr u \<longleftrightarrow> \<not> c"
  by (simp add: errif_def)

lemma errif_eq_Inl: "errif c msg = Inl e \<longleftrightarrow> c \<and> e = Exit msg"
  by (auto simp: errif_def)

subsection \<open>Code that may not return\<close>

text \<open>
  A loop around a system call runs as long as the kernel answers \<open>EINTR\<close>. \<open>None\<close> stands for
  not returning; \<open>Some\<close> holds the outcome.
\<close>

type_synonym 'a res = "'a outcome option"

definition rbind :: "'a res \<Rightarrow> ('a \<Rightarrow> 'b res) \<Rightarrow> 'b res" where
  "rbind m f = Option.bind m (\<lambda>r. case r of Inl e \<Rightarrow> Some (Inl e) | Inr x \<Rightarrow> f x)"

abbreviation ret :: "'a \<Rightarrow> 'a res" where
  "ret x \<equiv> Some (Inr x)"

abbreviation fail :: "fault \<Rightarrow> 'a res" where
  "fail e \<equiv> Some (Inl e)"

lemma rbind_simps [simp]:
  "rbind None f = None"
  "rbind (Some (Inl e)) f = Some (Inl e)"
  "rbind (Some (Inr x)) f = f x"
  by (simp_all add: rbind_def)

lemma rbind_eq_ret: "rbind m f = ret y \<longleftrightarrow> (\<exists>x. m = ret x \<and> f x = ret y)"
  by (cases m) (auto simp: rbind_def split: sum.splits)

lemma rbind_eq_None: "rbind m f = None \<longleftrightarrow> m = None \<or> (\<exists>x. m = ret x \<and> f x = None)"
  by (cases m) (auto simp: rbind_def split: sum.splits)

lemma rbind_ret: "rbind m ret = m"
  by (cases m) (auto simp: rbind_def split: sum.splits)

lemma rbind_assoc: "rbind (rbind m f) g = rbind m (\<lambda>x. rbind (f x) g)"
  by (cases m) (auto simp: rbind_def split: sum.splits)

lemma rbind_mono [partial_function_mono]:
  assumes "mono_option B" and "\<And>y. mono_option (\<lambda>f. C y f)"
  shows "mono_option (\<lambda>f. rbind (B f) (\<lambda>y. C y f))"
proof -
  have "mono_option (\<lambda>f. case r of Inl e \<Rightarrow> Some (Inl e) | Inr x \<Rightarrow> C x f)" for r
    using assms(2) by (cases r) (auto intro: option.const_mono)
  then show ?thesis
    unfolding rbind_def by (intro bind_mono assms(1))
qed

subsection \<open>Total correctness with the faults that are allowed\<close>

text \<open>
  \<open>runs F m P\<close>: \<open>m\<close> returns, and ends either in a fault of \<open>F\<close> or normally in a result that
  satisfies \<open>P\<close>. With \<open>F = {}\<close> this is total correctness. The rules in \<open>runs_intros\<close> follow the
  program text; an \<open>outcome\<close> inside a \<open>res\<close> is treated like a \<open>res\<close>.
\<close>

definition runs :: "fault set \<Rightarrow> 'a res \<Rightarrow> ('a \<Rightarrow> bool) \<Rightarrow> bool" where
  "runs F m P \<longleftrightarrow> (\<exists>r. m = Some r \<and> (case r of Inl e \<Rightarrow> e \<in> F | Inr x \<Rightarrow> P x))"

named_theorems runs_intros

lemma runs_simps [simp]:
  "runs F (ret x) P \<longleftrightarrow> P x"
  "runs F (fail e) P \<longleftrightarrow> e \<in> F"
  "\<not> runs F None P"
  by (simp_all add: runs_def)

lemma runs_cases:
  assumes "runs F m P"
  obtains (fault) e where "m = fail e" "e \<in> F" | (normal) x where "m = ret x" "P x"
proof -
  from assms obtain r where r: "m = Some r" "case r of Inl e \<Rightarrow> e \<in> F | Inr x \<Rightarrow> P x"
    by (auto simp: runs_def)
  then show ?thesis
    using fault normal by (cases r) auto
qed

lemma runs_bind: "runs F m (\<lambda>x. runs F (f x) P) \<Longrightarrow> runs F (rbind m f) P"
  by (erule runs_cases) auto

lemma runs_ebind: "runs F (Some m) (\<lambda>x. runs F (Some (f x)) P) \<Longrightarrow> runs F (Some (ebind m f)) P"
  by (cases m) auto

lemma runs_mono: "runs F m P \<Longrightarrow> (\<And>x. P x \<Longrightarrow> Q x) \<Longrightarrow> runs F m Q"
  by (erule runs_cases) auto

lemma runs_mono_faults: "runs F m P \<Longrightarrow> F \<subseteq> G \<Longrightarrow> runs G m P"
  by (erule runs_cases) auto

lemma runs_bindI: "runs F m P \<Longrightarrow> (\<And>x. P x \<Longrightarrow> runs F (f x) Q) \<Longrightarrow> runs F (rbind m f) Q"
  by (rule runs_bind) (rule runs_mono)

lemma runs_ebindI: "runs F (Some m) P \<Longrightarrow> (\<And>x. P x \<Longrightarrow> runs F (Some (f x)) Q) \<Longrightarrow> runs F (Some (ebind m f)) Q"
  by (rule runs_ebind) (rule runs_mono)

lemma runs_errif [runs_intros]: "(c \<Longrightarrow> Exit msg \<in> F) \<Longrightarrow> (\<not> c \<Longrightarrow> P ()) \<Longrightarrow> runs F (Some (errif c msg)) P"
  by (cases c) simp_all

lemma runs_retD: "runs F m P \<Longrightarrow> m = ret x \<Longrightarrow> P x"
  by simp

lemma runs_InrD: "runs F (Some m) P \<Longrightarrow> m = Inr x \<Longrightarrow> P x"
  by simp

lemma runs_fewer_faults: "runs G m P \<Longrightarrow> runs F m (\<lambda>x. True) \<Longrightarrow> runs F m P"
  by (erule runs_cases) auto

lemma runs_conj: "runs F m P \<Longrightarrow> runs F m Q \<Longrightarrow> runs F m (\<lambda>x. P x \<and> Q x)"
  by (erule runs_cases) auto

subsection \<open>Copies into a vector\<close>

text \<open>\<open>blit i s xs\<close>: overwrite \<open>xs\<close> from index \<open>i\<close> on with \<open>s\<close> (\<open>memcpy\<close> into a vector).\<close>

definition blit :: "nat \<Rightarrow> 'a list \<Rightarrow> 'a list \<Rightarrow> 'a list" where
  "blit i s xs = take i xs @ s @ drop (i + length s) xs"

lemma length_blit [simp]: "i + length s \<le> length xs \<Longrightarrow> length (blit i s xs) = length xs"
  by (simp add: blit_def)

lemma blit_Nil [simp]: "blit i [] xs = xs"
  by (simp add: blit_def)

lemma take_blit [simp]: "i \<le> length xs \<Longrightarrow> take (i + length s) (blit i s xs) = take i xs @ s"
  by (simp add: blit_def)

lemma slice_blit:
  assumes "r \<le> w" and "w + length s \<le> length xs"
  shows "take (w + length s - r) (drop r (blit w s xs)) = take (w - r) (drop r xs) @ s"
proof -
  have "take (w + length s - r) (drop r (blit w s xs)) = drop r (take (w + length s) (blit w s xs))"
    by (simp add: drop_take)
  also have "\<dots> = drop r (take w xs) @ s"
    using assms by simp
  finally show ?thesis
    by (simp add: drop_take)
qed

text \<open>\<open>std::vector::resize\<close>: truncate or pad with value-initialised elements.\<close>

definition vresize :: "nat \<Rightarrow> char list \<Rightarrow> char list" where
  "vresize n xs = take n xs @ replicate (n - length xs) (CHR 0x00)"

lemma length_vresize [simp]: "length (vresize n xs) = n"
  by (simp add: vresize_def)

lemma take_vresize: "k \<le> length xs \<Longrightarrow> k \<le> n \<Longrightarrow> take k (vresize n xs) = take k xs"
  by (simp add: vresize_def min_def)

end
