(* ===== verification/Kernel.thy ===== *)
theory Kernel
  imports Prelude "HOL-Library.Word"
begin

unbundle bit_operations_syntax

section \<open>The operating system as a parameter\<close>

text \<open>
  The program runs on Linux system calls, which are not code of the repository. Every
  definition that makes a system call takes a record \<open>os\<close> of functions and threads a kernel
  state of an arbitrary type \<open>'k\<close>. What the documentation of a call promises is a named
  predicate on the record (\<open>write_bounded\<close>, \<open>clock_monotone\<close>, \<dots>) and appears as a
  hypothesis where a theorem needs it. The last section gives one concrete kernel, a script of
  answers, on which the witnesses run the model.
\<close>

subsection \<open>Data of the system-call interface\<close>

datatype errno = EINTR | EAGAIN | EWOULDBLOCK | EOTHER nat

definition would_block :: "errno \<Rightarrow> bool" where
  "would_block e \<longleftrightarrow> e = EAGAIN \<or> e = EWOULDBLOCK"

record timespec =
  tv_sec :: int
  tv_nsec :: int

definition ts_less :: "timespec \<Rightarrow> timespec \<Rightarrow> bool" where
  "ts_less a b \<longleftrightarrow> tv_sec a < tv_sec b \<or> (tv_sec a = tv_sec b \<and> tv_nsec a < tv_nsec b)"

definition ts_zero :: timespec where
  "ts_zero = \<lparr>tv_sec = 0, tv_nsec = 0\<rparr>"

text \<open>
  \<open>chan_id\<close> names the \<open>Channel\<close> objects of one event loop; it is the pointer that \<open>epoll_ctl\<close>
  stores in \<open>ev.data.ptr\<close> and \<open>epoll_wait\<close> hands back.
\<close>

type_synonym conn_id = nat

datatype chan_id = EloopChan | TimeChan | ConnChan conn_id | AcceptChan int

text \<open>\<open>peer_addr\<close> stands for the \<open>sockaddr_in\<close> that \<open>accept\<close> fills in; the program only stores it.\<close>

type_synonym peer_addr = string

datatype ctl_op = CTL_ADD | CTL_MOD | CTL_DEL

definition EPOLLIN :: "32 word" where "EPOLLIN = 0x001"
definition EPOLLOUT :: "32 word" where "EPOLLOUT = 0x004"
definition EPOLLERR :: "32 word" where "EPOLLERR = 0x008"
definition EPOLLHUP :: "32 word" where "EPOLLHUP = 0x010"
definition EPOLLET :: "32 word" where "EPOLLET = 0x80000000"
definition O_NONBLOCK :: "32 word" where "O_NONBLOCK = 0x800"

subsection \<open>The calls\<close>

text \<open>
  A call answers \<open>Inl errno\<close> for \<open>-1\<close> and \<open>Inr\<close> otherwise. \<open>os_readv fd n\<close> scatters at most
  \<open>n\<close> bytes and returns them in order (no bytes: end of file); \<open>os_write fd s\<close> says how many
  bytes of \<open>s\<close> it took; \<open>os_read8\<close> and \<open>os_write8\<close> are the 8-byte transfers of eventfd and
  timerfd with the number of bytes moved; \<open>os_settime\<close> arms a timerfd at an absolute time. The
  first argument of the epoll calls is the epoll instance. \<open>epoll_wait\<close> is called without a timeout and
  so can block: \<open>os_ready ep\<close> says that a socket or timer of the instance \<open>ep\<close> is ready, and
  \<open>os_epoll_wait\<close> is the answer once something is. Results the program ignores
  (\<open>fcntl\<close>, \<open>setsockopt\<close>, \<open>close\<close>) are left out. \<open>os_errno\<close> is the stale value that \<open>errno\<close>
  keeps after a successful call.
\<close>

record 'k os =
  os_readv :: "int \<Rightarrow> nat \<Rightarrow> 'k \<Rightarrow> (errno + string) \<times> 'k"
  os_write :: "int \<Rightarrow> string \<Rightarrow> 'k \<Rightarrow> (errno + nat) \<times> 'k"
  os_read8 :: "int \<Rightarrow> 'k \<Rightarrow> (errno + nat) \<times> 'k"
  os_write8 :: "int \<Rightarrow> 'k \<Rightarrow> (errno + nat) \<times> 'k"
  os_epoll_ctl :: "int \<Rightarrow> ctl_op \<Rightarrow> int \<Rightarrow> (chan_id \<times> 32 word) option \<Rightarrow> 'k \<Rightarrow> (errno + unit) \<times> 'k"
  os_epoll_wait :: "int \<Rightarrow> nat \<Rightarrow> 'k \<Rightarrow> (errno + (chan_id \<times> 32 word) list) \<times> 'k"
  os_ready :: "int \<Rightarrow> 'k \<Rightarrow> bool"
  os_settime :: "int \<Rightarrow> timespec \<Rightarrow> 'k \<Rightarrow> (errno + unit) \<times> 'k"
  os_now :: "'k \<Rightarrow> (errno + timespec) \<times> 'k"
  os_eventfd :: "'k \<Rightarrow> (errno + int) \<times> 'k"
  os_timerfd :: "'k \<Rightarrow> (errno + int) \<times> 'k"
  os_epoll_create :: "'k \<Rightarrow> (errno + int) \<times> 'k"
  os_socket :: "'k \<Rightarrow> (errno + int) \<times> 'k"
  os_getfl :: "int \<Rightarrow> 'k \<Rightarrow> 32 word \<times> 'k"
  os_setfl :: "int \<Rightarrow> 32 word \<Rightarrow> 'k \<Rightarrow> 'k"
  os_reuseaddr :: "int \<Rightarrow> 'k \<Rightarrow> 'k"
  os_bind :: "int \<Rightarrow> 16 word \<Rightarrow> 'k \<Rightarrow> (errno + unit) \<times> 'k"
  os_listen :: "int \<Rightarrow> nat \<Rightarrow> 'k \<Rightarrow> (errno + unit) \<times> 'k"
  os_accept :: "int \<Rightarrow> 'k \<Rightarrow> (errno + int \<times> peer_addr) \<times> 'k"
  os_close :: "int \<Rightarrow> 'k \<Rightarrow> 'k"
  os_errno :: "'k \<Rightarrow> errno"

definition failed :: "(errno + 'a) \<Rightarrow> bool" where
  "failed r \<longleftrightarrow> (case r of Inl e \<Rightarrow> True | Inr x \<Rightarrow> False)"

lemma failed_simps [simp]: "failed (Inl e)" "\<not> failed (Inr x)"
  by (simp_all add: failed_def)

subsection \<open>What the manual pages promise\<close>

text \<open>write(2): the number of bytes written is at most the number given.\<close>

definition write_bounded :: "'k os \<Rightarrow> bool" where
  "write_bounded os \<longleftrightarrow> (\<forall>fd s k n. fst (os_write os fd s k) = Inr n \<longrightarrow> n \<le> length s)"

text \<open>readv(2): no more bytes than the vectors hold.\<close>

definition readv_bounded :: "'k os \<Rightarrow> bool" where
  "readv_bounded os \<longleftrightarrow> (\<forall>fd n k d. fst (os_readv os fd n k) = Inr d \<longrightarrow> length d \<le> n)"

lemma write_boundedD: "write_bounded os \<Longrightarrow> os_write os fd s k = (Inr n, k') \<Longrightarrow> n \<le> length s"
  unfolding write_bounded_def by (metis fst_conv)

lemma readv_boundedD: "readv_bounded os \<Longrightarrow> os_readv os fd n k = (Inr d, k') \<Longrightarrow> length d \<le> n"
  unfolding readv_bounded_def by (metis fst_conv)

subsection \<open>A scripted kernel\<close>

text \<open>
  \<open>skern\<close> answers the data calls from scripts, keeps the interest list of epoll and the armed
  time of the timerfd, hands out descriptors by counting, and records what was sent, received, bound
  and closed. When a script is empty, reads and accepts would block and a write takes everything. It
  has one epoll instance.
\<close>

record skern =
  sk_reads :: "(errno + string) list"
  sk_writes :: "(errno + nat) list"
  sk_polls :: "(errno + (chan_id \<times> 32 word) list) list"
  sk_clock :: "timespec list"
  sk_interest :: "(int \<times> (chan_id \<times> 32 word)) list"
  sk_armed :: timespec
  sk_sent :: string
  sk_recvd :: string
  sk_accepts :: "(errno + int \<times> peer_addr) list"
  sk_next_fd :: int
  sk_nonblocking :: "int list"
  sk_bound :: "(int \<times> 16 word) list"
  sk_closed :: "int list"

definition skern0 :: skern where
  "skern0 = \<lparr>sk_reads = [], sk_writes = [], sk_polls = [], sk_clock = [],
     sk_interest = [], sk_armed = ts_zero, sk_sent = [], sk_recvd = [],
     sk_accepts = [], sk_next_fd = 3, sk_nonblocking = [], sk_bound = [], sk_closed = []\<rparr>"

definition sk_readv :: "int \<Rightarrow> nat \<Rightarrow> skern \<Rightarrow> (errno + string) \<times> skern" where
  "sk_readv fd n k =
     (case sk_reads k of
        [] \<Rightarrow> (Inl EAGAIN, k)
      | Inl e # rs \<Rightarrow> (Inl e, k\<lparr>sk_reads := rs\<rparr>)
      | Inr d # rs \<Rightarrow>
          (Inr (take n d),
           k\<lparr>sk_reads := (if length d \<le> n then rs else Inr (drop n d) # rs), sk_recvd := sk_recvd k @ take n d\<rparr>))"

definition sk_write :: "int \<Rightarrow> string \<Rightarrow> skern \<Rightarrow> (errno + nat) \<times> skern" where
  "sk_write fd s k =
     (case sk_writes k of
        [] \<Rightarrow> (Inr (length s), k\<lparr>sk_sent := sk_sent k @ s\<rparr>)
      | Inl e # ws \<Rightarrow> (Inl e, k\<lparr>sk_writes := ws\<rparr>)
      | Inr n # ws \<Rightarrow>
          (Inr (min n (length s)), k\<lparr>sk_writes := ws, sk_sent := sk_sent k @ take n s\<rparr>))"

definition sk_epoll_ctl ::
  "int \<Rightarrow> ctl_op \<Rightarrow> int \<Rightarrow> (chan_id \<times> 32 word) option \<Rightarrow> skern \<Rightarrow> (errno + unit) \<times> skern" where
  "sk_epoll_ctl ep op fd ev k =
     (let reg = map_of (sk_interest k) fd; rest = filter (\<lambda>x. fst x \<noteq> fd) (sk_interest k) in
      case op of
        CTL_ADD \<Rightarrow> (if reg = None then (Inr (), k\<lparr>sk_interest := (fd, the ev) # rest\<rparr>) else (Inl (EOTHER 17), k))
      | CTL_MOD \<Rightarrow> (if reg = None then (Inl (EOTHER 2), k) else (Inr (), k\<lparr>sk_interest := (fd, the ev) # rest\<rparr>))
      | CTL_DEL \<Rightarrow> (if reg = None then (Inl (EOTHER 2), k) else (Inr (), k\<lparr>sk_interest := rest\<rparr>)))"

definition sk_epoll_wait :: "int \<Rightarrow> nat \<Rightarrow> skern \<Rightarrow> (errno + (chan_id \<times> 32 word) list) \<times> skern" where
  "sk_epoll_wait ep n k =
     (case sk_polls k of
        [] \<Rightarrow> (Inl (EOTHER 9), k)
      | Inl e # ps \<Rightarrow> (Inl e, k\<lparr>sk_polls := ps\<rparr>)
      | Inr evs # ps \<Rightarrow> (Inr (take n evs), k\<lparr>sk_polls := ps\<rparr>))"

text \<open>Something is ready as long as the script has an answer other than an interruption.\<close>

definition sk_ready :: "int \<Rightarrow> skern \<Rightarrow> bool" where
  "sk_ready ep k \<longleftrightarrow> list_ex (\<lambda>r. r \<noteq> Inl EINTR) (sk_polls k)"

definition sk_now :: "skern \<Rightarrow> (errno + timespec) \<times> skern" where
  "sk_now k =
     (case sk_clock k of
        [] \<Rightarrow> (Inr ts_zero, k)
      | [t] \<Rightarrow> (Inr t, k)
      | t # ts \<Rightarrow> (Inr t, k\<lparr>sk_clock := ts\<rparr>))"

definition sk_new_fd :: "skern \<Rightarrow> (errno + int) \<times> skern" where
  "sk_new_fd k = (Inr (sk_next_fd k), k\<lparr>sk_next_fd := sk_next_fd k + 1\<rparr>)"

definition sk_accept :: "int \<Rightarrow> skern \<Rightarrow> (errno + int \<times> peer_addr) \<times> skern" where
  "sk_accept fd k =
     (case sk_accepts k of [] \<Rightarrow> (Inl EAGAIN, k) | a # as \<Rightarrow> (a, k\<lparr>sk_accepts := as\<rparr>))"

definition sos :: "skern os" where
  "sos = \<lparr>os_readv = sk_readv, os_write = sk_write,
     os_read8 = (\<lambda>fd k. (Inr 8, k)), os_write8 = (\<lambda>fd k. (Inr 8, k)),
     os_epoll_ctl = sk_epoll_ctl, os_epoll_wait = sk_epoll_wait, os_ready = sk_ready,
     os_settime = (\<lambda>fd t k. (Inr (), k\<lparr>sk_armed := t\<rparr>)), os_now = sk_now,
     os_eventfd = sk_new_fd, os_timerfd = sk_new_fd, os_epoll_create = sk_new_fd, os_socket = sk_new_fd,
     os_getfl = (\<lambda>fd k. (0, k)),
     os_setfl = (\<lambda>fd f k. k\<lparr>sk_nonblocking := (if f AND O_NONBLOCK = 0 then [] else [fd]) @ sk_nonblocking k\<rparr>),
     os_reuseaddr = (\<lambda>fd k. k),
     os_bind = (\<lambda>fd p k. (Inr (), k\<lparr>sk_bound := (fd, p) # sk_bound k\<rparr>)),
     os_listen = (\<lambda>fd n k. (Inr (), k)), os_accept = sk_accept,
     os_close = (\<lambda>fd k. k\<lparr>sk_closed := fd # sk_closed k\<rparr>), os_errno = (\<lambda>k. EAGAIN)\<rparr>"

lemma sos_simps [simp]:
  "os_readv sos = sk_readv"
  "os_write sos = sk_write"
  "os_read8 sos fd k = (Inr 8, k)"
  "os_write8 sos fd k = (Inr 8, k)"
  "os_epoll_ctl sos = sk_epoll_ctl"
  "os_epoll_wait sos = sk_epoll_wait"
  "os_ready sos = sk_ready"
  "os_settime sos fd t k = (Inr (), k\<lparr>sk_armed := t\<rparr>)"
  "os_now sos = sk_now"
  "os_eventfd sos = sk_new_fd"
  "os_timerfd sos = sk_new_fd"
  "os_epoll_create sos = sk_new_fd"
  "os_socket sos = sk_new_fd"
  "os_getfl sos fd k = (0, k)"
  "os_setfl sos fd f k = k\<lparr>sk_nonblocking := (if f AND O_NONBLOCK = 0 then [] else [fd]) @ sk_nonblocking k\<rparr>"
  "os_reuseaddr sos fd k = k"
  "os_bind sos fd p k = (Inr (), k\<lparr>sk_bound := (fd, p) # sk_bound k\<rparr>)"
  "os_listen sos fd n k = (Inr (), k)"
  "os_accept sos = sk_accept"
  "os_errno sos k = EAGAIN"
  "os_close sos fd k = k\<lparr>sk_closed := fd # sk_closed k\<rparr>"
  by (simp_all add: sos_def)

lemma sos_write_bounded: "write_bounded sos"
  by (auto simp: write_bounded_def sk_write_def split: list.splits sum.splits)

lemma sos_readv_bounded: "readv_bounded sos"
  by (auto simp: readv_bounded_def sk_readv_def split: list.splits sum.splits)

end
