(* ===== verification/Channel.thy ===== *)
theory Channel
  imports Kernel
begin

section \<open>Channel and Epoll: what a file descriptor waits for\<close>

text \<open>
  Models \<open>class Channel\<close> (include/Channel.h, src/server/Channel.cpp) and \<open>class Epoll\<close>
  (include/Epoll.h, src/server/Epoll.cpp). A channel's callbacks are not stored: \<open>handle\<close> takes
  the two callbacks its owner registered. \<open>epoll_ctl\<close> and \<open>epoll_wait\<close> belong to the kernel.
\<close>

subsection \<open>State\<close>

record channel =
  ch_fd :: int
  ch_events :: "32 word"
  ch_revents :: "32 word"
  ch_inEpoll :: bool

definition Channel_new :: "int \<Rightarrow> channel" where
  "Channel_new fd = \<lparr>ch_fd = fd, ch_events = 0, ch_revents = 0, ch_inEpoll = False\<rparr>"

definition MAX_EVENTS :: nat where
  "MAX_EVENTS = 100"

subsection \<open>Epoll\<close>

text \<open>The state of \<open>Epoll\<close> is its descriptor; the event array is a scratch area of \<open>poll\<close>.\<close>

definition Epoll_new :: "'k os \<Rightarrow> 'k \<Rightarrow> (int \<times> 'k) outcome" where
  "Epoll_new os k =
     (case os_epoll_create os k of
        (Inl e, k') \<Rightarrow> Inl (Exit ''epoll create error'')
      | (Inr ep, k') \<Rightarrow> Inr (ep, k'))"

definition Epoll_delete :: "'k os \<Rightarrow> int \<Rightarrow> 'k \<Rightarrow> int \<times> 'k" where
  "Epoll_delete os ep k = (-1, if ep \<ge> 0 then os_close os ep k else k)"

definition epoll_updateChannel ::
  "'k os \<Rightarrow> int \<Rightarrow> chan_id \<Rightarrow> channel \<Rightarrow> 'k \<Rightarrow> (channel \<times> 'k) outcome" where
  "epoll_updateChannel os ep p c k =
     (let ev = Some (p, ch_events c) in
      if \<not> ch_inEpoll c then
        (case os_epoll_ctl os ep CTL_ADD (ch_fd c) ev k of
           (r, k') \<Rightarrow> ebind (errif (failed r) ''epoll add error'') (\<lambda>_. Inr (c\<lparr>ch_inEpoll := True\<rparr>, k')))
      else
        (case os_epoll_ctl os ep CTL_MOD (ch_fd c) ev k of
           (r, k') \<Rightarrow> ebind (errif (failed r) ''epoll modify error'') (\<lambda>_. Inr (c, k'))))"

definition epoll_removeChannel :: "'k os \<Rightarrow> int \<Rightarrow> channel \<Rightarrow> 'k \<Rightarrow> (channel \<times> 'k) outcome" where
  "epoll_removeChannel os ep c k =
     (if \<not> ch_inEpoll c then Inr (c, k)
      else
        (case os_epoll_ctl os ep CTL_DEL (ch_fd c) None k of
           (r, k') \<Rightarrow> ebind (errif (failed r) ''channel delete error'') (\<lambda>_. Inr (c\<lparr>ch_inEpoll := False\<rparr>, k'))))"

text \<open>
  \<open>poll\<close> waits without a timeout, starts over after \<open>EINTR\<close>, and leaves on any other error. The call
  sleeps, so does not return, while nothing is ready: neither the eventfd of the loop (\<open>signal\<close>, see
  EventLoop.thy) nor another descriptor of the instance.
\<close>

partial_function (option) epoll_poll :: "'k os \<Rightarrow> int \<Rightarrow> bool \<Rightarrow> 'k \<Rightarrow> ((chan_id \<times> 32 word) list \<times> 'k) res" where
  "epoll_poll os ep signal k =
     (if \<not> signal \<and> \<not> os_ready os ep k then None
      else
        (case os_epoll_wait os ep MAX_EVENTS k of
           (r, k') \<Rightarrow>
             (case r of
                Inr evs \<Rightarrow> if evs \<noteq> [] then ret (evs, k') else fail (Exit ''epoll wait error'')
              | Inl e \<Rightarrow> if e = EINTR then epoll_poll os ep signal k' else fail (Exit ''epoll wait error''))))"

subsection \<open>Channel\<close>

definition enableReading :: "'k os \<Rightarrow> int \<Rightarrow> chan_id \<Rightarrow> channel \<Rightarrow> 'k \<Rightarrow> (channel \<times> 'k) outcome" where
  "enableReading os ep p c k =
     epoll_updateChannel os ep p (c\<lparr>ch_events := ch_events c OR (EPOLLIN OR EPOLLET)\<rparr>) k"

definition disableReading :: "'k os \<Rightarrow> int \<Rightarrow> chan_id \<Rightarrow> channel \<Rightarrow> 'k \<Rightarrow> (channel \<times> 'k) outcome" where
  "disableReading os ep p c k =
     epoll_updateChannel os ep p (c\<lparr>ch_events := ch_events c AND NOT EPOLLIN\<rparr>) k"

definition enableWriting :: "'k os \<Rightarrow> int \<Rightarrow> chan_id \<Rightarrow> channel \<Rightarrow> 'k \<Rightarrow> (channel \<times> 'k) outcome" where
  "enableWriting os ep p c k =
     epoll_updateChannel os ep p (c\<lparr>ch_events := ch_events c OR EPOLLOUT\<rparr>) k"

definition disableWriting :: "'k os \<Rightarrow> int \<Rightarrow> chan_id \<Rightarrow> channel \<Rightarrow> 'k \<Rightarrow> (channel \<times> 'k) outcome" where
  "disableWriting os ep p c k =
     epoll_updateChannel os ep p (c\<lparr>ch_events := ch_events c AND NOT EPOLLOUT\<rparr>) k"

definition enableListen :: "'k os \<Rightarrow> int \<Rightarrow> chan_id \<Rightarrow> channel \<Rightarrow> 'k \<Rightarrow> (channel \<times> 'k) outcome" where
  "enableListen os ep p c k =
     ebind (errif (ch_inEpoll c) ''set inEpoll channel to be listen'') (\<lambda>_.
       epoll_updateChannel os ep p (c\<lparr>ch_events := EPOLLIN\<rparr>) k)"

definition disableAll :: "'k os \<Rightarrow> int \<Rightarrow> chan_id \<Rightarrow> channel \<Rightarrow> 'k \<Rightarrow> (channel \<times> 'k) outcome" where
  "disableAll os ep p c k = epoll_updateChannel os ep p (c\<lparr>ch_events := 0\<rparr>) k"

definition channel_remove :: "'k os \<Rightarrow> int \<Rightarrow> channel \<Rightarrow> 'k \<Rightarrow> (channel \<times> 'k) outcome" where
  "channel_remove os ep c k = epoll_removeChannel os ep c k"

text \<open>\<open>handle\<close>: both events are looked at, reading first; the write callback runs after the read one.\<close>

definition channel_handle ::
  "('s \<Rightarrow> 's res) \<Rightarrow> ('s \<Rightarrow> 's res) \<Rightarrow> 32 word \<Rightarrow> 's \<Rightarrow> 's res" where
  "channel_handle readCallBack writeCallBack revents s =
     rbind (if revents AND EPOLLIN \<noteq> 0 then readCallBack s else ret s) (\<lambda>s'.
       if revents AND EPOLLOUT \<noteq> 0 then writeCallBack s' else ret s')"

subsection \<open>The flag and the kernel's interest list\<close>

text \<open>
  epoll_ctl(2), for the part the program relies on, with \<open>reg k\<close> the interest list of the epoll
  instance \<open>ep\<close>. \<open>epoll_ctl_spec\<close>: a successful call has its documented effect on the one descriptor
  and a failed one has none. \<open>epoll_ctl_complete\<close>: a call fails only for \<open>EEXIST\<close> (adding a
  present descriptor) or \<open>ENOENT\<close> (modifying or deleting an absent one), that is, not for lack of
  memory or a bad descriptor.
\<close>

type_synonym 'k registry = "'k \<Rightarrow> int \<Rightarrow> (chan_id \<times> 32 word) option"

definition ctl_applicable :: "ctl_op \<Rightarrow> bool \<Rightarrow> bool" where
  "ctl_applicable op present = (case op of CTL_ADD \<Rightarrow> \<not> present | CTL_MOD \<Rightarrow> present | CTL_DEL \<Rightarrow> present)"

definition epoll_ctl_spec :: "'k os \<Rightarrow> int \<Rightarrow> 'k registry \<Rightarrow> bool" where
  "epoll_ctl_spec os ep reg \<longleftrightarrow>
     (\<forall>op fd ev k r k'. os_epoll_ctl os ep op fd ev k = (r, k') \<and> (ev = None \<longleftrightarrow> op = CTL_DEL) \<longrightarrow>
        (if failed r then reg k' = reg k
         else ctl_applicable op (reg k fd \<noteq> None) \<and> reg k' = (reg k)(fd := ev)))"

definition epoll_ctl_complete :: "'k os \<Rightarrow> int \<Rightarrow> 'k registry \<Rightarrow> bool" where
  "epoll_ctl_complete os ep reg \<longleftrightarrow>
     (\<forall>op fd ev k. ctl_applicable op (reg k fd \<noteq> None) \<longrightarrow> \<not> failed (fst (os_epoll_ctl os ep op fd ev k)))"

lemma epoll_ctl_specD:
  assumes "epoll_ctl_spec os ep reg" and "os_epoll_ctl os ep op fd ev k = (r, k')" and "ev = None \<longleftrightarrow> op = CTL_DEL"
    and "\<not> failed r"
  shows "ctl_applicable op (reg k fd \<noteq> None)" "reg k' = (reg k)(fd := ev)"
proof -
  note step = assms(1)[unfolded epoll_ctl_spec_def, rule_format, OF conjI[OF assms(2,3)]]
  show "ctl_applicable op (reg k fd \<noteq> None)" "reg k' = (reg k)(fd := ev)"
    using step assms(4) by simp_all
qed

text \<open>The scripted kernel keeps such a list.\<close>

definition sk_reg :: "skern registry" where
  "sk_reg k = map_of (sk_interest k)"

lemma map_of_filter_neq: "map_of (filter (\<lambda>x. fst x \<noteq> a) xs) = (map_of xs)(a := None)"
  by (induction xs) auto

lemma sos_epoll_ctl_spec: "epoll_ctl_spec sos ep sk_reg"
  by (auto simp: epoll_ctl_spec_def sk_epoll_ctl_def sk_reg_def ctl_applicable_def Let_def
      map_of_filter_neq split: ctl_op.splits if_splits)

lemma sos_epoll_ctl_complete: "epoll_ctl_complete sos ep sk_reg"
  by (auto simp: epoll_ctl_complete_def sk_epoll_ctl_def sk_reg_def ctl_applicable_def Let_def
      split: ctl_op.splits)

text \<open>A channel and the interest list agree.\<close>

definition synced :: "'k registry \<Rightarrow> chan_id \<Rightarrow> channel \<Rightarrow> 'k \<Rightarrow> bool" where
  "synced reg p c k \<longleftrightarrow> reg k (ch_fd c) = (if ch_inEpoll c then Some (p, ch_events c) else None)"

text \<open>
  Whatever the flag said before, after a successful update the descriptor is in the interest
  list with the channel's events: an update adds a removed channel again.
\<close>

lemma epoll_updateChannel_ok:
  assumes "epoll_ctl_spec os ep reg" and "epoll_updateChannel os ep p c k = Inr (c', k')"
  shows "c' = c\<lparr>ch_inEpoll := True\<rparr> \<and> reg k' = (reg k)(ch_fd c := Some (p, ch_events c))"
  using assms epoll_ctl_specD[OF assms(1)]
  by (cases "ch_inEpoll c") (auto simp: epoll_updateChannel_def ebind_eq_Inr split: prod.splits)

lemma epoll_removeChannel_ok:
  assumes "epoll_ctl_spec os ep reg" and "epoll_removeChannel os ep c k = Inr (c', k')" and "synced reg p c k"
  shows "c' = c\<lparr>ch_inEpoll := False\<rparr> \<and> reg k' = (reg k)(ch_fd c := None)"
  using assms epoll_ctl_specD[OF assms(1)]
  by (cases "ch_inEpoll c") (auto simp: epoll_removeChannel_def synced_def ebind_eq_Inr split: prod.splits)

lemma epoll_ctl_completeD:
  assumes "epoll_ctl_complete os ep reg" and "ctl_applicable op (reg k fd \<noteq> None)"
  shows "\<exists>r k'. os_epoll_ctl os ep op fd ev k = (r, k') \<and> \<not> failed r"
  using assms unfolding epoll_ctl_complete_def by (metis prod.collapse)

lemma epoll_updateChannel_total:
  assumes "epoll_ctl_complete os ep reg" and "synced reg p c k"
  shows "\<exists>x. epoll_updateChannel os ep p (c\<lparr>ch_events := ev\<rparr>) k = Inr x"
proof (cases "ch_inEpoll c")
  case True
  then have "ctl_applicable CTL_MOD (reg k (ch_fd c) \<noteq> None)"
    using assms(2) by (simp add: synced_def ctl_applicable_def)
  from epoll_ctl_completeD[OF assms(1) this, of "Some (p, ev)"] True show ?thesis
    by (auto simp: epoll_updateChannel_def)
next
  case False
  then have "ctl_applicable CTL_ADD (reg k (ch_fd c) \<noteq> None)"
    using assms(2) by (simp add: synced_def ctl_applicable_def)
  from epoll_ctl_completeD[OF assms(1) this, of "Some (p, ev)"] False show ?thesis
    by (auto simp: epoll_updateChannel_def)
qed

lemma epoll_removeChannel_total:
  assumes "epoll_ctl_complete os ep reg" and "synced reg p c k"
  shows "\<exists>x. epoll_removeChannel os ep c k = Inr x"
proof (cases "ch_inEpoll c")
  case True
  then have "ctl_applicable CTL_DEL (reg k (ch_fd c) \<noteq> None)"
    using assms(2) by (simp add: synced_def ctl_applicable_def)
  from epoll_ctl_completeD[OF assms(1) this, of None] True show ?thesis
    by (auto simp: epoll_removeChannel_def)
qed (simp add: epoll_removeChannel_def)

subsection \<open>Runs of channel operations\<close>

datatype chan_op = OpEnableReading | OpDisableReading | OpEnableWriting | OpDisableWriting | OpDisableAll | OpRemove

fun chan_do :: "'k os \<Rightarrow> int \<Rightarrow> chan_id \<Rightarrow> chan_op \<Rightarrow> channel \<times> 'k \<Rightarrow> (channel \<times> 'k) outcome" where
  "chan_do os ep p OpEnableReading (c, k) = enableReading os ep p c k"
| "chan_do os ep p OpDisableReading (c, k) = disableReading os ep p c k"
| "chan_do os ep p OpEnableWriting (c, k) = enableWriting os ep p c k"
| "chan_do os ep p OpDisableWriting (c, k) = disableWriting os ep p c k"
| "chan_do os ep p OpDisableAll (c, k) = disableAll os ep p c k"
| "chan_do os ep p OpRemove (c, k) = channel_remove os ep c k"

fun chan_run :: "'k os \<Rightarrow> int \<Rightarrow> chan_id \<Rightarrow> chan_op list \<Rightarrow> channel \<times> 'k \<Rightarrow> (channel \<times> 'k) outcome" where
  "chan_run os ep p [] x = Inr x"
| "chan_run os ep p (a # as) x = ebind (chan_do os ep p a x) (chan_run os ep p as)"

lemmas channel_defs = enableReading_def disableReading_def enableWriting_def disableWriting_def
  disableAll_def channel_remove_def

lemma chan_do_total:
  assumes "epoll_ctl_complete os ep reg" and "synced reg p c k"
  shows "\<exists>x. chan_do os ep p a (c, k) = Inr x"
  using epoll_updateChannel_total[OF assms] epoll_removeChannel_total[OF assms]
  by (cases a) (simp_all add: channel_defs)

lemma chan_do_synced:
  assumes "epoll_ctl_spec os ep reg" and "synced reg p c k" and "chan_do os ep p a (c, k) = Inr (c', k')"
  shows "synced reg p c' k' \<and> ch_fd c' = ch_fd c \<and> (\<forall>fd. fd \<noteq> ch_fd c \<longrightarrow> reg k' fd = reg k fd) \<and>
    (ch_inEpoll c' \<longleftrightarrow> a \<noteq> OpRemove)"
  using assms(3)
  by (cases a) (auto simp: channel_defs synced_def
      dest!: epoll_updateChannel_ok[OF assms(1)] epoll_removeChannel_ok[OF assms(1) _ assms(2)])

text \<open>
  C26. From its creation on, through any sequence of enabling, disabling and removing, a channel
  never reaches one of the exits of \<open>Epoll::updateChannel\<close> and \<open>Epoll::removeChannel\<close>, and its
  \<open>inEpoll\<close> flag and event mask are exactly what the kernel's interest list holds for its
  descriptor; no other descriptor is touched.
\<close>

theorem channel_agrees_with_kernel:
  assumes "epoll_ctl_spec os ep reg" and "epoll_ctl_complete os ep reg" and "reg k fd = None"
  shows "\<exists>c' k'. chan_run os ep p as (Channel_new fd, k) = Inr (c', k') \<and> ch_fd c' = fd \<and>
     reg k' fd = (if ch_inEpoll c' then Some (p, ch_events c') else None) \<and>
     (\<forall>fd'. fd' \<noteq> fd \<longrightarrow> reg k' fd' = reg k fd')"
proof -
  have run: "\<exists>c' k'. chan_run os ep p as (c, k) = Inr (c', k') \<and> synced reg p c' k' \<and> ch_fd c' = ch_fd c \<and>
      (\<forall>fd'. fd' \<noteq> ch_fd c \<longrightarrow> reg k' fd' = reg k fd')" if "synced reg p c k" for c k
    using that
  proof (induction as arbitrary: c k)
    case (Cons a as)
    obtain c1 k1 where 1: "chan_do os ep p a (c, k) = Inr (c1, k1)"
      using chan_do_total[OF assms(2) Cons.prems] by fastforce
    then show ?case
      using Cons.IH[of c1 k1] chan_do_synced[OF assms(1) Cons.prems 1] by fastforce
  qed simp
  have "synced reg p (Channel_new fd) k"
    using assms(3) by (simp add: synced_def Channel_new_def)
  from run[OF this] show ?thesis
    by (auto simp: synced_def Channel_new_def)
qed

theorem channel_agrees_with_kernel_witness:
  "\<exists>c' k'. chan_run sos 4 (ConnChan 1) [OpEnableReading, OpEnableWriting, OpRemove, OpDisableReading] (Channel_new 7, skern0)
      = Inr (c', k') \<and> ch_fd c' = 7 \<and>
     sk_reg k' 7 = (if ch_inEpoll c' then Some (ConnChan 1, ch_events c') else None) \<and>
     (\<forall>fd'. fd' \<noteq> 7 \<longrightarrow> sk_reg k' fd' = sk_reg skern0 fd')"
  by (rule channel_agrees_with_kernel[OF sos_epoll_ctl_spec sos_epoll_ctl_complete])
    (simp add: sk_reg_def skern0_def)

end
