(* ===== verification/KernelLaws.thy ===== *)
theory KernelLaws
  imports Channel
begin

section \<open>A kernel that the loops can rely on\<close>

text \<open>
  The hypotheses on the kernel that the proofs about the event loops and their handlers share.
\<close>

subsection \<open>The laws\<close>

text \<open>
  Only \<open>epoll_ctl\<close> changes an interest list. \<open>mu\<close> bounds how much more input and how many more
  interruptions the kernel has in store: the loops of the program run until the kernel would
  block, so they end only if it does not interrupt them, or feed them, for ever.
\<close>

definition reg_kept :: "'k os \<Rightarrow> 'k registry \<Rightarrow> bool" where
  "reg_kept os reg \<longleftrightarrow>
     (\<forall>fd n k. reg (snd (os_readv os fd n k)) = reg k) \<and>
     (\<forall>fd s k. reg (snd (os_write os fd s k)) = reg k) \<and>
     (\<forall>fd k. reg (snd (os_read8 os fd k)) = reg k) \<and>
     (\<forall>fd k. reg (snd (os_write8 os fd k)) = reg k) \<and>
     (\<forall>fd t k. reg (snd (os_settime os fd t k)) = reg k) \<and>
     (\<forall>k. reg (snd (os_now os k)) = reg k)"

definition finite_supply :: "'k os \<Rightarrow> int \<Rightarrow> ('k \<Rightarrow> nat) \<Rightarrow> bool" where
  "finite_supply os ep mu \<longleftrightarrow>
     (\<forall>fd n k r k'. os_readv os fd n k = (r, k') \<longrightarrow>
        mu k' \<le> mu k \<and> (r = Inl EINTR \<or> (\<exists>d. r = Inr d \<and> d \<noteq> []) \<longrightarrow> mu k' < mu k)) \<and>
     (\<forall>fd s k r k'. os_write os fd s k = (r, k') \<longrightarrow>
        mu k' \<le> mu k \<and> (s \<noteq> [] \<and> (r = Inl EINTR \<or> r = Inr 0) \<longrightarrow> mu k' < mu k)) \<and>
     (\<forall>fd k r k'. os_read8 os fd k = (r, k') \<longrightarrow>
        mu k' \<le> mu k \<and> (r = Inl EINTR \<or> (\<exists>n. r = Inr n \<and> n \<noteq> 8) \<longrightarrow> mu k' < mu k)) \<and>
     (\<forall>fd k. mu (snd (os_write8 os fd k)) \<le> mu k) \<and>
     (\<forall>op fd ev k. mu (snd (os_epoll_ctl os ep op fd ev k)) \<le> mu k) \<and>
     (\<forall>fd t k. mu (snd (os_settime os fd t k)) \<le> mu k) \<and>
     (\<forall>k. mu (snd (os_now os k)) \<le> mu k)"

definition kernel_ok :: "'k os \<Rightarrow> int \<Rightarrow> 'k registry \<Rightarrow> ('k \<Rightarrow> nat) \<Rightarrow> bool" where
  "kernel_ok os ep reg mu \<longleftrightarrow> write_bounded os \<and> epoll_ctl_spec os ep reg \<and> epoll_ctl_complete os ep reg \<and>
     reg_kept os reg \<and> finite_supply os ep mu"

definition sk_supply :: "skern \<Rightarrow> nat" where
  "sk_supply k = length (sk_writes k) + sum_list (map (\<lambda>r. case r of Inl e \<Rightarrow> 1 | Inr d \<Rightarrow> Suc (length d)) (sk_reads k))"

lemma sos_finite_supply: "finite_supply sos ep sk_supply"
proof -
  have "sk_supply k' \<le> sk_supply k \<and> (r = Inl EINTR \<or> (\<exists>d. r = Inr d \<and> d \<noteq> []) \<longrightarrow> sk_supply k' < sk_supply k)"
    if "sk_readv fd n k = (r, k')" for fd n k r k'
    using that by (auto simp: sk_readv_def sk_supply_def split: list.splits sum.splits if_splits)
  moreover have "sk_supply k' \<le> sk_supply k \<and> (s \<noteq> [] \<and> (r = Inl EINTR \<or> r = Inr 0) \<longrightarrow> sk_supply k' < sk_supply k)"
    if "sk_write fd s k = (r, k')" for fd s k r k'
    using that by (auto simp: sk_write_def sk_supply_def split: list.splits sum.splits)
  moreover have "sk_supply (snd (sk_epoll_ctl ep op fd ev k)) \<le> sk_supply k" for ep op fd ev k
    by (simp add: sk_epoll_ctl_def sk_supply_def Let_def split: ctl_op.split)
  moreover have "sk_supply (snd (sk_now k)) \<le> sk_supply k" for k
    by (simp add: sk_now_def sk_supply_def split: list.split)
  ultimately show ?thesis
    by (simp add: finite_supply_def) (simp add: sk_supply_def)
qed

lemma sos_kernel_ok: "kernel_ok sos ep sk_reg sk_supply"
proof -
  have "reg_kept sos sk_reg"
    by (simp add: reg_kept_def sk_reg_def sk_readv_def sk_write_def sk_now_def split: list.split sum.split)
  then show ?thesis
    by (simp add: kernel_ok_def sos_write_bounded sos_epoll_ctl_spec sos_epoll_ctl_complete sos_finite_supply)
qed

lemma kernel_okD:
  assumes "kernel_ok os ep reg mu"
  shows "write_bounded os" "epoll_ctl_spec os ep reg" "epoll_ctl_complete os ep reg"
    and "os_readv os fd n k = (r, k') \<Longrightarrow> reg k' = reg k \<and> mu k' \<le> mu k"
    and "os_write os fd w k = (r2, k') \<Longrightarrow> reg k' = reg k \<and> mu k' \<le> mu k"
    and "os_write8 os fd k = (r3, k') \<Longrightarrow> reg k' = reg k \<and> mu k' \<le> mu k"
    and "os_settime os fd t k = (r4, k') \<Longrightarrow> reg k' = reg k \<and> mu k' \<le> mu k"
    and "os_now os k = (r5, k') \<Longrightarrow> reg k' = reg k \<and> mu k' \<le> mu k"
    and "os_epoll_ctl os ep op fd ev k = (r6, k') \<Longrightarrow> mu k' \<le> mu k"
  using assms unfolding kernel_ok_def reg_kept_def finite_supply_def by (metis snd_conv)+

lemma supply_decreases:
  assumes "kernel_ok os ep reg mu"
  shows "os_readv os fd n k = (r, k') \<Longrightarrow> r = Inl EINTR \<or> (\<exists>d. r = Inr d \<and> d \<noteq> []) \<Longrightarrow> mu k' < mu k"
    and "os_write os fd w k = (r2, k') \<Longrightarrow> w \<noteq> [] \<Longrightarrow> r2 = Inl EINTR \<or> r2 = Inr 0 \<Longrightarrow> mu k' < mu k"
    and "os_read8 os fd k = (r2, k') \<Longrightarrow> mu k' \<le> mu k \<and> (r2 = Inl EINTR \<or> (\<exists>n. r2 = Inr n \<and> n \<noteq> 8) \<longrightarrow> mu k' < mu k)"
proof -
  have "finite_supply os ep mu"
    using assms by (simp add: kernel_ok_def)
  note rd = conjunct1[OF this[unfolded finite_supply_def], rule_format]
    and wr = conjunct1[OF conjunct2[OF this[unfolded finite_supply_def]], rule_format]
    and rd8 = conjunct1[OF conjunct2[OF conjunct2[OF this[unfolded finite_supply_def]]], rule_format]
  show "os_readv os fd n k = (r, k') \<Longrightarrow> r = Inl EINTR \<or> (\<exists>d. r = Inr d \<and> d \<noteq> []) \<Longrightarrow> mu k' < mu k"
    by (drule rd) simp
  show "os_write os fd w k = (r2, k') \<Longrightarrow> w \<noteq> [] \<Longrightarrow> r2 = Inl EINTR \<or> r2 = Inr 0 \<Longrightarrow> mu k' < mu k"
    by (drule wr) simp
  show "os_read8 os fd k = (r2, k') \<Longrightarrow> mu k' \<le> mu k \<and> (r2 = Inl EINTR \<or> (\<exists>n. r2 = Inr n \<and> n \<noteq> 8) \<longrightarrow> mu k' < mu k)"
    by (drule rd8) simp
qed

lemma updateChannel_supply:
  "kernel_ok os ep reg mu \<Longrightarrow> epoll_updateChannel os ep p c k = Inr (c', k') \<Longrightarrow> mu k' \<le> mu k"
  by (cases "ch_inEpoll c") (auto simp: epoll_updateChannel_def ebind_eq_Inr dest: kernel_okD(9) split: prod.splits)

lemma removeChannel_supply:
  "kernel_ok os ep reg mu \<Longrightarrow> epoll_removeChannel os ep c k = Inr (c', k') \<Longrightarrow> mu k' \<le> mu k"
  by (auto simp: epoll_removeChannel_def ebind_eq_Inr dest: kernel_okD(9) split: prod.splits if_splits)

subsection \<open>What epoll reports\<close>

text \<open>
  epoll_wait(2): each registered descriptor at most once, only with events that are registered (or
  error conditions, which the program does not look at); the call changes no registration. A call that
  a signal interrupts leaves what is ready as it was.
\<close>

definition epoll_wait_spec :: "'k os \<Rightarrow> int \<Rightarrow> 'k registry \<Rightarrow> ('k \<Rightarrow> nat) \<Rightarrow> bool" where
  "epoll_wait_spec os ep reg mu \<longleftrightarrow>
     (\<forall>n k r k'. os_epoll_wait os ep n k = (r, k') \<longrightarrow>
        reg k' = reg k \<and> (r = Inl EINTR \<longrightarrow> mu k' < mu k \<and> (os_ready os ep k \<longrightarrow> os_ready os ep k')) \<and>
        (\<forall>evs. r = Inr evs \<longrightarrow> distinct (map fst evs) \<and>
           (\<forall>(p, rev) \<in> set evs. \<exists>fd m. reg k fd = Some (p, m) \<and>
              (rev AND EPOLLIN \<noteq> 0 \<longrightarrow> m AND EPOLLIN \<noteq> 0) \<and> (rev AND EPOLLOUT \<noteq> 0 \<longrightarrow> m AND EPOLLOUT \<noteq> 0))))"

end
