(* ===== verification/Buffer.thy ===== *)
theory Buffer
  imports Kernel
begin

section \<open>Buffer: the byte queue of a connection\<close>

text \<open>
  Models \<open>class Buffer\<close> of include/Buffer.h and src/server/Buffer.cpp: a vector of bytes with
  a read and a write index, every operation with its own branches (write in place, slide the
  live bytes to the front, grow), the \<open>errif\<close> exits, and the functional contract: a buffer is
  a FIFO of bytes. The two
  operations that talk to a socket take the kernel of Kernel.thy.
\<close>

subsection \<open>State and observers\<close>

record buffer =
  b_buf :: "char list"
  b_readIdx :: nat
  b_writeIdx :: nat

definition Buffer_new :: buffer where
  "Buffer_new = \<lparr>b_buf = replicate 1024 (CHR 0x00), b_readIdx = 0, b_writeIdx = 0\<rparr>"

definition readable :: "buffer \<Rightarrow> nat" where
  "readable b = b_writeIdx b - b_readIdx b"

definition writable :: "buffer \<Rightarrow> nat" where
  "writable b = length (b_buf b) - b_writeIdx b"

definition peek :: "buffer \<Rightarrow> string" where
  "peek b = take (readable b) (drop (b_readIdx b) (b_buf b))"

text \<open>
  The invariant of the class: the indices are ordered and in range, the vector never shrinks
  below its initial size, and an empty buffer has both indices at 0.
\<close>

definition buffer_inv :: "buffer \<Rightarrow> bool" where
  "buffer_inv b \<longleftrightarrow>
     b_readIdx b \<le> b_writeIdx b \<and> b_writeIdx b \<le> length (b_buf b) \<and> 1024 \<le> length (b_buf b) \<and>
     (b_readIdx b = b_writeIdx b \<longrightarrow> b_readIdx b = 0)"

subsection \<open>Writing into the buffer\<close>

text \<open>\<open>slide\<close>: the \<open>std::copy\<close> to the front with the two index updates, shared by two operations.\<close>

definition slide :: "buffer \<Rightarrow> buffer" where
  "slide b = b\<lparr>b_buf := blit 0 (peek b) (b_buf b), b_readIdx := 0, b_writeIdx := readable b\<rparr>"

definition grow :: "nat \<Rightarrow> buffer \<Rightarrow> buffer" where
  "grow count b = b\<lparr>b_buf := vresize (b_writeIdx b + count) (b_buf b)\<rparr>"

function dataIn :: "string \<Rightarrow> buffer \<Rightarrow> buffer" where
  "dataIn s b =
     (let count = length s in
      if count \<le> writable b then
        b\<lparr>b_buf := blit (b_writeIdx b) s (b_buf b), b_writeIdx := b_writeIdx b + count\<rparr>
      else if count \<le> writable b + b_readIdx b then dataIn s (slide b)
      else dataIn s (grow count b))"
  by pat_completeness auto
termination
  by (relation "measure (\<lambda>(s, b). if length s \<le> writable b then 0
        else if length s \<le> writable b + b_readIdx b then 2 else (1::nat))")
    (auto simp: slide_def grow_def writable_def)

declare dataIn.simps [simp del]

subsection \<open>Reading from the buffer\<close>

text \<open>The tail of every consuming operation: advance the read index, reset both when empty.\<close>

definition consume :: "nat \<Rightarrow> buffer \<Rightarrow> buffer" where
  "consume n b =
     (let b' = b\<lparr>b_readIdx := b_readIdx b + n\<rparr> in
      if b_readIdx b' = b_writeIdx b' then b'\<lparr>b_readIdx := 0, b_writeIdx := 0\<rparr> else b')"

definition dataOut :: "nat \<Rightarrow> buffer \<Rightarrow> (string \<times> buffer) outcome" where
  "dataOut count b =
     ebind (errif (count > readable b) ''Not have enough data'') (\<lambda>_.
       Inr (take count (drop (b_readIdx b) (b_buf b)), consume count b))"

definition retrieve :: "nat \<Rightarrow> buffer \<Rightarrow> buffer outcome" where
  "retrieve n b =
     ebind (errif (n > readable b) ''retrieve: not enough data'') (\<lambda>_. Inr (consume n b))"

text \<open>The loop of \<open>findCRLF\<close> from index \<open>i\<close> on; \<open>None\<close> is \<open>std::string::npos\<close>.\<close>

function findCRLF_from :: "buffer \<Rightarrow> nat \<Rightarrow> nat option" where
  "findCRLF_from b i =
     (if i + 1 < readable b then
        if b_buf b ! (b_readIdx b + i) = CHR 0x0D \<and> b_buf b ! (b_readIdx b + i + 1) = CHR 0x0A
        then Some i else findCRLF_from b (Suc i)
      else None)"
  by pat_completeness auto
termination
  by (relation "measure (\<lambda>(b, i). readable b - i)") auto

declare findCRLF_from.simps [simp del]

definition findCRLF :: "buffer \<Rightarrow> nat option" where
  "findCRLF b = (if readable b < 2 then None else findCRLF_from b 0)"

function bufToBuf :: "nat \<Rightarrow> buffer \<Rightarrow> buffer \<Rightarrow> (buffer \<times> buffer) outcome" where
  "bufToBuf count b peer =
     (if count > readable b then Inl (Exit ''Not have enough data'')
      else if count \<le> writable peer then
        Inr (consume count b,
             peer\<lparr>b_buf := blit (b_writeIdx peer) (take count (drop (b_readIdx b) (b_buf b))) (b_buf peer),
                  b_writeIdx := b_writeIdx peer + count\<rparr>)
      else if count \<le> writable peer + b_readIdx peer then bufToBuf count b (slide peer)
      else bufToBuf count b (grow count peer))"
  by pat_completeness auto
termination
  by (relation "measure (\<lambda>(count, b, p). if count \<le> writable p then 0
        else if count \<le> writable p + b_readIdx p then 2 else (1::nat))")
    (auto simp: slide_def grow_def writable_def)

declare bufToBuf.simps [simp del]

subsection \<open>Buffer and socket\<close>

text \<open>
  \<open>sckToBuffer\<close> offers \<open>readv\<close> the free tail of the vector and 64 KiB of stack, in this order.
  The bytes that land in the stack area are appended by \<open>dataIn\<close>, which slides or grows.
  A negative result leaves the buffer alone.
\<close>

definition sckToBuffer_store :: "string \<Rightarrow> buffer \<Rightarrow> buffer" where
  "sckToBuffer_store d b =
     (let n = length d; w = writable b in
      if n \<le> w then b\<lparr>b_buf := blit (b_writeIdx b) d (b_buf b), b_writeIdx := b_writeIdx b + n\<rparr>
      else dataIn (drop w d)
             (b\<lparr>b_buf := blit (b_writeIdx b) (take w d) (b_buf b), b_writeIdx := length (b_buf b)\<rparr>))"

definition sckToBuffer ::
  "'k os \<Rightarrow> int \<Rightarrow> buffer \<Rightarrow> 'k \<Rightarrow> (errno + nat) \<times> buffer \<times> 'k" where
  "sckToBuffer os fd b k =
     (case os_readv os fd (writable b + 65536) k of
        (Inl e, k') \<Rightarrow> (Inl e, b, k')
      | (Inr d, k') \<Rightarrow> (Inr (length d), sckToBuffer_store d b, k'))"

text \<open>
  \<open>bufferToSck\<close> advances by the number of bytes the socket took, not by the number offered;
  the reset of the indices also runs after a failed write.
\<close>

definition bufferToSck ::
  "'k os \<Rightarrow> int \<Rightarrow> nat \<Rightarrow> buffer \<Rightarrow> 'k \<Rightarrow> ((errno + nat) \<times> buffer \<times> 'k) outcome" where
  "bufferToSck os fd count b k =
     ebind (errif (count > readable b) ''Not have enough data'') (\<lambda>_.
       case os_write os fd (take count (drop (b_readIdx b) (b_buf b))) k of
         (Inl e, k') \<Rightarrow> Inr (Inl e, consume 0 b, k')
       | (Inr n, k') \<Rightarrow> Inr (Inr n, consume n b, k'))"

subsection \<open>The primitives keep the invariant\<close>

named_theorems buffer_simps

lemma Buffer_new_inv [simp, intro]: "buffer_inv Buffer_new"
  by (simp add: buffer_inv_def Buffer_new_def)

lemma peek_Buffer_new [simp]: "peek Buffer_new = []"
  by (simp add: peek_def Buffer_new_def readable_def)

lemma length_peek [simp]: "buffer_inv b \<Longrightarrow> length (peek b) = readable b"
  by (auto simp: buffer_inv_def peek_def readable_def)

lemma readable_0_iff: "buffer_inv b \<Longrightarrow> readable b = 0 \<longleftrightarrow> peek b = []"
  by (metis length_0_conv length_peek)

lemma peek_nth: "buffer_inv b \<Longrightarrow> i < readable b \<Longrightarrow> b_buf b ! (b_readIdx b + i) = peek b ! i"
  by (simp add: buffer_inv_def peek_def readable_def)

lemma slide_props:
  assumes "buffer_inv b"
  shows "buffer_inv (slide b)" "peek (slide b) = peek b" "b_readIdx (slide b) = 0"
    "b_writeIdx (slide b) = readable b" "length (b_buf (slide b)) = length (b_buf b)"
proof -
  have len: "length (peek b) = readable b" "readable b \<le> length (b_buf b)"
    using assms by (auto simp: buffer_inv_def readable_def)
  show "peek (slide b) = peek b"
    unfolding slide_def peek_def[of "_\<lparr>b_buf := _, b_readIdx := _, b_writeIdx := _\<rparr>"]
    using len by (simp add: readable_def[of "_\<lparr>b_buf := _, b_readIdx := _, b_writeIdx := _\<rparr>"] blit_def)
  show "buffer_inv (slide b)" "b_readIdx (slide b) = 0"
    "b_writeIdx (slide b) = readable b" "length (b_buf (slide b)) = length (b_buf b)"
    using assms len by (auto simp: slide_def buffer_inv_def)
qed

lemma grow_props:
  assumes "buffer_inv b" and "writable b < n"
  shows "buffer_inv (grow n b)" "peek (grow n b) = peek b" "writable (grow n b) = n"
    "b_writeIdx (grow n b) = b_writeIdx b" "length (b_buf (grow n b)) = b_writeIdx b + n"
proof -
  have *: "b_readIdx b \<le> b_writeIdx b" "b_writeIdx b \<le> length (b_buf b)"
    using assms by (auto simp: buffer_inv_def)
  have "take (b_writeIdx b) (vresize (b_writeIdx b + n) (b_buf b)) = take (b_writeIdx b) (b_buf b)"
    using * by (simp add: take_vresize)
  then show "peek (grow n b) = peek b"
    using * by (simp add: peek_def grow_def readable_def flip: drop_take)
  show "buffer_inv (grow n b)" "writable (grow n b) = n"
    "b_writeIdx (grow n b) = b_writeIdx b" "length (b_buf (grow n b)) = b_writeIdx b + n"
    using assms by (auto simp: buffer_inv_def grow_def writable_def)
qed

lemma append_at_end:
  assumes "buffer_inv b" and "length s \<le> writable b"
  defines "b' \<equiv> b\<lparr>b_buf := blit (b_writeIdx b) s (b_buf b), b_writeIdx := b_writeIdx b + length s\<rparr>"
  shows "buffer_inv b'" "peek b' = peek b @ s"
proof -
  have "b_readIdx b \<le> b_writeIdx b" "b_writeIdx b + length s \<le> length (b_buf b)"
    using assms by (auto simp: buffer_inv_def writable_def)
  then show "peek b' = peek b @ s"
    by (simp add: b'_def peek_def readable_def slice_blit)
  show "buffer_inv b'"
    using assms by (auto simp: b'_def buffer_inv_def writable_def)
qed

lemma consume_props:
  assumes "buffer_inv b" and "n \<le> readable b"
  shows "buffer_inv (consume n b)" "peek (consume n b) = drop n (peek b)"
    "readable (consume n b) = readable b - n" "b_buf (consume n b) = b_buf b"
  using assms
  by (auto simp: buffer_inv_def consume_def peek_def readable_def Let_def drop_take add.commute)

lemma consume_0 [simp]: "buffer_inv b \<Longrightarrow> consume 0 b = b"
  by (auto simp: consume_def Let_def buffer_inv_def)

subsection \<open>The operations on the content\<close>

lemma dataIn_props:
  assumes "buffer_inv b"
  shows "buffer_inv (dataIn s b) \<and> peek (dataIn s b) = peek b @ s"
  using assms
proof (induction s b rule: dataIn.induct)
  case (1 s b)
  show ?case
  proof (cases "length s \<le> writable b")
    case True
    then show ?thesis
      using append_at_end[OF 1(3)] by (simp add: dataIn.simps[of s b])
  next
    case False
    show ?thesis
    proof (cases "length s \<le> writable b + b_readIdx b")
      case True
      then show ?thesis
        using 1(1)[OF refl False True] False slide_props[OF 1(3)]
        by (simp add: dataIn.simps[of s b])
    next
      case False': False
      then show ?thesis
        using 1(2)[OF refl False] False grow_props[OF 1(3), of "length s"]
        by (simp add: dataIn.simps[of s b])
    qed
  qed
qed

lemma dataIn_inv [simp, intro]: "buffer_inv b \<Longrightarrow> buffer_inv (dataIn s b)"
  by (simp add: dataIn_props)

lemma peek_dataIn [simp]: "buffer_inv b \<Longrightarrow> peek (dataIn s b) = peek b @ s"
  by (simp add: dataIn_props)

lemma dataOut_ok:
  "buffer_inv b \<Longrightarrow> n \<le> readable b \<Longrightarrow> dataOut n b = Inr (take n (peek b), consume n b)"
  by (simp add: dataOut_def peek_def min_def)

lemma dataOut_exit: "readable b < n \<Longrightarrow> dataOut n b = Inl (Exit ''Not have enough data'')"
  by (simp add: dataOut_def)

lemma retrieve_ok: "n \<le> readable b \<Longrightarrow> retrieve n b = Inr (consume n b)"
  by (simp add: retrieve_def)

lemma retrieve_exit: "readable b < n \<Longrightarrow> retrieve n b = Inl (Exit ''retrieve: not enough data'')"
  by (simp add: retrieve_def)

lemma sckToBuffer_store_props:
  assumes "buffer_inv b"
  shows "buffer_inv (sckToBuffer_store d b) \<and> peek (sckToBuffer_store d b) = peek b @ d"
proof (cases "length d \<le> writable b")
  case True
  then show ?thesis
    using append_at_end[OF assms] by (simp add: sckToBuffer_store_def)
next
  case False
  let ?b = "b\<lparr>b_buf := blit (b_writeIdx b) (take (writable b) d) (b_buf b), b_writeIdx := length (b_buf b)\<rparr>"
  have w: "length (take (writable b) d) = writable b"
    using False by simp
  have "b_writeIdx b + writable b = length (b_buf b)"
    using assms by (simp add: buffer_inv_def writable_def)
  then have "buffer_inv ?b" "peek ?b = peek b @ take (writable b) d"
    using append_at_end[OF assms, of "take (writable b) d"] w by simp_all
  then show ?thesis
    using False by (simp add: sckToBuffer_store_def Let_def dataIn_props)
qed

subsection \<open>findCRLF searches the content\<close>

fun find_crlf :: "string \<Rightarrow> nat option" where
  "find_crlf (c # d # cs) =
     (if c = CHR 0x0D \<and> d = CHR 0x0A then Some 0 else map_option Suc (find_crlf (d # cs)))"
| "find_crlf [c] = None"
| "find_crlf [] = None"

definition crlf_at :: "string \<Rightarrow> nat \<Rightarrow> bool" where
  "crlf_at s i \<longleftrightarrow> Suc i < length s \<and> s ! i = CHR 0x0D \<and> s ! Suc i = CHR 0x0A"

lemma crlf_at_Cons_0: "crlf_at (c # cs) 0 \<longleftrightarrow> c = CHR 0x0D \<and> cs \<noteq> [] \<and> hd cs = CHR 0x0A"
  by (cases cs) (auto simp: crlf_at_def)

lemma crlf_at_Cons_Suc [simp]: "crlf_at (c # cs) (Suc i) \<longleftrightarrow> crlf_at cs i"
  by (simp add: crlf_at_def)

lemma find_crlf_Some:
  "find_crlf s = Some i \<Longrightarrow> crlf_at s i \<and> (\<forall>j<i. \<not> crlf_at s j)"
proof (induction s arbitrary: i rule: find_crlf.induct)
  case (1 c d cs)
  show ?case
  proof (cases "c = CHR 0x0D \<and> d = CHR 0x0A")
    case True
    with 1 show ?thesis by (auto simp: crlf_at_Cons_0)
  next
    case False
    then obtain k where k: "find_crlf (d # cs) = Some k" "i = Suc k"
      using 1(2) by (auto split: if_splits)
    then have "\<not> crlf_at (c # d # cs) j" if "j < i" for j
      using that 1(1)[OF False k(1)] False by (cases j) (auto simp: crlf_at_Cons_0)
    then show ?thesis
      using 1(1)[OF False k(1)] k(2) by auto
  qed
qed auto

lemma find_crlf_None: "find_crlf s = None \<longleftrightarrow> (\<forall>i. \<not> crlf_at s i)"
proof (induction s rule: find_crlf.induct)
  case (1 c d cs)
  have *: "(\<forall>i. \<not> crlf_at (c # d # cs) i) \<longleftrightarrow>
      \<not> (c = CHR 0x0D \<and> d = CHR 0x0A) \<and> (\<forall>i. \<not> crlf_at (d # cs) i)"
    by (metis crlf_at_Cons_0 crlf_at_Cons_Suc list.sel(1) list.distinct(1) not0_implies_Suc)
  show ?case
    using 1 by (auto simp: *)
qed (auto simp: crlf_at_def)

lemma find_crlf_bound: "find_crlf s = Some i \<Longrightarrow> i + 2 \<le> length s"
  by (auto dest: find_crlf_Some simp: crlf_at_def)

lemma find_crlf_append: "find_crlf s = Some i \<Longrightarrow> find_crlf (s @ t) = Some i"
  by (induction s arbitrary: i rule: find_crlf.induct) (auto split: if_splits)

lemma find_crlf_line:
  assumes "CHR 0x0D \<notin> set l"
  shows "find_crlf (l @ CHR 0x0D # CHR 0x0A # t) = Some (length l)"
  using assms
proof (induction l)
  case (Cons c l)
  then show ?case by (cases l) auto
qed simp

lemma find_crlf_no_CR: "CHR 0x0D \<notin> set l \<Longrightarrow> find_crlf l = None"
  by (induction l rule: find_crlf.induct) auto

lemma findCRLF_from_drop:
  "buffer_inv b \<Longrightarrow> findCRLF_from b i = map_option ((+) i) (find_crlf (drop i (peek b)))"
proof (induction b i rule: findCRLF_from.induct)
  case (1 b i)
  have len: "length (peek b) = readable b"
    using 1 by simp
  show ?case
  proof (cases "i + 1 < readable b")
    case True
    have d: "drop i (peek b) = peek b ! i # peek b ! Suc i # drop (Suc (Suc i)) (peek b)"
            "drop (Suc i) (peek b) = peek b ! Suc i # drop (Suc (Suc i)) (peek b)"
      using True len by (simp_all add: Cons_nth_drop_Suc)
    have nth: "b_buf b ! (b_readIdx b + i) = peek b ! i"
              "b_buf b ! (b_readIdx b + i + 1) = peek b ! Suc i"
      using peek_nth[OF 1(2), of i] peek_nth[OF 1(2), of "Suc i"] True by simp_all
    show ?thesis
    proof (cases "peek b ! i = CHR 0x0D \<and> peek b ! Suc i = CHR 0x0A")
      case hit: True
      then show ?thesis
        using True nth by (simp add: findCRLF_from.simps[of b i] d(1))
    next
      case miss: False
      have "findCRLF_from b i = findCRLF_from b (Suc i)"
        using True nth miss by (auto simp: findCRLF_from.simps[of b i])
      also have "\<dots> = map_option ((+) (Suc i)) (find_crlf (drop (Suc i) (peek b)))"
        by (rule 1(1)[OF True _ 1(2)]) (use nth miss in auto)
      also have "\<dots> = map_option ((+) i) (map_option Suc (find_crlf (drop (Suc i) (peek b))))"
        by (cases "find_crlf (drop (Suc i) (peek b))") auto
      also have "map_option Suc (find_crlf (drop (Suc i) (peek b))) = find_crlf (drop i (peek b))"
        using miss by (simp add: d)
      finally show ?thesis .
    qed
  next
    case False
    then have "length (drop i (peek b)) \<le> 1"
      using len by simp
    then have "find_crlf (drop i (peek b)) = None"
      by (cases "drop i (peek b)" rule: find_crlf.cases) auto
    then show ?thesis
      using False by (simp add: findCRLF_from.simps[of b i])
  qed
qed

lemma findCRLF_peek: "buffer_inv b \<Longrightarrow> findCRLF b = find_crlf (peek b)"
proof (cases "readable b < 2")
  case True
  assume "buffer_inv b"
  with True have "length (peek b) \<le> 1" by simp
  with True show ?thesis
    by (cases "peek b" rule: find_crlf.cases) (auto simp: findCRLF_def)
next
  case False
  assume "buffer_inv b"
  with False show ?thesis
    by (cases "find_crlf (peek b)") (simp_all add: findCRLF_def findCRLF_from_drop)
qed

subsection \<open>Moving bytes between two buffers\<close>

lemma bufToBuf_ok:
  assumes "buffer_inv b" and "buffer_inv peer" and "n \<le> readable b"
  shows "\<exists>peer'. bufToBuf n b peer = Inr (consume n b, peer') \<and> buffer_inv peer' \<and>
           peek peer' = peek peer @ take n (peek b)"
  using assms
proof (induction n b peer rule: bufToBuf.induct)
  case (1 n b peer)
  have src: "take n (drop (b_readIdx b) (b_buf b)) = take n (peek b)"
    using 1(5) by (simp add: peek_def min_def)
  have not_exit: "\<not> n > readable b"
    using 1(5) by simp
  show ?case
  proof (cases "n \<le> writable peer")
    case True
    moreover have "length (take n (peek b)) = n"
      using 1(3,5) by simp
    ultimately show ?thesis
      using not_exit src 1(3) append_at_end[OF 1(4), of "take n (peek b)"]
      by (simp add: bufToBuf.simps[of n b peer])
  next
    case False
    show ?thesis
    proof (cases "n \<le> writable peer + b_readIdx peer")
      case True
      then show ?thesis
        using 1(1)[OF not_exit False True] 1(3,5) False slide_props[OF 1(4)]
        by (simp add: bufToBuf.simps[of n b peer])
    next
      case False': False
      then show ?thesis
        using 1(2)[OF not_exit False] 1(3,5) False grow_props[OF 1(4), of n]
        by (simp add: bufToBuf.simps[of n b peer])
    qed
  qed
qed

subsection \<open>The interface: a byte FIFO\<close>

text \<open>
  What the users of a \<open>Buffer\<close> rely on, as a locale: writes append to the content, reads take
  from its front, and asking for more than there is ends in the program's exit. The lemma
  about arbitrary sequences of operations is proved once here.
\<close>

datatype fifo_op = Push string | Pop nat

fun fifo_run ::
  "(string \<Rightarrow> 'b \<Rightarrow> 'b) \<Rightarrow> (nat \<Rightarrow> 'b \<Rightarrow> (string \<times> 'b) outcome) \<Rightarrow> fifo_op list \<Rightarrow> 'b \<Rightarrow> (string \<times> 'b) outcome" where
  "fifo_run push pop [] b = Inr ([], b)"
| "fifo_run push pop (Push s # ops) b = fifo_run push pop ops (push s b)"
| "fifo_run push pop (Pop n # ops) b =
     ebind (pop n b) (\<lambda>(s, b'). ebind (fifo_run push pop ops b') (\<lambda>(out, b''). Inr (s @ out, b'')))"

text \<open>The specification: a plain list of bytes; \<open>None\<close> when more is read than is there.\<close>

fun fifo_spec :: "fifo_op list \<Rightarrow> string \<Rightarrow> (string \<times> string) option" where
  "fifo_spec [] q = Some ([], q)"
| "fifo_spec (Push s # ops) q = fifo_spec ops (q @ s)"
| "fifo_spec (Pop n # ops) q =
     (if n \<le> length q then map_option (\<lambda>(out, q'). (take n q @ out, q')) (fifo_spec ops (drop n q))
      else None)"

fun fifo_pushed :: "fifo_op list \<Rightarrow> string" where
  "fifo_pushed [] = []"
| "fifo_pushed (Push s # ops) = s @ fifo_pushed ops"
| "fifo_pushed (Pop n # ops) = fifo_pushed ops"

lemma fifo_spec_stream: "fifo_spec ops q = Some (out, q') \<Longrightarrow> out @ q' = q @ fifo_pushed ops"
proof (induction ops q arbitrary: out rule: fifo_spec.induct)
  case (3 n ops q)
  then obtain o1 where o1: "fifo_spec ops (drop n q) = Some (o1, q')" "out = take n q @ o1" "n \<le> length q"
    by (auto split: if_splits)
  then show ?case
    using 3 by (metis append.assoc append_take_drop_id fifo_pushed.simps(3))
qed auto

locale byte_fifo =
  fixes inv :: "'b \<Rightarrow> bool"
    and content :: "'b \<Rightarrow> string"
    and push :: "string \<Rightarrow> 'b \<Rightarrow> 'b"
    and pop :: "nat \<Rightarrow> 'b \<Rightarrow> (string \<times> 'b) outcome"
  assumes inv_push: "inv b \<Longrightarrow> inv (push s b)"
    and content_push: "inv b \<Longrightarrow> content (push s b) = content b @ s"
    and pop_ok: "inv b \<Longrightarrow> n \<le> length (content b) \<Longrightarrow>
      \<exists>b'. pop n b = Inr (take n (content b), b') \<and> inv b' \<and> content b' = drop n (content b)"
    and pop_exit: "inv b \<Longrightarrow> length (content b) < n \<Longrightarrow> \<exists>m. pop n b = Inl (Exit m)"
begin

lemma run_refines_spec:
  "inv b \<Longrightarrow>
   (case fifo_spec ops (content b) of
      None \<Rightarrow> \<exists>m. fifo_run push pop ops b = Inl (Exit m)
    | Some (out, q) \<Rightarrow> \<exists>b'. fifo_run push pop ops b = Inr (out, b') \<and> inv b' \<and> content b' = q)"
proof (induction ops arbitrary: b)
  case Nil
  then show ?case by simp
next
  case (Cons x ops)
  show ?case
  proof (cases x)
    case (Push s)
    then show ?thesis
      using Cons.IH[of "push s b"] Cons.prems
      by (auto simp: inv_push content_push split: option.splits)
  next
    case (Pop n)
    show ?thesis
    proof (cases "n \<le> length (content b)")
      case True
      then obtain b' where b': "pop n b = Inr (take n (content b), b')" "inv b'"
          "content b' = drop n (content b)"
        using pop_ok Cons.prems by blast
      then show ?thesis
        using Cons.IH[of b'] Pop True by (auto split: option.splits)
    next
      case False
      then obtain m where "pop n b = Inl (Exit m)"
        using pop_exit[OF Cons.prems, of n] by auto
      then show ?thesis
        using Pop False by simp
    qed
  qed
qed

lemma run_stream:
  assumes "inv b" and "fifo_run push pop ops b = Inr (out, b')"
  shows "out @ content b' = content b @ fifo_pushed ops"
  using run_refines_spec[OF assms(1), of ops] assms(2)
  by (auto split: option.splits dest: fifo_spec_stream)

end

text \<open>
  The parser's way to take bytes (look, then \<open>retrieve\<close>) and the socket's way to put them
  (\<open>readv\<close> with the stack area) are FIFO operations too.
\<close>

definition peek_retrieve :: "nat \<Rightarrow> buffer \<Rightarrow> (string \<times> buffer) outcome" where
  "peek_retrieve n b = ebind (retrieve n b) (\<lambda>b'. Inr (take n (peek b), b'))"

interpretation data_fifo: byte_fifo buffer_inv peek dataIn dataOut
  by unfold_locales (auto simp: dataOut_ok dataOut_exit consume_props)

interpretation line_fifo: byte_fifo buffer_inv peek sckToBuffer_store peek_retrieve
  by unfold_locales
    (auto simp: sckToBuffer_store_props peek_retrieve_def retrieve_ok retrieve_exit consume_props)

subsection \<open>Properties\<close>

text \<open>
  C23. A buffer is a FIFO of bytes: any sequence of \<open>dataIn\<close> and \<open>dataOut\<close> on a new buffer, with
  whatever slides and growths happen inside, delivers exactly what a plain list of bytes
  would, keeps the class invariant, and reaches the exit of \<open>errif\<close> exactly when more bytes
  are asked for than are there.
\<close>

theorem buffer_is_fifo:
  "case fifo_spec ops [] of
     None \<Rightarrow> \<exists>m. fifo_run dataIn dataOut ops Buffer_new = Inl (Exit m)
   | Some (out, q) \<Rightarrow>
       \<exists>b'. fifo_run dataIn dataOut ops Buffer_new = Inr (out, b') \<and> buffer_inv b' \<and> peek b' = q"
  using data_fifo.run_refines_spec[OF Buffer_new_inv, of ops] by simp

text \<open>
  C24. The bytes of a connection are neither lost, repeated nor reordered on the way in: for any
  interleaving of \<open>readv\<close> deliveries of any size (\<open>sckToBuffer\<close>, with its stack area) and of the
  parser's looks and \<open>retrieve\<close>s, what was taken out followed by what is still there is what
  was there followed by what came in.
\<close>

theorem incoming_stream_intact:
  assumes "buffer_inv b" and "fifo_run sckToBuffer_store peek_retrieve ops b = Inr (out, b')"
  shows "out @ peek b' = peek b @ fifo_pushed ops"
  by (rule line_fifo.run_stream[OF assms])

theorem incoming_stream_intact_witness:
  "\<exists>out b'. fifo_run sckToBuffer_store peek_retrieve [Push (replicate 3000 (CHR ''x'')), Pop 2000, Push ''end''] Buffer_new
      = Inr (out, b') \<and> out @ peek b' = peek Buffer_new @ fifo_pushed [Push (replicate 3000 (CHR ''x'')), Pop 2000, Push ''end'']"
proof -
  let ?ops = "[Push (replicate 3000 (CHR ''x'')), Pop 2000, Push ''end'']"
  obtain out b' where run: "fifo_run sckToBuffer_store peek_retrieve ?ops Buffer_new = Inr (out, b')"
    using line_fifo.run_refines_spec[OF Buffer_new_inv, of ?ops] by auto
  then show ?thesis
    using incoming_stream_intact[OF Buffer_new_inv run] by auto
qed

text \<open>
  C25. \<open>sckToBuffer\<close> and \<open>bufferToSck\<close> against the socket: every byte \<open>readv\<close> delivers is appended
  and counted, an error changes nothing; a write removes exactly the bytes the socket took
  from the front (not the bytes offered), and a failed write loses nothing. Neither can make
  the indices run past each other.
\<close>

theorem socket_transfer:
  assumes "buffer_inv b" and "write_bounded os"
  shows "(case sckToBuffer os fd b k of
        (Inl e, b', _) \<Rightarrow> b' = b
      | (Inr n, b', _) \<Rightarrow>
          \<exists>d. fst (os_readv os fd (writable b + 65536) k) = Inr d \<and> n = length d \<and>
              peek b' = peek b @ d \<and> buffer_inv b') \<and>
     (case bufferToSck os fd (readable b) b k of
        Inl e \<Rightarrow> False
      | Inr (Inl e, b', _) \<Rightarrow> b' = b
      | Inr (Inr n, b', _) \<Rightarrow>
          fst (os_write os fd (peek b) k) = Inr n \<and> n \<le> readable b \<and>
          peek b' = drop n (peek b) \<and> buffer_inv b')"
proof
  show "case sckToBuffer os fd b k of
        (Inl e, b', _) \<Rightarrow> b' = b
      | (Inr n, b', _) \<Rightarrow>
          \<exists>d. fst (os_readv os fd (writable b + 65536) k) = Inr d \<and> n = length d \<and>
              peek b' = peek b @ d \<and> buffer_inv b'"
    using sckToBuffer_store_props[OF assms(1)]
    by (auto simp: sckToBuffer_def split: prod.splits sum.splits)
  obtain r k' where w: "os_write os fd (peek b) k = (r, k')"
    by fastforce
  have bytes: "take (readable b) (drop (b_readIdx b) (b_buf b)) = peek b"
    by (simp add: peek_def)
  show "case bufferToSck os fd (readable b) b k of
        Inl e \<Rightarrow> False
      | Inr (Inl e, b', _) \<Rightarrow> b' = b
      | Inr (Inr n, b', _) \<Rightarrow>
          fst (os_write os fd (peek b) k) = Inr n \<and> n \<le> readable b \<and>
          peek b' = drop n (peek b) \<and> buffer_inv b'"
  proof (cases r)
    case (Inl e)
    then show ?thesis
      using w bytes assms(1) by (simp add: bufferToSck_def)
  next
    case (Inr n)
    then have "n \<le> readable b"
      using write_boundedD[OF assms(2)] w assms(1) by fastforce
    then show ?thesis
      using Inr w bytes consume_props[OF assms(1)] by (simp add: bufferToSck_def)
  qed
qed

theorem socket_transfer_witness:
  "let b = dataIn ''abcdef'' Buffer_new; k = skern0\<lparr>sk_writes := [Inr 4]\<rparr> in
   case bufferToSck sos 5 (readable b) b k of
        Inl e \<Rightarrow> False
      | Inr (Inl e, b', _) \<Rightarrow> b' = b
      | Inr (Inr n, b', _) \<Rightarrow>
          fst (os_write sos 5 (peek b) k) = Inr n \<and> n \<le> readable b \<and>
          peek b' = drop n (peek b) \<and> buffer_inv b'"
  using socket_transfer[of "dataIn ''abcdef'' Buffer_new" sos 5 "skern0\<lparr>sk_writes := [Inr 4]\<rparr>"]
    sos_write_bounded by (simp add: Let_def)

text \<open>
  Growth: \<open>dataIn\<close> reallocates only when the live bytes plus the new ones do not fit the
  vector, however the dead zone in front of the read index lies; the new size is the write
  index plus the number of new bytes, and otherwise the size does not change.
\<close>

lemma length_dataIn:
  "buffer_inv b \<Longrightarrow> length (b_buf (dataIn s b)) =
     (if readable b + length s \<le> length (b_buf b) then length (b_buf b) else b_writeIdx b + length s)"
proof (induction s b rule: dataIn.induct)
  case (1 s b)
  have idx: "b_readIdx b \<le> b_writeIdx b" "b_writeIdx b \<le> length (b_buf b)"
    using 1(3) by (auto simp: buffer_inv_def)
  show ?case
  proof (cases "length s \<le> writable b")
    case True
    then show ?thesis
      using idx by (auto simp: dataIn.simps[of s b] writable_def readable_def)
  next
    case False
    show ?thesis
    proof (cases "length s \<le> writable b + b_readIdx b")
      case True
      then show ?thesis
        using 1(1)[OF refl False True] slide_props[OF 1(3)] False idx
        by (auto simp: dataIn.simps[of s b] readable_def writable_def)
    next
      case False': False
      have "readable (grow (length s) b) + length s \<le> length (b_buf (grow (length s) b))"
        using grow_props[OF 1(3), of "length s"] False idx by (simp add: readable_def grow_def)
      then show ?thesis
        using 1(2)[OF refl False False'] grow_props[OF 1(3), of "length s"] False False' idx
        by (auto simp: dataIn.simps[of s b] readable_def writable_def)
    qed
  qed
qed

theorem dataIn_capacity:
  assumes "buffer_inv b"
  shows "length (b_buf (dataIn s b)) =
     (if readable b + length s \<le> length (b_buf b) then length (b_buf b) else b_writeIdx b + length s)"
  by (rule length_dataIn[OF assms])

theorem dataIn_capacity_witness:
  "length (b_buf (dataIn (replicate 2000 (CHR ''x'')) Buffer_new)) =
     (if readable Buffer_new + length (replicate 2000 (CHR ''x'')) \<le> length (b_buf Buffer_new)
      then length (b_buf Buffer_new) else b_writeIdx Buffer_new + length (replicate 2000 (CHR ''x'')))"
  by (rule dataIn_capacity) simp



text \<open>
  \<open>bufToBuf\<close> moves exactly \<open>count\<close> bytes: the front of this buffer leaves it and is appended
  to the peer, which slides or grows as needed; asking for more than is readable exits.
\<close>

theorem bufToBuf_moves_count:
  assumes "buffer_inv b" and "buffer_inv peer"
  shows "case bufToBuf count b peer of
       Inl e \<Rightarrow> e = Exit ''Not have enough data'' \<and> readable b < count
     | Inr (b', peer') \<Rightarrow>
         count \<le> readable b \<and> peek b' = drop count (peek b) \<and> readable b' = readable b - count \<and>
         peek peer' = peek peer @ take count (peek b) \<and> buffer_inv b' \<and> buffer_inv peer'"
proof (cases "count \<le> readable b")
  case True
  then show ?thesis
    using bufToBuf_ok[OF assms True] consume_props[OF assms(1) True] by auto
next
  case False
  then show ?thesis
    by (simp add: bufToBuf.simps[of count b peer])
qed

theorem bufToBuf_moves_count_witness:
  "case bufToBuf 2 (dataIn ''abc'' Buffer_new) Buffer_new of
       Inl e \<Rightarrow> e = Exit ''Not have enough data'' \<and> readable (dataIn ''abc'' Buffer_new) < 2
     | Inr (b', peer') \<Rightarrow>
         2 \<le> readable (dataIn ''abc'' Buffer_new) \<and> peek b' = drop 2 (peek (dataIn ''abc'' Buffer_new)) \<and>
         readable b' = readable (dataIn ''abc'' Buffer_new) - 2 \<and>
         peek peer' = peek Buffer_new @ take 2 (peek (dataIn ''abc'' Buffer_new)) \<and> buffer_inv b' \<and> buffer_inv peer'"
  by (rule bufToBuf_moves_count) auto

end
