(* ===== verification/CppString.thy ===== *)
theory CppString
  imports Prelude
begin

section \<open>The parts of the C++ standard library on strings that the program uses\<close>

text \<open>
  \<open>std::string\<close> is a list of bytes. Searches answer an option, \<open>None\<close> for \<open>npos\<close>;
  \<open>std::tolower\<close> and \<open>std::isdigit\<close> are those of the "C" locale; \<open>std::stoul\<close> parses as
  \<open>strtoul\<close> in base 10 does on a 64-bit \<open>unsigned long\<close>, with its two exceptions.
\<close>

abbreviation CR :: char where "CR \<equiv> CHR 0x0D"
abbreviation LF :: char where "LF \<equiv> CHR 0x0A"
abbreviation CRLF :: string where "CRLF \<equiv> [CHR 0x0D, CHR 0x0A]"
abbreviation SP :: char where "SP \<equiv> CHR '' ''"

subsection \<open>Searching\<close>

fun char_index :: "char \<Rightarrow> string \<Rightarrow> nat option" where
  "char_index c [] = None"
| "char_index c (x # xs) = (if x = c then Some 0 else map_option Suc (char_index c xs))"

definition find_char :: "string \<Rightarrow> char \<Rightarrow> nat \<Rightarrow> nat option" where
  "find_char s c pos = map_option ((+) pos) (char_index c (drop pos s))"

fun str_index :: "string \<Rightarrow> string \<Rightarrow> nat option" where
  "str_index n [] = (if n = [] then Some 0 else None)"
| "str_index n (x # xs) =
     (if take (length n) (x # xs) = n then Some 0 else map_option Suc (str_index n xs))"

definition find_str :: "string \<Rightarrow> string \<Rightarrow> nat \<Rightarrow> nat option" where
  "find_str s n pos = (if pos \<le> length s then map_option ((+) pos) (str_index n (drop pos s)) else None)"

definition substr :: "string \<Rightarrow> nat \<Rightarrow> nat \<Rightarrow> string" where
  "substr s pos n = take n (drop pos s)"

lemma char_index_None [simp]: "char_index c s = None \<longleftrightarrow> c \<notin> set s"
  by (induction s) auto

lemma char_index_Some:
  "char_index c s = Some i \<longleftrightarrow> i < length s \<and> s ! i = c \<and> c \<notin> set (take i s)"
proof (induction s arbitrary: i)
  case (Cons x s)
  then show ?case by (cases i) auto
qed simp

lemma char_index_append: "c \<notin> set a \<Longrightarrow> char_index c (a @ c # b) = Some (length a)"
  by (induction a) auto

lemma char_index_split:
  assumes "char_index c s = Some i"
  shows "s = take i s @ c # drop (Suc i) s" "c \<notin> set (take i s)" "length (take i s) = i"
  using assms by (auto simp: char_index_Some id_take_nth_drop[symmetric])

lemma str_index_bound: "str_index n s = Some i \<Longrightarrow> i + length n \<le> length s"
  by (induction s arbitrary: i) (auto split: if_splits dest: arg_cong[where f = length] simp: min_def)

lemma str_index_Some: "str_index n s = Some i \<Longrightarrow> take (length n) (drop i s) = n"
  by (induction s arbitrary: i) (auto split: if_splits)

lemma str_index_Some_least: "str_index n s = Some i \<Longrightarrow> j < i \<Longrightarrow> take (length n) (drop j s) \<noteq> n"
proof (induction s arbitrary: i j)
  case (Cons x s)
  then show ?case by (cases j) (auto split: if_splits)
qed (auto split: if_splits)

lemma all_le_Suc_split: "(\<forall>i \<le> Suc n. P i) \<longleftrightarrow> P 0 \<and> (\<forall>i \<le> n. P (Suc i))"
  by (metis Suc_le_mono le0 not0_implies_Suc)

lemma str_index_None: "str_index n s = None \<longleftrightarrow> (\<forall>i \<le> length s. take (length n) (drop i s) \<noteq> n)"
  by (induction s) (auto simp: all_le_Suc_split)

subsection \<open>Characters and numbers\<close>

definition code :: "char \<Rightarrow> nat" where
  "code c = of_char c"

definition tolower_char :: "char \<Rightarrow> char" where
  "tolower_char c = (if 65 \<le> code c \<and> code c \<le> 90 then char_of (code c + 32) else c)"

definition isdigit :: "char \<Rightarrow> bool" where
  "isdigit c \<longleftrightarrow> 48 \<le> code c \<and> code c \<le> 57"

definition isspace_char :: "char \<Rightarrow> bool" where
  "isspace_char c \<longleftrightarrow> code c = 32 \<or> (9 \<le> code c \<and> code c \<le> 13)"

definition digits_value :: "string \<Rightarrow> nat" where
  "digits_value s = foldl (\<lambda>v c. 10 * v + (code c - 48)) 0 s"

definition ULONG_MAX :: nat where
  "ULONG_MAX = 2 ^ 64 - 1"

definition stoul :: "string \<Rightarrow> nat outcome" where
  "stoul s =
     (let t = dropWhile isspace_char s;
          neg = (t \<noteq> [] \<and> hd t = CHR ''-'');
          u = (if t \<noteq> [] \<and> (hd t = CHR ''-'' \<or> hd t = CHR ''+'') then tl t else t);
          ds = takeWhile isdigit u; v = digits_value ds in
      if ds = [] then Inl (Throw ''std::invalid_argument'')
      else if v > ULONG_MAX then Inl (Throw ''std::out_of_range'')
      else Inr (if neg then (2 ^ 64 - v) mod 2 ^ 64 else v))"

fun to_string :: "nat \<Rightarrow> string" where
  "to_string n = (if n < 10 then [char_of (48 + n)] else to_string (n div 10) @ [char_of (48 + n mod 10)])"

declare to_string.simps [simp del]

lemma code_char_of [simp]: "n < 256 \<Longrightarrow> code (char_of n) = n"
  by (simp add: code_def)

lemma code_lt: "code c < 256"
  by (simp add: code_def of_char_def)

lemma digits_value_snoc: "digits_value (s @ [c]) = 10 * digits_value s + (code c - 48)"
  by (simp add: digits_value_def)

lemma digits_value_to_string: "digits_value (to_string n) = n \<and> (\<forall>c \<in> set (to_string n). isdigit c) \<and> to_string n \<noteq> []"
proof (induction n rule: to_string.induct)
  case (1 n)
  show ?case
  proof (cases "n < 10")
    case True
    then show ?thesis by (simp add: to_string.simps[of n] digits_value_def isdigit_def)
  next
    case False
    then show ?thesis
      using 1 by (auto simp: to_string.simps[of n] digits_value_snoc isdigit_def)
  qed
qed

lemma digit_not_sign_space:
  "isdigit c \<Longrightarrow> \<not> isspace_char c \<and> c \<noteq> CHR ''-'' \<and> c \<noteq> CHR ''+''"
  by (auto simp: isdigit_def isspace_char_def code_def)

lemma stoul_digits:
  assumes "\<forall>c \<in> set s. isdigit c" and "s \<noteq> []"
  shows "stoul s = (if digits_value s > ULONG_MAX then Inl (Throw ''std::out_of_range'')
                    else Inr (digits_value s))"
proof -
  obtain c cs where s: "s = c # cs" using assms(2) by (cases s) auto
  then have "isdigit c" using assms(1) by simp
  then show ?thesis
    using assms s digit_not_sign_space[of c] by (simp add: stoul_def Let_def takeWhile_eq_all_conv[THEN iffD2])
qed

lemma stoul_to_string: "n \<le> ULONG_MAX \<Longrightarrow> stoul (to_string n) = Inr n"
  using digits_value_to_string[of n] by (simp add: stoul_digits)

end
