(* ===== verification/HttpProcess.thy ===== *)
theory HttpProcess
  imports Buffer CppString
begin

section \<open>HttpProcess: the incremental HTTP request parser\<close>

text \<open>
  Models \<open>class HttpProcess\<close> of include/HttpProcess.h and src/server/HttpProcess.cpp: the two
  parser states, the request line and header rules, the limits on line length and number of
  headers, and the two response builders. The parser works on a \<open>buffer\<close> as the code does;
  \<open>parse_str\<close> further down is its specification on plain strings.
\<close>

subsection \<open>State\<close>

datatype ParseResult = kNeedMore | kComplete | kError | kLineTooLong

record HttpRequest =
  rq_method :: string
  rq_path :: string
  rq_version :: string
  rq_host :: string
  rq_keepAlive :: bool

definition HttpRequest_new :: HttpRequest where
  "HttpRequest_new = \<lparr>rq_method = [], rq_path = [], rq_version = [], rq_host = [], rq_keepAlive = True\<rparr>"

datatype PState = kExpectRequestLine | kExpectHeaders

record http =
  hp_state :: PState
  hp_current :: HttpRequest
  hp_contentLength :: nat
  hp_headerLineCount :: nat

definition HttpProcess_new :: http where
  "HttpProcess_new = \<lparr>hp_state = kExpectRequestLine, hp_current = HttpRequest_new,
     hp_contentLength = 0, hp_headerLineCount = 0\<rparr>"

definition kMaxLineLen :: nat where
  "kMaxLineLen = 8192"

subsection \<open>One line\<close>

text \<open>
  \<open>retrieveLine\<close> answers its return value, the \<open>lineTooLong\<close> flag, the line and the buffer; a
  line that is too long stays in the buffer.
\<close>

definition retrieveLine :: "buffer \<Rightarrow> (bool \<times> bool \<times> string \<times> buffer) outcome" where
  "retrieveLine b =
     (case findCRLF b of
        None \<Rightarrow> Inr (False, False, [], b)
      | Some crlf \<Rightarrow>
          if crlf > kMaxLineLen then Inr (True, True, [], b)
          else ebind (retrieve (crlf + 2) b) (\<lambda>b'. Inr (True, False, take crlf (peek b), b')))"

definition toLower :: "string \<Rightarrow> string" where
  "toLower s = map tolower_char s"

definition isHttpVersion :: "string \<Rightarrow> bool" where
  "isHttpVersion v \<longleftrightarrow> v = ''HTTP/1.1'' \<or> v = ''HTTP/1.0''"

definition splitThree :: "string \<Rightarrow> (string \<times> string \<times> string) option" where
  "splitThree line =
     (case find_char line SP 0 of
        None \<Rightarrow> None
      | Some p1 \<Rightarrow>
          (case find_char line SP (p1 + 1) of
             None \<Rightarrow> None
           | Some p2 \<Rightarrow>
               if find_char line SP (p2 + 1) \<noteq> None then None
               else Some (substr line 0 p1, substr line (p1 + 1) (p2 - p1 - 1), drop (p2 + 1) line)))"

definition parseRequestLine :: "string \<Rightarrow> HttpRequest \<Rightarrow> HttpRequest option" where
  "parseRequestLine line out =
     (case splitThree line of
        None \<Rightarrow> None
      | Some (method, path, version) \<Rightarrow>
          if method \<noteq> ''GET'' then None
          else if path = [] \<or> path ! 0 \<noteq> CHR ''/'' then None
          else if \<not> isHttpVersion version then None
          else
            let out' = out\<lparr>rq_method := method, rq_path := path, rq_version := version\<rparr> in
            Some (if version = ''HTTP/1.0'' then out'\<lparr>rq_keepAlive := False\<rparr> else out'))"

definition updateKeepAlive :: "HttpRequest \<Rightarrow> string \<Rightarrow> HttpRequest" where
  "updateKeepAlive req connValue =
     (let v = toLower connValue in
      if find_str v ''close'' 0 \<noteq> None then req\<lparr>rq_keepAlive := False\<rparr>
      else if find_str v ''keep-alive'' 0 \<noteq> None then req\<lparr>rq_keepAlive := True\<rparr>
      else req)"

text \<open>
  \<open>parseHeaderLine\<close>: \<open>None\<close> for the result \<open>false\<close>, otherwise the updated request and content
  length. The only throw is \<open>std::stoul\<close> on a run of digits that does not fit.
\<close>

definition parseHeaderLine ::
  "string \<Rightarrow> HttpRequest \<Rightarrow> nat \<Rightarrow> (HttpRequest \<times> nat) option outcome" where
  "parseHeaderLine line req contentLength =
     (case find_char line (CHR '':'') 0 of
        None \<Rightarrow> Inr None
      | Some colon \<Rightarrow>
          let key = toLower (substr line 0 colon);
              value = dropWhile (\<lambda>c. c = SP) (drop (colon + 1) line) in
          if key = ''host'' then Inr (Some (req\<lparr>rq_host := value\<rparr>, contentLength))
          else if key = ''connection'' then Inr (Some (updateKeepAlive req value, contentLength))
          else if key = ''content-length'' then
            if value = [] then Inr None
            else if \<not> list_all isdigit value then Inr None
            else ebind (stoul value) (\<lambda>n. Inr (Some (req, n)))
          else Inr (Some (req, contentLength)))"

subsection \<open>The parser\<close>

lemma retrieveLine_shrinks:
  "retrieveLine b = Inr (True, False, line, b') \<Longrightarrow> readable b' < readable b"
  by (auto simp: retrieveLine_def ebind_eq_Inr retrieve_def consume_def readable_def Let_def
      split: option.splits if_splits)

function parse_headers :: "http \<Rightarrow> buffer \<Rightarrow> (ParseResult \<times> http \<times> buffer) outcome" where
  "parse_headers h b =
     (case retrieveLine b of
        Inl e \<Rightarrow> Inl e
      | Inr (got, tooLong, line, b') \<Rightarrow>
          if \<not> got then Inr (kNeedMore, h, b')
          else if tooLong then Inr (kLineTooLong, h, b')
          else if line = [] then
            (if hp_contentLength h > 0 then Inr (kError, h, b')
             else Inr (kComplete, h\<lparr>hp_state := kExpectRequestLine\<rparr>, b'))
          else
            let h1 = h\<lparr>hp_headerLineCount := hp_headerLineCount h + 1\<rparr> in
            if hp_headerLineCount h1 > 100 then Inr (kLineTooLong, h1, b')
            else
              (case parseHeaderLine line (hp_current h1) (hp_contentLength h1) of
                 Inl e \<Rightarrow> Inl e
               | Inr None \<Rightarrow> Inr (kError, h1, b')
               | Inr (Some (req, len)) \<Rightarrow>
                   parse_headers (h1\<lparr>hp_current := req, hp_contentLength := len\<rparr>) b'))"
  by pat_completeness auto
termination
  by (relation "measure (\<lambda>(h, b). readable b)") (auto dest: retrieveLine_shrinks)

declare parse_headers.simps [simp del]

definition parse :: "http \<Rightarrow> buffer \<Rightarrow> (ParseResult \<times> http \<times> buffer) outcome" where
  "parse h b =
     (if hp_state h = kExpectRequestLine then
        (case retrieveLine b of
           Inl e \<Rightarrow> Inl e
         | Inr (got, tooLong, line, b') \<Rightarrow>
             if \<not> got then Inr (kNeedMore, h, b')
             else if tooLong then Inr (kLineTooLong, h, b')
             else
               (case parseRequestLine line (hp_current h) of
                  None \<Rightarrow> Inr (kError, h, b')
                | Some req \<Rightarrow>
                    parse_headers
                      (h\<lparr>hp_current := req, hp_contentLength := 0, hp_headerLineCount := 0,
                         hp_state := kExpectHeaders\<rparr>) b'))
      else parse_headers h b)"

text \<open>\<open>releaseRequest\<close> hands the request out and leaves a fresh parser; \<open>reset\<close> only clears.\<close>

definition releaseRequest :: "http \<Rightarrow> HttpRequest \<times> http" where
  "releaseRequest h =
     (hp_current h,
      h\<lparr>hp_current := HttpRequest_new, hp_contentLength := 0, hp_headerLineCount := 0,
        hp_state := kExpectRequestLine\<rparr>)"

definition reset :: "http \<Rightarrow> http" where
  "reset h =
     h\<lparr>hp_current := HttpRequest_new, hp_contentLength := 0, hp_headerLineCount := 0,
       hp_state := kExpectRequestLine\<rparr>"

subsection \<open>Responses\<close>

definition kBody :: string where
  "kBody = ''Hello, World!''"

definition kBodyLen :: nat where
  "kBodyLen = 13"

definition buildResponse :: "HttpRequest \<Rightarrow> string" where
  "buildResponse req =
     ''HTTP/1.1 200 OK'' @ CRLF @
     ''Content-Length: '' @ to_string kBodyLen @ CRLF @
     (if rq_keepAlive req then ''Connection: keep-alive'' @ CRLF else ''Connection: close'' @ CRLF) @
     CRLF @ kBody"

definition build400 :: string where
  "build400 = ''HTTP/1.1 400 Bad Request'' @ CRLF @ ''Content-Length: 0'' @ CRLF @
     ''Connection: close'' @ CRLF @ CRLF"

subsection \<open>The specification on strings\<close>

datatype line_result = NoLine | LongLine | Line string string

definition line_str :: "string \<Rightarrow> line_result" where
  "line_str s =
     (case find_crlf s of
        None \<Rightarrow> NoLine
      | Some i \<Rightarrow> if i > kMaxLineLen then LongLine else Line (take i s) (drop (i + 2) s))"

lemma line_str_Line:
  "line_str s = Line l r \<Longrightarrow> length r + 2 \<le> length s \<and> length l \<le> kMaxLineLen"
  by (auto simp: line_str_def dest: find_crlf_bound split: option.splits if_splits)

text \<open>What one header line does to the parser.\<close>

datatype hstep = Stop ParseResult http | Fault fault | Continue http

definition header_step :: "http \<Rightarrow> string \<Rightarrow> hstep" where
  "header_step h line =
     (if line = [] then
        (if hp_contentLength h > 0 then Stop kError h
         else Stop kComplete (h\<lparr>hp_state := kExpectRequestLine\<rparr>))
      else
        let h1 = h\<lparr>hp_headerLineCount := hp_headerLineCount h + 1\<rparr> in
        if hp_headerLineCount h1 > 100 then Stop kLineTooLong h1
        else
          (case parseHeaderLine line (hp_current h1) (hp_contentLength h1) of
             Inl e \<Rightarrow> Fault e
           | Inr None \<Rightarrow> Stop kError h1
           | Inr (Some (req, len)) \<Rightarrow> Continue (h1\<lparr>hp_current := req, hp_contentLength := len\<rparr>)))"

function headers_str :: "http \<Rightarrow> string \<Rightarrow> (ParseResult \<times> http \<times> string) outcome" where
  "headers_str h s =
     (case line_str s of
        NoLine \<Rightarrow> Inr (kNeedMore, h, s)
      | LongLine \<Rightarrow> Inr (kLineTooLong, h, s)
      | Line l r \<Rightarrow>
          (case header_step h l of
             Stop p h' \<Rightarrow> Inr (p, h', r)
           | Fault e \<Rightarrow> Inl e
           | Continue h' \<Rightarrow> headers_str h' r))"
  by pat_completeness auto
termination
  by (relation "measure (\<lambda>(h, s). length s)") (auto dest: line_str_Line)

declare headers_str.simps [simp del]

definition start_headers :: "http \<Rightarrow> HttpRequest \<Rightarrow> http" where
  "start_headers h req =
     h\<lparr>hp_current := req, hp_contentLength := 0, hp_headerLineCount := 0, hp_state := kExpectHeaders\<rparr>"

definition parse_str :: "http \<Rightarrow> string \<Rightarrow> (ParseResult \<times> http \<times> string) outcome" where
  "parse_str h s =
     (if hp_state h = kExpectRequestLine then
        (case line_str s of
           NoLine \<Rightarrow> Inr (kNeedMore, h, s)
         | LongLine \<Rightarrow> Inr (kLineTooLong, h, s)
         | Line l r \<Rightarrow>
             (case parseRequestLine l (hp_current h) of
                None \<Rightarrow> Inr (kError, h, r)
              | Some req \<Rightarrow> headers_str (start_headers h req) r))
      else headers_str h s)"

subsection \<open>The parser on buffers refines the parser on strings\<close>

definition abs_out :: "(ParseResult \<times> http \<times> buffer) outcome \<Rightarrow> (ParseResult \<times> http \<times> string) outcome" where
  "abs_out x = (case x of Inl e \<Rightarrow> Inl e | Inr (r, h, b) \<Rightarrow> Inr (r, h, peek b))"

definition out_inv :: "(ParseResult \<times> http \<times> buffer) outcome \<Rightarrow> bool" where
  "out_inv x \<longleftrightarrow> (case x of Inl e \<Rightarrow> True | Inr (r, h, b) \<Rightarrow> buffer_inv b)"

lemma abs_out_simps [simp]:
  "abs_out (Inl e) = Inl e"
  "abs_out (Inr (r, h, b)) = Inr (r, h, peek b)"
  "out_inv (Inl e)"
  "out_inv (Inr (r, h, b)) = buffer_inv b"
  by (simp_all add: abs_out_def out_inv_def)

lemma abs_out_eq_Inr: "abs_out x = Inr (r, h, s) \<longleftrightarrow> (\<exists>b. x = Inr (r, h, b) \<and> peek b = s)"
  by (cases x) (auto simp: abs_out_def)

lemma abs_out_eq_Inl: "abs_out x = Inl e \<longleftrightarrow> x = Inl e"
  by (cases x) (auto simp: abs_out_def)

lemma retrieveLine_NoLine:
  "buffer_inv b \<Longrightarrow> line_str (peek b) = NoLine \<Longrightarrow> retrieveLine b = Inr (False, False, [], b)"
  by (auto simp: retrieveLine_def line_str_def findCRLF_peek split: option.splits if_splits)

lemma retrieveLine_LongLine:
  "buffer_inv b \<Longrightarrow> line_str (peek b) = LongLine \<Longrightarrow> retrieveLine b = Inr (True, True, [], b)"
  by (auto simp: retrieveLine_def line_str_def findCRLF_peek split: option.splits if_splits)

lemma retrieveLine_Line:
  assumes "buffer_inv b" and "line_str (peek b) = Line l r"
  obtains b' where "retrieveLine b = Inr (True, False, l, b')" "buffer_inv b'" "peek b' = r"
proof -
  obtain i where i: "find_crlf (peek b) = Some i" "\<not> i > kMaxLineLen"
      "l = take i (peek b)" "r = drop (i + 2) (peek b)"
    using assms(2) by (auto simp: line_str_def split: option.splits if_splits)
  have "i + 2 \<le> readable b"
    using find_crlf_bound[OF i(1)] assms(1) by simp
  then show ?thesis
    using that[of "consume (i + 2) b"] i assms(1)
    by (simp add: retrieveLine_def findCRLF_peek retrieve_ok consume_props)
qed

lemma parse_headers_step:
  "parse_headers h b =
     (case retrieveLine b of
        Inl e \<Rightarrow> Inl e
      | Inr (got, tooLong, line, b') \<Rightarrow>
          if \<not> got then Inr (kNeedMore, h, b')
          else if tooLong then Inr (kLineTooLong, h, b')
          else (case header_step h line of
                  Stop p h' \<Rightarrow> Inr (p, h', b')
                | Fault e \<Rightarrow> Inl e
                | Continue h' \<Rightarrow> parse_headers h' b'))"
  by (subst parse_headers.simps)
    (auto simp: header_step_def Let_def split: sum.splits option.splits)

lemma parse_headers_refines:
  "buffer_inv b \<Longrightarrow> abs_out (parse_headers h b) = headers_str h (peek b) \<and> out_inv (parse_headers h b)"
proof (induction h "peek b" arbitrary: b rule: headers_str.induct)
  case (1 h)
  show ?case
  proof (cases "line_str (peek b)")
    case (Line l r)
    from 1(2) Line
    obtain b' where b': "retrieveLine b = Inr (True, False, l, b')" "buffer_inv b'" "peek b' = r"
      by (rule retrieveLine_Line)
    show ?thesis
    proof (cases "header_step h l")
      case (Continue h')
      with Line b' 1 show ?thesis
        by (simp add: headers_str.simps[of h "peek b"] parse_headers_step[of h b])
    qed (use Line b' 1 in \<open>simp_all add: headers_str.simps[of h "peek b"] parse_headers_step[of h b]\<close>)
  qed (use 1(2) in \<open>simp_all add: headers_str.simps[of h "peek b"] parse_headers_step[of h b]
        retrieveLine_NoLine retrieveLine_LongLine\<close>)
qed

lemma parse_refines:
  assumes "buffer_inv b"
  shows "abs_out (parse h b) = parse_str h (peek b) \<and> out_inv (parse h b)"
proof (cases "hp_state h")
  case kExpectRequestLine
  show ?thesis
  proof (cases "line_str (peek b)")
    case (Line l r)
    from assms Line
    obtain b' where "retrieveLine b = Inr (True, False, l, b')" "buffer_inv b'" "peek b' = r"
      by (rule retrieveLine_Line)
    then show ?thesis
      using Line kExpectRequestLine parse_headers_refines[of b']
      by (auto simp: parse_def parse_str_def start_headers_def split: option.split)
  qed (use assms kExpectRequestLine in
        \<open>simp_all add: parse_def parse_str_def retrieveLine_NoLine retrieveLine_LongLine\<close>)
next
  case kExpectHeaders
  then show ?thesis
    using parse_headers_refines[OF assms] by (simp add: parse_def parse_str_def)
qed

subsection \<open>Half packets and glued packets\<close>

text \<open>
  More input changes nothing about what has been parsed: a finished parse ignores what follows
  it, and an unfinished one, resumed with more bytes, does what it would have done on all of
  them.
\<close>

lemma line_str_append: "line_str s = Line l r \<Longrightarrow> line_str (s @ t) = Line l (r @ t)"
  by (auto simp: line_str_def find_crlf_append dest: find_crlf_bound split: option.splits if_splits)

lemma line_str_append_long: "line_str s = LongLine \<Longrightarrow> line_str (s @ t) = LongLine"
  by (auto simp: line_str_def find_crlf_append split: option.splits if_splits)

lemma header_step_not_NeedMore: "header_step h l \<noteq> Stop kNeedMore h'"
  by (auto simp: header_step_def Let_def split: sum.splits option.splits)

lemma header_step_state: "header_step h l = Continue h' \<Longrightarrow> hp_state h' = hp_state h"
  by (auto simp: header_step_def Let_def split: if_splits sum.splits option.splits)

lemma headers_str_resume:
  "headers_str h s = Inr (kNeedMore, h', s') \<Longrightarrow>
   headers_str h (s @ t) = headers_str h' (s' @ t) \<and> hp_state h' = hp_state h"
proof (induction h s rule: headers_str.induct)
  case (1 h s)
  show ?case
  proof (cases "line_str s")
    case (Line l r)
    show ?thesis
    proof (cases "header_step h l")
      case (Stop p h1)
      with 1(2) Line header_step_not_NeedMore show ?thesis
        by (auto simp: headers_str.simps[of h s])
    next
      case (Continue h1)
      with 1(1)[OF Line Continue] 1(2) Line show ?thesis
        by (simp add: headers_str.simps[of h s] headers_str.simps[of h "s @ t"] line_str_append
            header_step_state[OF Continue])
    qed (use 1(2) Line in \<open>simp add: headers_str.simps[of h s]\<close>)
  qed (use 1(2) in \<open>simp_all add: headers_str.simps[of h s]\<close>)
qed

lemma headers_str_extend:
  "headers_str h s = Inr (p, h', s') \<Longrightarrow> p \<noteq> kNeedMore \<Longrightarrow> headers_str h (s @ t) = Inr (p, h', s' @ t)"
proof (induction h s rule: headers_str.induct)
  case (1 h s)
  show ?case
  proof (cases "line_str s")
    case (Line l r)
    show ?thesis
    proof (cases "header_step h l")
      case (Continue h1)
      with 1(1)[OF Line Continue] 1(2,3) Line show ?thesis
        by (simp add: headers_str.simps[of h s] headers_str.simps[of h "s @ t"] line_str_append)
    qed (use 1(2) Line in \<open>simp_all add: headers_str.simps[of h s] headers_str.simps[of h "s @ t"] line_str_append\<close>)
  next
    case LongLine
    with 1(2) have "p = kLineTooLong" "h' = h" "s' = s"
      by (simp_all add: headers_str.simps[of h s])
    with LongLine show ?thesis
      by (simp add: headers_str.simps[of h "s @ t"] line_str_append_long)
  qed (use 1(2,3) in \<open>simp add: headers_str.simps[of h s]\<close>)
qed

lemma headers_str_fault: "headers_str h s = Inl e \<Longrightarrow> headers_str h (s @ t) = Inl e"
proof (induction h s rule: headers_str.induct)
  case (1 h s)
  show ?case
  proof (cases "line_str s")
    case (Line l r)
    show ?thesis
    proof (cases "header_step h l")
      case (Continue h1)
      with 1(1)[OF Line Continue] 1(2) Line show ?thesis
        by (simp add: headers_str.simps[of h s] headers_str.simps[of h "s @ t"] line_str_append)
    qed (use 1(2) Line in \<open>simp_all add: headers_str.simps[of h s] headers_str.simps[of h "s @ t"] line_str_append\<close>)
  qed (use 1(2) in \<open>simp_all add: headers_str.simps[of h s]\<close>)
qed

lemma start_headers_state [simp]: "hp_state (start_headers h req) = kExpectHeaders"
  by (simp add: start_headers_def)

lemma parse_str_resume:
  assumes "parse_str h s = Inr (kNeedMore, h', s')"
  shows "parse_str h (s @ t) = parse_str h' (s' @ t)"
proof (cases "hp_state h")
  case kExpectRequestLine
  show ?thesis
  proof (cases "line_str s")
    case (Line l r)
    with assms kExpectRequestLine obtain req where
      req: "parseRequestLine l (hp_current h) = Some req"
        "headers_str (start_headers h req) r = Inr (kNeedMore, h', s')"
      by (auto simp: parse_str_def split: option.splits)
    from headers_str_resume[OF req(2), of t] show ?thesis
      using Line kExpectRequestLine req(1) by (simp add: parse_str_def line_str_append)
  qed (use assms kExpectRequestLine in \<open>simp_all add: parse_str_def\<close>)
next
  case kExpectHeaders
  then show ?thesis
    using assms headers_str_resume[of h s h' s' t] by (simp add: parse_str_def)
qed

lemma parse_str_extend:
  assumes "parse_str h s = Inr (p, h', s')" and "p \<noteq> kNeedMore"
  shows "parse_str h (s @ t) = Inr (p, h', s' @ t)"
  using assms
  by (auto simp: parse_str_def line_str_append line_str_append_long headers_str_extend
      split: if_splits line_result.splits option.splits)

lemma parse_str_fault: "parse_str h s = Inl e \<Longrightarrow> parse_str h (s @ t) = Inl e"
  by (auto simp: parse_str_def line_str_append line_str_append_long headers_str_fault
      split: if_splits line_result.splits option.splits)

text \<open>
  \<open>feed\<close> is the life of the parser between two requests: a chunk arrives in the read buffer,
  \<open>parse\<close> runs, and when it answers \<open>kNeedMore\<close> the next chunk is awaited.
\<close>

fun feed :: "http \<Rightarrow> buffer \<Rightarrow> string list \<Rightarrow> (ParseResult \<times> http \<times> buffer) outcome" where
  "feed h b [] = Inr (kNeedMore, h, b)"
| "feed h b (c # cs) =
     (case parse h (sckToBuffer_store c b) of
        Inl e \<Rightarrow> Inl e
      | Inr (r, h', b') \<Rightarrow>
          if r = kNeedMore then feed h' b' cs
          else Inr (r, h', fold sckToBuffer_store cs b'))"

lemma fold_store_props:
  "buffer_inv b \<Longrightarrow> buffer_inv (fold sckToBuffer_store cs b) \<and>
     peek (fold sckToBuffer_store cs b) = peek b @ concat cs"
  by (induction cs arbitrary: b) (simp_all add: sckToBuffer_store_props)

lemma feed_parse_str:
  assumes "buffer_inv b" and "cs \<noteq> []"
  shows "abs_out (feed h b cs) = parse_str h (peek b @ concat cs)"
  using assms
proof (induction cs arbitrary: h b)
  case (Cons c cs)
  let ?b = "sckToBuffer_store c b"
  have b: "buffer_inv ?b" "peek ?b = peek b @ c"
    using Cons.prems(1) by (simp_all add: sckToBuffer_store_props)
  have ref: "abs_out (parse h ?b) = parse_str h (peek b @ c)" "out_inv (parse h ?b)"
    using parse_refines[OF b(1), of h] b(2) by simp_all
  show ?case
  proof (cases "parse h ?b")
    case (Inl e)
    then show ?thesis
      using ref parse_str_fault[of h "peek b @ c" e "concat cs"] by simp
  next
    case (Inr x)
    obtain r h' b' where x: "x = (r, h', b')" by (cases x)
    have b': "parse_str h (peek b @ c) = Inr (r, h', peek b')" "buffer_inv b'"
      using ref Inr x by simp_all
    show ?thesis
    proof (cases "r = kNeedMore")
      case True
      have "parse_str h ((peek b @ c) @ concat cs) = parse_str h' (peek b' @ concat cs)"
        using parse_str_resume b'(1) True by blast
      moreover have "abs_out (feed h' b' cs) = parse_str h' (peek b' @ concat cs)"
      proof (cases cs)
        case Nil
        then show ?thesis
          using parse_str_resume[of h "peek b @ c" h' "peek b'" "[]"] b'(1) True by simp
      next
        case Cons
        then show ?thesis using Cons.IH[OF b'(2), of h'] by simp
      qed
      ultimately show ?thesis
        using Inr x True by simp
    next
      case False
      then show ?thesis
        using Inr x parse_str_extend[OF b'(1) False, of "concat cs"] fold_store_props[OF b'(2), of cs]
        by simp
    qed
  qed
qed simp

subsection \<open>The request line\<close>

lemma find_char_0: "find_char s c 0 = char_index c s"
proof -
  have "(+) (0::nat) = (\<lambda>n. n)" by auto
  then show ?thesis by (simp only: find_char_def drop_0 option.map_ident)
qed

lemma splitThree_render:
  assumes "SP \<notin> set a" "SP \<notin> set b" "SP \<notin> set c"
  shows "splitThree (a @ SP # b @ SP # c) = Some (a, b, c)"
proof -
  let ?l = "a @ SP # b @ SP # c"
  have 1: "find_char ?l SP 0 = Some (length a)"
    using assms(1) by (simp add: find_char_0 char_index_append)
  have 2: "find_char ?l SP (length a + 1) = Some (length a + 1 + length b)"
    using assms(2) by (simp add: find_char_def char_index_append)
  have 3: "find_char ?l SP (length a + 1 + length b + 1) = None"
    using assms(3) by (simp add: find_char_def)
  show ?thesis
    using 1 2 3 by (simp add: splitThree_def substr_def)
qed

lemma splitThree_parts:
  assumes "splitThree line = Some (a, b, c)"
  shows "line = a @ SP # b @ SP # c \<and> SP \<notin> set a \<and> SP \<notin> set b \<and> SP \<notin> set c"
proof -
  obtain p1 p2 where p1: "char_index SP line = Some p1"
    and p2: "find_char line SP (p1 + 1) = Some p2" and p3: "find_char line SP (p2 + 1) = None"
    and abc: "a = substr line 0 p1" "b = substr line (p1 + 1) (p2 - p1 - 1)" "c = drop (p2 + 1) line"
    using assms by (auto simp: splitThree_def find_char_0 split: option.splits if_splits)
  let ?r = "drop (Suc p1) line"
  obtain k where k: "char_index SP ?r = Some k" "p2 = Suc p1 + k"
    using p2 by (auto simp: find_char_def)
  have a: "line = a @ SP # ?r" "SP \<notin> set a"
    using char_index_split[OF p1] abc(1) by (simp_all add: substr_def)
  have c: "drop (Suc k) ?r = c" "SP \<notin> set c"
    using abc(3) k(2) p3 by (simp_all add: find_char_def add.commute)
  have "?r = b @ SP # c" "SP \<notin> set b"
    using char_index_split[OF k(1)] abc(2) k(2) unfolding c(1) by (simp_all add: substr_def)
  then show ?thesis
    using a c(2) by simp
qed

lemma splitThree_iff:
  "splitThree line = Some (a, b, c) \<longleftrightarrow>
     line = a @ SP # b @ SP # c \<and> SP \<notin> set a \<and> SP \<notin> set b \<and> SP \<notin> set c"
  using splitThree_parts splitThree_render by blast

definition request_ok :: "HttpRequest \<Rightarrow> bool" where
  "request_ok r \<longleftrightarrow>
     rq_method r = ''GET'' \<and> rq_path r \<noteq> [] \<and> hd (rq_path r) = CHR ''/'' \<and> SP \<notin> set (rq_path r) \<and>
     (rq_version r = ''HTTP/1.1'' \<or> rq_version r = ''HTTP/1.0'')"

lemma parseRequestLine_ok: "parseRequestLine line out = Some req \<Longrightarrow> request_ok req"
  by (auto simp: parseRequestLine_def request_ok_def isHttpVersion_def splitThree_iff hd_conv_nth Let_def
      split: option.splits if_splits)

lemma parseRequestLine_iff:
  "parseRequestLine line out = Some req \<longleftrightarrow>
   (\<exists>path version. line = ''GET '' @ path @ SP # version \<and> SP \<notin> set path \<and>
      path \<noteq> [] \<and> hd path = CHR ''/'' \<and> isHttpVersion version \<and>
      req = out\<lparr>rq_method := ''GET'', rq_path := path, rq_version := version,
                rq_keepAlive := rq_keepAlive out \<and> version \<noteq> ''HTTP/1.0''\<rparr>)"
    (is "?L \<longleftrightarrow> ?R")
proof
  assume ?L
  then obtain m p v where "splitThree line = Some (m, p, v)" "m = ''GET''" "p \<noteq> []"
      "p ! 0 = CHR ''/''" "isHttpVersion v"
      "req = (let out' = out\<lparr>rq_method := m, rq_path := p, rq_version := v\<rparr> in
              if v = ''HTTP/1.0'' then out'\<lparr>rq_keepAlive := False\<rparr> else out')"
    by (auto simp: parseRequestLine_def Let_def split: option.splits if_splits)
  then show ?R
    by (intro exI[of _ p] exI[of _ v]) (auto simp: splitThree_iff hd_conv_nth Let_def)
next
  assume ?R
  then obtain p v where pv: "line = ''GET'' @ SP # p @ SP # v" "SP \<notin> set p"
      "p \<noteq> []" "hd p = CHR ''/''" "isHttpVersion v"
      "req = out\<lparr>rq_method := ''GET'', rq_path := p, rq_version := v,
                rq_keepAlive := rq_keepAlive out \<and> v \<noteq> ''HTTP/1.0''\<rparr>"
    by auto
  have "SP \<notin> set v"
    using pv(5) by (auto simp: isHttpVersion_def)
  with pv have "splitThree line = Some (''GET'', p, v)"
    by (simp add: splitThree_iff)
  with pv(3-6) show ?L
    by (simp add: parseRequestLine_def Let_def hd_conv_nth)
qed

subsection \<open>Headers\<close>

lemma parseHeaderLine_request:
  "parseHeaderLine l req n = Inr (Some (req', n')) \<Longrightarrow>
     rq_method req' = rq_method req \<and> rq_path req' = rq_path req \<and> rq_version req' = rq_version req"
  by (auto simp: parseHeaderLine_def updateKeepAlive_def Let_def ebind_eq_Inr
      split: option.splits if_splits)

lemma header_step_request_ok:
  "header_step h l = Continue h' \<Longrightarrow> request_ok (hp_current h) \<Longrightarrow> request_ok (hp_current h')"
  by (auto simp: header_step_def Let_def request_ok_def dest: parseHeaderLine_request
      split: if_splits sum.splits option.splits)

lemma header_step_count:
  "header_step h l = Continue h' \<Longrightarrow>
     hp_headerLineCount h' = Suc (hp_headerLineCount h) \<and> hp_headerLineCount h' \<le> 100"
  by (auto simp: header_step_def Let_def split: if_splits sum.splits option.splits)

lemma header_step_complete:
  "header_step h l = Stop kComplete h' \<longleftrightarrow>
     l = [] \<and> hp_contentLength h = 0 \<and> h' = h\<lparr>hp_state := kExpectRequestLine\<rparr>"
  by (auto simp: header_step_def Let_def split: sum.splits option.splits)

lemma stoul_fault:
  assumes "stoul s = Inl e" and "list_all isdigit s" and "s \<noteq> []"
  shows "e = Throw ''std::out_of_range'' \<and> ULONG_MAX < digits_value s"
  using assms stoul_digits[of s] by (auto simp: list_all_iff split: if_splits)

lemma header_step_fault: "header_step h l = Fault e \<Longrightarrow> e = Throw ''std::out_of_range''"
  by (auto simp: header_step_def parseHeaderLine_def Let_def ebind_eq_Inl
      dest: stoul_fault split: if_splits sum.splits option.splits)

subsection \<open>The invariant of the parser\<close>

text \<open>
  Between calls: while headers are expected, the stored request came from a valid request
  line, and at most 100 header lines have been counted.
\<close>

definition http_inv :: "http \<Rightarrow> bool" where
  "http_inv h \<longleftrightarrow>
     (hp_state h = kExpectHeaders \<longrightarrow> request_ok (hp_current h) \<and> hp_headerLineCount h \<le> 100)"

lemma http_inv_new [simp]: "http_inv HttpProcess_new"
  by (simp add: http_inv_def HttpProcess_new_def)

lemma http_inv_reset [simp]: "http_inv (reset h)"
  by (simp add: http_inv_def reset_def)

lemma http_inv_release [simp]: "http_inv (snd (releaseRequest h))"
  by (simp add: http_inv_def releaseRequest_def)

lemma headers_str_result:
  assumes "headers_str h s = Inr (p, h', s')"
    and "request_ok (hp_current h)" "hp_headerLineCount h \<le> 100" "hp_state h = kExpectHeaders"
  shows "(p = kNeedMore \<longrightarrow> http_inv h') \<and>
     (p = kComplete \<longrightarrow> hp_state h' = kExpectRequestLine \<and> request_ok (hp_current h') \<and>
        hp_contentLength h' = 0 \<and> hp_headerLineCount h' \<le> 100 \<and> length s' < length s)"
  using assms
proof (induction h s rule: headers_str.induct)
  case (1 h s)
  show ?case
  proof (cases "line_str s")
    case (Line l r)
    note len = line_str_Line[OF Line]
    show ?thesis
    proof (cases "header_step h l")
      case (Stop q h1)
      then have "q = p" "h1 = h'" "r = s'"
        using 1(2) Line by (simp_all add: headers_str.simps[of h s])
      then show ?thesis
        using Stop 1(3-5) len header_step_not_NeedMore[of h l h']
        by (auto simp: header_step_complete)
    next
      case (Continue h1)
      have "headers_str h1 r = Inr (p, h', s')"
        using 1(2) Line Continue by (simp add: headers_str.simps[of h s])
      then show ?thesis
        using 1(1)[OF Line Continue] 1(3-5) len Continue header_step_request_ok header_step_count
          header_step_state by fastforce
    qed (use 1(2) Line in \<open>simp add: headers_str.simps[of h s]\<close>)
  qed (use 1 in \<open>auto simp: headers_str.simps[of h s] http_inv_def\<close>)
qed

lemma headers_str_Inl: "headers_str h s = Inl e \<Longrightarrow> e = Throw ''std::out_of_range''"
proof (induction h s rule: headers_str.induct)
  case (1 h s)
  then show ?case
    by (subst (asm) (2) headers_str.simps)
      (auto dest: header_step_fault split: line_result.splits hstep.splits)
qed

lemma parse_str_result:
  assumes "parse_str h s = Inr (p, h', s')" and "http_inv h"
  shows "(p = kNeedMore \<longrightarrow> http_inv h') \<and>
     (p = kComplete \<longrightarrow> hp_state h' = kExpectRequestLine \<and> request_ok (hp_current h') \<and>
        hp_contentLength h' = 0 \<and> hp_headerLineCount h' \<le> 100 \<and> length s' < length s)"
proof (cases "hp_state h")
  case kExpectRequestLine
  show ?thesis
  proof (cases "line_str s")
    case (Line l r)
    show ?thesis
    proof (cases "parseRequestLine l (hp_current h)")
      case (Some req)
      then have "headers_str (start_headers h req) r = Inr (p, h', s')"
        using assms Line kExpectRequestLine by (simp add: parse_str_def)
      then show ?thesis
        using headers_str_result[of "start_headers h req" r p h' s'] parseRequestLine_ok[OF Some]
          line_str_Line[OF Line] by (auto simp: start_headers_def)
    qed (use assms Line kExpectRequestLine in \<open>auto simp: parse_str_def\<close>)
  qed (use assms kExpectRequestLine in \<open>auto simp: parse_str_def\<close>)
next
  case kExpectHeaders
  then show ?thesis
    using assms headers_str_result[of h s p h' s'] by (auto simp: parse_str_def http_inv_def)
qed

lemma parse_str_Inl: "parse_str h s = Inl e \<Longrightarrow> e = Throw ''std::out_of_range''"
  by (auto simp: parse_str_def dest: headers_str_Inl
      split: if_splits line_result.splits option.splits)

subsection \<open>Well-formed requests are accepted\<close>

fun fold_headers :: "http \<Rightarrow> string list \<Rightarrow> hstep" where
  "fold_headers h [] = Continue h"
| "fold_headers h (l # ls) =
     (case header_step h l of Continue h' \<Rightarrow> fold_headers h' ls | x \<Rightarrow> x)"

definition good_line :: "string \<Rightarrow> bool" where
  "good_line l \<longleftrightarrow> CR \<notin> set l \<and> length l \<le> kMaxLineLen"

definition render_request :: "string \<Rightarrow> string list \<Rightarrow> string" where
  "render_request rl ls = rl @ CRLF @ concat (map (\<lambda>l. l @ CRLF) ls) @ CRLF"

lemma line_str_render: "good_line l \<Longrightarrow> line_str (l @ CRLF @ r) = Line l r"
  by (simp add: line_str_def good_line_def find_crlf_line)

lemma headers_str_Line:
  "line_str s = Line l r \<Longrightarrow> headers_str h s =
     (case header_step h l of Stop p h' \<Rightarrow> Inr (p, h', r) | Fault e \<Rightarrow> Inl e | Continue h' \<Rightarrow> headers_str h' r)"
  by (simp add: headers_str.simps[of h s])

lemma headers_str_render:
  assumes "list_all (\<lambda>l. good_line l \<and> l \<noteq> []) ls" and "fold_headers h ls = Continue h'"
    and "hp_contentLength h' = 0"
  shows "headers_str h (concat (map (\<lambda>l. l @ CRLF) ls) @ CRLF @ rest) =
     Inr (kComplete, h'\<lparr>hp_state := kExpectRequestLine\<rparr>, rest)"
  using assms
proof (induction ls arbitrary: h)
  case Nil
  have "line_str ([] @ CRLF @ rest) = Line [] rest"
    by (rule line_str_render) (simp add: good_line_def)
  moreover have "h' = h" using Nil by simp
  ultimately show ?case
    using Nil(3) headers_str_Line[of "CRLF @ rest" "[]" rest h] by (simp add: header_step_def)
next
  case (Cons l ls)
  let ?t = "concat (map (\<lambda>l. l @ CRLF) ls) @ CRLF @ rest"
  have "line_str (l @ CRLF @ ?t) = Line l ?t"
    using Cons.prems by (intro line_str_render) simp
  moreover obtain h1 where h1: "header_step h l = Continue h1" "fold_headers h1 ls = Continue h'"
    using Cons.prems by (auto split: hstep.splits)
  ultimately have "headers_str h (l @ CRLF @ ?t) = headers_str h1 ?t"
    using headers_str_Line[of "l @ CRLF @ ?t" l ?t h] by simp
  moreover have "headers_str h1 ?t = Inr (kComplete, h'\<lparr>hp_state := kExpectRequestLine\<rparr>, rest)"
    using Cons.IH[of h1] Cons.prems h1 by simp
  ultimately show ?case
    by simp
qed

lemma parse_str_render:
  assumes "hp_state h = kExpectRequestLine" and "good_line rl"
    and "parseRequestLine rl (hp_current h) = Some req"
    and "list_all (\<lambda>l. good_line l \<and> l \<noteq> []) ls"
    and "fold_headers (start_headers h req) ls = Continue h'" and "hp_contentLength h' = 0"
  shows "parse_str h (render_request rl ls @ rest) =
     Inr (kComplete, h'\<lparr>hp_state := kExpectRequestLine\<rparr>, rest)"
proof -
  let ?t = "concat (map (\<lambda>l. l @ CRLF) ls) @ CRLF @ rest"
  have "render_request rl ls @ rest = rl @ CRLF @ ?t"
    by (simp add: render_request_def)
  then show ?thesis
    using assms line_str_render[OF assms(2), of ?t] headers_str_render[OF assms(4-6), of rest]
    by (simp add: parse_str_def)
qed

lemma line_str_split: "line_str s = Line l r \<Longrightarrow> s = l @ CRLF @ r"
proof -
  assume "line_str s = Line l r"
  then obtain i where i: "find_crlf s = Some i" "l = take i s" "r = drop (i + 2) s"
    by (auto simp: line_str_def split: option.splits if_splits)
  have "crlf_at s i" using find_crlf_Some[OF i(1)] by simp
  then have "drop i s = CR # LF # drop (i + 2) s"
    by (auto simp: crlf_at_def Cons_nth_drop_Suc[symmetric])
  then show "s = l @ CRLF @ r"
    using i(2,3) append_take_drop_id[of i s] by simp
qed

lemma headers_str_suffix: "headers_str h s = Inr (p, h', s') \<Longrightarrow> \<exists>u. s = u @ s'"
proof (induction h s rule: headers_str.induct)
  case (1 h s)
  show ?case
  proof (cases "line_str s")
    case (Line l r)
    have "\<exists>u. r = u @ s'"
      using 1(1)[OF Line] 1(2) headers_str_Line[OF Line, of h] by (cases "header_step h l") auto
    then show ?thesis
      using line_str_split[OF Line] by (metis append.assoc)
  qed (use 1(2) in \<open>auto simp: headers_str.simps[of h s]\<close>)
qed

lemma parse_str_suffix:
  assumes "parse_str h s = Inr (p, h', s')"
  shows "\<exists>u. s = u @ s'"
proof (cases "hp_state h = kExpectRequestLine \<and> (\<exists>l r. line_str s = Line l r)")
  case True
  then obtain l r where Line: "line_str s = Line l r" by auto
  have "\<exists>u. r = u @ s'"
    using assms True Line headers_str_suffix
    by (auto simp: parse_str_def split: option.splits)
  then show ?thesis
    using line_str_split[OF Line] by (metis append.assoc)
next
  case False
  then show ?thesis
    using assms headers_str_suffix[of h s p h' s']
    by (auto simp: parse_str_def split: if_splits line_result.splits)
qed

lemma parse_from_str:
  assumes "buffer_inv b" and "parse_str h (peek b) = Inr (p, h', s')"
  obtains b' where "parse h b = Inr (p, h', b')" "buffer_inv b'" "peek b' = s'"
  using parse_refines[OF assms(1), of h] assms(2) by (auto simp: abs_out_eq_Inr)

lemma parse_to_str:
  "buffer_inv b \<Longrightarrow> parse h b = Inr (p, h', b') \<Longrightarrow>
     parse_str h (peek b) = Inr (p, h', peek b') \<and> buffer_inv b'"
  using parse_refines[of b h] by simp

lemma parse_complete_shrinks:
  "buffer_inv b \<Longrightarrow> http_inv h \<Longrightarrow> parse h b = Inr (kComplete, h', b') \<Longrightarrow> readable b' < readable b"
  using parse_to_str[of b h kComplete h' b'] parse_str_result[of h "peek b" kComplete h' "peek b'"]
  by simp

text \<open>
  The meaning of a header field, and the fields a request without body may carry.
\<close>

definition trim_left :: "string \<Rightarrow> string" where
  "trim_left v = dropWhile (\<lambda>c. c = SP) v"

definition header_effect :: "string \<times> string \<Rightarrow> HttpRequest \<Rightarrow> HttpRequest" where
  "header_effect = (\<lambda>(k, v) r.
     if toLower k = ''host'' then r\<lparr>rq_host := trim_left v\<rparr>
     else if toLower k = ''connection'' then updateKeepAlive r (trim_left v) else r)"

definition field_ok :: "string \<times> string \<Rightarrow> bool" where
  "field_ok = (\<lambda>(k, v).
     CHR '':'' \<notin> set k \<and> good_line (k @ CHR '':'' # v) \<and>
     (toLower k = ''content-length'' \<longrightarrow>
        trim_left v \<noteq> [] \<and> list_all isdigit (trim_left v) \<and> digits_value (trim_left v) = 0))"

definition field_line :: "string \<times> string \<Rightarrow> string" where
  "field_line = (\<lambda>(k, v). k @ CHR '':'' # v)"

lemma parseHeaderLine_field:
  assumes "field_ok f"
  shows "parseHeaderLine (field_line f) req 0 = Inr (Some (header_effect f req, 0))"
proof -
  obtain k v where f: "f = (k, v)" by (cases f)
  have colon: "find_char (k @ CHR '':'' # v) (CHR '':'') 0 = Some (length k)"
    using assms f by (simp add: find_char_0 char_index_append field_ok_def)
  show ?thesis
    using assms f colon
    by (auto simp: parseHeaderLine_def field_line_def header_effect_def field_ok_def trim_left_def
        substr_def stoul_digits list_all_iff Let_def ULONG_MAX_def)
qed

lemma fold_headers_fields:
  assumes "list_all field_ok fs" and "hp_contentLength h = 0"
    and "hp_headerLineCount h + length fs \<le> 100"
  shows "\<exists>h'. fold_headers h (map field_line fs) = Continue h' \<and> hp_contentLength h' = 0 \<and>
     hp_current h' = fold header_effect fs (hp_current h)"
  using assms
proof (induction fs arbitrary: h)
  case (Cons f fs)
  let ?h = "h\<lparr>hp_headerLineCount := hp_headerLineCount h + 1, hp_current := header_effect f (hp_current h),
      hp_contentLength := 0\<rparr>"
  have "field_line f \<noteq> []"
    by (cases f) (simp add: field_line_def)
  then have "header_step h (field_line f) = Continue ?h"
    using Cons.prems parseHeaderLine_field[of f] by (simp add: header_step_def)
  then show ?case
    using Cons.IH[of ?h] Cons.prems by simp
qed simp

subsection \<open>Properties\<close>

text \<open>
  C14. Half packets and glued packets: however the kernel cuts the incoming bytes into chunks,
  calling \<open>parse\<close> after each chunk until it stops answering \<open>kNeedMore\<close> gives the same verdict,
  the same parser state and the same unread bytes as one call on all the bytes.
\<close>

theorem chunking_is_invisible:
  assumes "buffer_inv b" and "cs \<noteq> []"
  shows "abs_out (feed h b cs) = abs_out (parse h (sckToBuffer_store (concat cs) b))"
  using feed_parse_str[OF assms] parse_refines[of "sckToBuffer_store (concat cs) b" h]
    sckToBuffer_store_props[OF assms(1), of "concat cs"] by simp

theorem chunking_is_invisible_witness:
  "abs_out (feed HttpProcess_new Buffer_new [''GET / HT'', ''TP/1.1'' @ [CR], [LF, CR, LF]]) =
   abs_out (parse HttpProcess_new
     (sckToBuffer_store (concat [''GET / HT'', ''TP/1.1'' @ [CR], [LF, CR, LF]]) Buffer_new))"
  by (rule chunking_is_invisible) auto

text \<open>
  C15. Soundness of \<open>kComplete\<close>: a completed request is a GET of a path that starts with a slash
  under HTTP/1.1 or HTTP/1.0, announced no body, had at most 100 header lines, and its bytes
  (and only a proper part of the buffer) have left the buffer; the request handed out by
  \<open>releaseRequest\<close> is that one and the parser is fresh again.
\<close>

theorem parse_complete_sound:
  assumes "buffer_inv b" and "http_inv h" and "parse h b = Inr (kComplete, h', b')"
  shows "request_ok (fst (releaseRequest h')) \<and> hp_contentLength h' = 0 \<and> hp_headerLineCount h' \<le> 100 \<and>
     (\<exists>consumed. consumed \<noteq> [] \<and> peek b = consumed @ peek b') \<and> buffer_inv b' \<and>
     snd (releaseRequest h') = HttpProcess_new"
proof -
  have ps: "parse_str h (peek b) = Inr (kComplete, h', peek b')" and inv': "buffer_inv b'"
    using parse_to_str[OF assms(1,3)] by simp_all
  obtain u where u: "peek b = u @ peek b'"
    using parse_str_suffix[OF ps] by blast
  show ?thesis
    using parse_str_result[OF ps assms(2)] inv' u
    by (cases h') (auto simp: releaseRequest_def HttpProcess_new_def)
qed

definition demo_request :: string where
  "demo_request = ''GET /a HTTP/1.1'' @ CRLF @ ''Host: x'' @ CRLF @ CRLF"

theorem parse_complete_sound_witness:
  "\<exists>h' b'. parse HttpProcess_new (dataIn demo_request Buffer_new) = Inr (kComplete, h', b') \<and>
     request_ok (fst (releaseRequest h'))"
proof -
  let ?b = "dataIn demo_request Buffer_new"
  have "case parse_str HttpProcess_new demo_request of Inl e \<Rightarrow> False
      | Inr (p, h', s) \<Rightarrow> p = kComplete \<and> s = []"
    by code_simp
  then obtain h' where "parse_str HttpProcess_new (peek ?b) = Inr (kComplete, h', [])"
    by (auto split: sum.splits)
  then obtain b' where b': "parse HttpProcess_new ?b = Inr (kComplete, h', b')"
    by (rule parse_from_str[rotated]) auto
  then show ?thesis
    using parse_complete_sound[OF _ _ b'] by auto
qed

lemma parse_fields:
  fixes path version rest fs
  defines "rl \<equiv> ''GET '' @ path @ SP # version"
  assumes "buffer_inv b" and "peek b = render_request rl (map field_line fs) @ rest"
    and "path \<noteq> []" "hd path = CHR ''/''" "SP \<notin> set path" "good_line rl" "isHttpVersion version"
    and "list_all field_ok fs" "length fs \<le> 100"
  shows "\<exists>h' b'. parse HttpProcess_new b = Inr (kComplete, h', b') \<and> buffer_inv b' \<and> peek b' = rest \<and>
     fst (releaseRequest h') =
       fold header_effect fs
         \<lparr>rq_method = ''GET'', rq_path = path, rq_version = version, rq_host = [],
          rq_keepAlive = (version \<noteq> ''HTTP/1.0'')\<rparr>"
proof -
  define req where "req = \<lparr>rq_method = ''GET'', rq_path = path, rq_version = version, rq_host = [],
          rq_keepAlive = (version \<noteq> ''HTTP/1.0'')\<rparr>"
  have req: "parseRequestLine rl (hp_current HttpProcess_new) = Some req"
    unfolding parseRequestLine_iff using assms
    by (intro exI[of _ path] exI[of _ version]) (auto simp: HttpProcess_new_def HttpRequest_new_def req_def)
  obtain h1 where h1: "fold_headers (start_headers HttpProcess_new req) (map field_line fs) = Continue h1"
      "hp_contentLength h1 = 0" "hp_current h1 = fold header_effect fs req"
    using fold_headers_fields[of fs "start_headers HttpProcess_new req"] assms
    by (auto simp: start_headers_def)
  have "list_all (\<lambda>l. good_line l \<and> l \<noteq> []) (map field_line fs)"
    using assms by (auto simp: list_all_iff field_ok_def field_line_def)
  then have "parse_str HttpProcess_new (peek b) =
      Inr (kComplete, h1\<lparr>hp_state := kExpectRequestLine\<rparr>, rest)"
    unfolding assms(3) using assms(7) req h1 by (intro parse_str_render) (auto simp: HttpProcess_new_def)
  then obtain b' where "parse HttpProcess_new b = Inr (kComplete, h1\<lparr>hp_state := kExpectRequestLine\<rparr>, b')"
      "buffer_inv b'" "peek b' = rest"
    using parse_from_str[OF assms(2)] by blast
  then show ?thesis
    using h1(3) by (auto simp: releaseRequest_def req_def)
qed

text \<open>
  C16. Completeness of the parser: any GET request with a slash path, version 1.0 or 1.1, and up
  to 100 header fields (no body announced) whose lines are within the length limit is accepted
  in one call, whatever follows it in the buffer; what follows is left unread, and the request
  handed out is the request line's with the header fields applied in order.
\<close>

theorem parse_accepts:
  fixes path version rest fs
  defines "rl \<equiv> ''GET '' @ path @ SP # version"
  assumes "buffer_inv b" and "peek b = render_request rl (map field_line fs) @ rest"
    and "path \<noteq> []" "hd path = CHR ''/''" "SP \<notin> set path" "good_line rl" "isHttpVersion version"
    and "list_all field_ok fs" "length fs \<le> 100"
  shows "\<exists>h' b'. parse HttpProcess_new b = Inr (kComplete, h', b') \<and> buffer_inv b' \<and> peek b' = rest \<and>
     fst (releaseRequest h') =
       fold header_effect fs
         \<lparr>rq_method = ''GET'', rq_path = path, rq_version = version, rq_host = [],
          rq_keepAlive = (version \<noteq> ''HTTP/1.0'')\<rparr>"
  using parse_fields[OF assms(2) assms(3)[unfolded rl_def] assms(4-6) assms(7)[unfolded rl_def] assms(8-10)] .

theorem parse_accepts_witness:
  "\<exists>h' b'. parse HttpProcess_new (dataIn (render_request (''GET '' @ ''/a'' @ SP # ''HTTP/1.0'')
        (map field_line [(''Connection'', '' Keep-Alive'')]) @ ''tail'') Buffer_new) = Inr (kComplete, h', b') \<and>
     buffer_inv b' \<and> peek b' = ''tail'' \<and>
     fst (releaseRequest h') = fold header_effect [(''Connection'', '' Keep-Alive'')]
       \<lparr>rq_method = ''GET'', rq_path = ''/a'', rq_version = ''HTTP/1.0'', rq_host = [],
        rq_keepAlive = (''HTTP/1.0'' \<noteq> ''HTTP/1.0'')\<rparr>"
proof (rule parse_accepts)
  show "list_all field_ok [(''Connection'', '' Keep-Alive'')]"
    by code_simp
  show "good_line (''GET '' @ ''/a'' @ SP # ''HTTP/1.0'')"
    by code_simp
qed (auto simp: isHttpVersion_def)

text \<open>
  C35. The request line rule: a complete first line is accepted exactly when it is GET, one
  space, a path without spaces that starts with a slash, one space, HTTP/1.1 or HTTP/1.0, and
  then the headers are parsed for that request; every other line (another method, fewer or
  more parts, another version) answers \<open>kError\<close> with the parser state untouched.
\<close>

definition request_line :: "string \<Rightarrow> string \<Rightarrow> string \<Rightarrow> bool" where
  "request_line line path version \<longleftrightarrow>
     line = ''GET '' @ path @ SP # version \<and> SP \<notin> set path \<and> path \<noteq> [] \<and> hd path = CHR ''/'' \<and>
     (version = ''HTTP/1.1'' \<or> version = ''HTTP/1.0'')"

theorem request_line_rule:
  assumes "buffer_inv b" and "hp_state h = kExpectRequestLine" and "peek b = line @ CRLF @ rest"
    and "good_line line"
  shows "(\<exists>path version. request_line line path version \<and>
        abs_out (parse h b) = headers_str (start_headers h ((hp_current h)
          \<lparr>rq_method := ''GET'', rq_path := path, rq_version := version,
           rq_keepAlive := rq_keepAlive (hp_current h) \<and> version \<noteq> ''HTTP/1.0''\<rparr>)) rest) \<or>
     (\<not> (\<exists>path version. request_line line path version) \<and>
        (\<exists>b'. parse h b = Inr (kError, h, b') \<and> peek b' = rest))"
proof (cases "parseRequestLine line (hp_current h)")
  case None
  then have "\<not> request_line line path version" for path version
    using parseRequestLine_iff[of line "hp_current h"]
    by (auto simp: request_line_def isHttpVersion_def)
  moreover have "parse_str h (peek b) = Inr (kError, h, rest)"
    using None assms line_str_render[OF assms(4), of rest] by (simp add: parse_str_def)
  ultimately show ?thesis
    using parse_from_str[OF assms(1)] by blast
next
  case (Some req)
  then have "abs_out (parse h b) = headers_str (start_headers h req) rest"
    using assms line_str_render[OF assms(4), of rest] parse_refines[OF assms(1), of h]
    by (simp add: parse_str_def)
  then show ?thesis
    using Some parseRequestLine_iff[of line "hp_current h" req]
    by (auto simp: request_line_def isHttpVersion_def)
qed

theorem request_line_rule_witness:
  "\<exists>b'. parse HttpProcess_new (dataIn (''POST / HTTP/1.1'' @ CRLF @ ''x'') Buffer_new) =
        Inr (kError, HttpProcess_new, b') \<and> peek b' = ''x''"
proof -
  have "good_line ''POST / HTTP/1.1''" by code_simp
  then show ?thesis
    using request_line_rule[of "dataIn (''POST / HTTP/1.1'' @ CRLF @ ''x'') Buffer_new" HttpProcess_new
        "''POST / HTTP/1.1''" "''x''"]
    by (auto simp: HttpProcess_new_def request_line_def)
qed

text \<open>
  C36. The parser's only way to leave the normal path: on a well-formed buffer \<open>parse\<close> never
  reaches the exit of \<open>Buffer::retrieve\<close>; the one fault is the \<open>std::out_of_range\<close> that
  \<open>std::stoul\<close> throws on a Content-Length of more than 64 bits, which nobody catches. A request
  with such a field does raise it, so one request line and one header stop the server.
\<close>

theorem parse_only_throws_out_of_range:
  assumes "buffer_inv b" and "parse h b = Inl e"
  shows "e = Throw ''std::out_of_range''"
  using parse_refines[OF assms(1), of h] assms(2) parse_str_Inl[of h "peek b" e] by simp

theorem parse_only_throws_out_of_range_witness:
  "parse HttpProcess_new (dataIn (''GET / HTTP/1.1'' @ CRLF @
      ''Content-Length: 99999999999999999999'' @ CRLF) Buffer_new) = Inl (Throw ''std::out_of_range'')"
proof -
  let ?rl = "''GET / HTTP/1.1''" and ?hl = "''Content-Length: 99999999999999999999''"
  let ?s = "?rl @ CRLF @ ?hl @ CRLF" and ?h = "HttpProcess_new"
  let ?req = "HttpRequest_new\<lparr>rq_method := ''GET'', rq_path := ''/'', rq_version := ''HTTP/1.1''\<rparr>"
  have lines: "line_str ?s = Line ?rl (?hl @ CRLF)" "line_str (?hl @ CRLF) = Line ?hl []"
    using line_str_render[of ?rl "?hl @ CRLF"] line_str_render[of ?hl "[]"]
    by (simp_all add: good_line_def kMaxLineLen_def)
  have req: "parseRequestLine ?rl (hp_current ?h) = Some ?req"
    by code_simp
  have "toLower ''Content-Length'' = ''content-length''"
    by code_simp
  moreover have "digits_value ''99999999999999999999'' = 99999999999999999999"
    by (simp add: digits_value_def code_def)
  moreover have "list_all isdigit ''99999999999999999999''"
    by code_simp
  ultimately have "parseHeaderLine ?hl req 0 = Inl (Throw ''std::out_of_range'')" for req
    by (simp add: parseHeaderLine_def find_char_def substr_def stoul_digits list_all_iff ULONG_MAX_def)
  then have "header_step (start_headers ?h ?req) ?hl = Fault (Throw ''std::out_of_range'')"
    by (simp add: header_step_def start_headers_def)
  then have "parse_str ?h ?s = Inl (Throw ''std::out_of_range'')"
    using lines req headers_str_Line[OF lines(2), of "start_headers ?h ?req"]
    by (simp add: parse_str_def HttpProcess_new_def)
  then have "parse ?h (dataIn ?s Buffer_new) = Inl (Throw ''std::out_of_range'')"
    using parse_refines[of "dataIn ?s Buffer_new" ?h] by (simp add: abs_out_eq_Inl)
  then show ?thesis
    using parse_only_throws_out_of_range[of "dataIn ?s Buffer_new" ?h "Throw ''std::out_of_range''"] by simp
qed

text \<open>
  C37. The limits: a line longer than 8192 bytes answers \<open>kLineTooLong\<close> and stays in the buffer,
  the 101st header line answers \<open>kLineTooLong\<close>; but both are noticed only once the line's CRLF
  has arrived. As long as there is none, \<open>parse\<close> answers \<open>kNeedMore\<close> and leaves everything in
  the buffer, however many bytes have piled up.
\<close>

theorem line_limits:
  assumes "buffer_inv b"
  shows "(find_crlf (peek b) = None \<longrightarrow> parse h b = Inr (kNeedMore, h, b)) \<and>
     (\<forall>n. find_crlf (peek b) = Some n \<and> 8192 < n \<longrightarrow> parse h b = Inr (kLineTooLong, h, b)) \<and>
     (\<forall>n. find_crlf (peek b) = Some n \<and> 0 < n \<and> n \<le> 8192 \<and>
        hp_state h = kExpectHeaders \<and> hp_headerLineCount h = 100 \<longrightarrow>
        (\<exists>b'. parse h b = Inr (kLineTooLong, h\<lparr>hp_headerLineCount := 101\<rparr>, b')))"
proof (intro conjI allI impI)
  assume "find_crlf (peek b) = None"
  then have "retrieveLine b = Inr (False, False, [], b)"
    using assms by (simp add: retrieveLine_NoLine line_str_def)
  then show "parse h b = Inr (kNeedMore, h, b)"
    by (simp add: parse_def parse_headers_step[of h b])
next
  fix n assume "find_crlf (peek b) = Some n \<and> 8192 < n"
  then have "retrieveLine b = Inr (True, True, [], b)"
    using assms by (simp add: retrieveLine_LongLine line_str_def kMaxLineLen_def)
  then show "parse h b = Inr (kLineTooLong, h, b)"
    by (simp add: parse_def parse_headers_step[of h b])
next
  fix n assume n: "find_crlf (peek b) = Some n \<and> 0 < n \<and> n \<le> 8192 \<and>
      hp_state h = kExpectHeaders \<and> hp_headerLineCount h = 100"
  let ?l = "take n (peek b)"
  have L: "line_str (peek b) = Line ?l (drop (n + 2) (peek b))"
    using n by (simp add: line_str_def kMaxLineLen_def)
  have "?l \<noteq> []"
    using n find_crlf_bound[of "peek b" n] by auto
  then have "header_step h ?l = Stop kLineTooLong (h\<lparr>hp_headerLineCount := 101\<rparr>)"
    using n by (simp add: header_step_def)
  moreover obtain b' where "retrieveLine b = Inr (True, False, ?l, b')"
    using retrieveLine_Line[OF assms L] by blast
  ultimately show "\<exists>b'. parse h b = Inr (kLineTooLong, h\<lparr>hp_headerLineCount := 101\<rparr>, b')"
    using n by (simp add: parse_def parse_headers_step[of h b])
qed

theorem line_limits_witness:
  "parse HttpProcess_new (dataIn (replicate 100000 (CHR ''a'')) Buffer_new) =
     Inr (kNeedMore, HttpProcess_new, dataIn (replicate 100000 (CHR ''a'')) Buffer_new)"
proof -
  have "find_crlf (peek (dataIn (replicate 100000 (CHR ''a'')) Buffer_new)) = None"
    by (simp add: find_crlf_no_CR)
  then show ?thesis
    using line_limits[of "dataIn (replicate 100000 (CHR ''a'')) Buffer_new" HttpProcess_new] by simp
qed

end
