(* ===== verification/ThreadPool.thy ===== *)
theory ThreadPool
  imports Prelude "HOL-Library.Multiset"
begin

section \<open>ThreadPool: a shared queue and its workers\<close>

text \<open>
  Models \<open>class ThreadPool\<close> (include/ThreadPool.h, src/server/ThreadPool.cpp): the task queue
  with its stop flag, \<open>enqueue\<close>, the loop of a worker thread, \<open>stop\<close>. The mutex makes each
  critical section one step; the condition variable is modelled with its pending
  notifications, so that a lost wake-up would show. Any interleaving of the threads is a run of
  \<open>tp_step\<close>.
\<close>

subsection \<open>State\<close>

record 'j pool =
  pl_tasks :: "'j list"
  pl_stop :: bool

definition pool_new :: "'j pool" where
  "pool_new = \<lparr>pl_tasks = [], pl_stop = False\<rparr>"

text \<open>\<open>enqueue\<close> under the lock: refuse after \<open>stop\<close>, otherwise append.\<close>

definition pool_enqueue :: "'j \<Rightarrow> 'j pool \<Rightarrow> 'j pool outcome" where
  "pool_enqueue j p =
     (if pl_stop p then Inl (Throw ''enqueue on stopped ThreadPool'')
      else Inr (p\<lparr>pl_tasks := pl_tasks p @ [j]\<rparr>))"

text \<open>
  A worker is about to evaluate the wait predicate under the lock, asleep in \<open>cv.wait\<close>, outside
  the lock running a task, or has returned.
\<close>

datatype 'j wstate = Checking | Sleeping | Running 'j | Exited

text \<open>
  \<open>tp_pending\<close> counts the \<open>notify_one\<close> calls that have been reached but not made yet (they are
  made after the lock is released), \<open>tp_bcast\<close> says that \<open>notify_all\<close> is still to come. The last
  three fields are history: what was submitted, started and finished, in order.
\<close>

record 'j tp =
  tp_pool :: "'j pool"
  tp_workers :: "'j wstate list"
  tp_pending :: nat
  tp_bcast :: bool
  tp_submitted :: "'j list"
  tp_started :: "'j list"
  tp_finished :: "'j list"

definition ThreadPool_new :: "nat \<Rightarrow> 'j tp" where
  "ThreadPool_new n =
     \<lparr>tp_pool = pool_new, tp_workers = replicate n Checking, tp_pending = 0, tp_bcast = False,
      tp_submitted = [], tp_started = [], tp_finished = []\<rparr>"

subsection \<open>The critical section of a worker\<close>

text \<open>
  The predicate of \<open>cv.wait\<close>, then the exit test, then the pop: what a worker does with the
  queue in one pass under the lock.
\<close>

definition wait_pred :: "'j pool \<Rightarrow> bool" where
  "wait_pred p \<longleftrightarrow> pl_stop p \<or> pl_tasks p \<noteq> []"

definition worker_check :: "'j pool \<Rightarrow> 'j wstate \<times> 'j pool" where
  "worker_check p =
     (if \<not> wait_pred p then (Sleeping, p)
      else if pl_stop p \<and> pl_tasks p = [] then (Exited, p)
      else (Running (hd (pl_tasks p)), p\<lparr>pl_tasks := tl (pl_tasks p)\<rparr>))"

definition started_by :: "'j wstate \<Rightarrow> 'j list" where
  "started_by w = (case w of Running j \<Rightarrow> [j] | _ \<Rightarrow> [])"

definition wake :: "'j wstate \<Rightarrow> 'j wstate" where
  "wake w = (case w of Sleeping \<Rightarrow> Checking | _ \<Rightarrow> w)"

subsection \<open>Steps\<close>

text \<open>
  \<open>submit\<close> is a successful \<open>enqueue\<close>; \<open>check\<close> and \<open>finish\<close> are the two halves of a worker's
  round; \<open>set_stop\<close> and \<open>notify_all\<close> are the two halves of \<open>stop\<close>, which is called once (a second call
  would join threads that are no longer joinable). The wake-up without a notification that the
  standard allows is the separate \<open>tp_spurious\<close>: it may happen, but nothing may rely on it.
\<close>

inductive tp_step :: "'j tp \<Rightarrow> 'j tp \<Rightarrow> bool" where
  submit: "pool_enqueue j (tp_pool s) = Inr p \<Longrightarrow>
    tp_step s (s\<lparr>tp_pool := p, tp_pending := tp_pending s + 1, tp_submitted := tp_submitted s @ [j]\<rparr>)"
| notify_one: "0 < tp_pending s \<Longrightarrow> i < length (tp_workers s) \<Longrightarrow> tp_workers s ! i = Sleeping \<Longrightarrow>
    tp_step s (s\<lparr>tp_pending := tp_pending s - 1, tp_workers := (tp_workers s)[i := Checking]\<rparr>)"
| notify_nobody: "0 < tp_pending s \<Longrightarrow> Sleeping \<notin> set (tp_workers s) \<Longrightarrow>
    tp_step s (s\<lparr>tp_pending := tp_pending s - 1\<rparr>)"
| check: "i < length (tp_workers s) \<Longrightarrow> tp_workers s ! i = Checking \<Longrightarrow> worker_check (tp_pool s) = (w, p) \<Longrightarrow>
    tp_step s (s\<lparr>tp_pool := p, tp_workers := (tp_workers s)[i := w], tp_started := tp_started s @ started_by w\<rparr>)"
| finish: "i < length (tp_workers s) \<Longrightarrow> tp_workers s ! i = Running j \<Longrightarrow>
    tp_step s (s\<lparr>tp_workers := (tp_workers s)[i := Checking], tp_finished := tp_finished s @ [j]\<rparr>)"
| set_stop: "\<not> pl_stop (tp_pool s) \<Longrightarrow> tp_step s (s\<lparr>tp_pool := (tp_pool s)\<lparr>pl_stop := True\<rparr>, tp_bcast := True\<rparr>)"
| notify_all: "tp_bcast s \<Longrightarrow>
    tp_step s (s\<lparr>tp_workers := map wake (tp_workers s), tp_bcast := False\<rparr>)"

inductive tp_spurious :: "'j tp \<Rightarrow> 'j tp \<Rightarrow> bool" where
  spurious: "i < length (tp_workers s) \<Longrightarrow> tp_workers s ! i = Sleeping \<Longrightarrow>
    tp_spurious s (s\<lparr>tp_workers := (tp_workers s)[i := Checking]\<rparr>)"

inductive tp_reach :: "nat \<Rightarrow> 'j tp \<Rightarrow> bool" for n where
  start: "tp_reach n (ThreadPool_new n)"
| step: "tp_reach n s \<Longrightarrow> tp_step s t \<Longrightarrow> tp_reach n t"
| wakeup: "tp_reach n s \<Longrightarrow> tp_spurious s t \<Longrightarrow> tp_reach n t"

text \<open>\<open>stop\<close> returns when every worker has been joined.\<close>

definition all_joined :: "'j tp \<Rightarrow> bool" where
  "all_joined s \<longleftrightarrow> list_all (\<lambda>w. w = Exited) (tp_workers s)"

subsection \<open>The invariant\<close>

definition running_jobs :: "'j wstate list \<Rightarrow> 'j list" where
  "running_jobs ws = concat (map started_by ws)"

definition tp_inv :: "'j tp \<Rightarrow> bool" where
  "tp_inv s \<longleftrightarrow>
     tp_started s @ pl_tasks (tp_pool s) = tp_submitted s \<and>
     mset (tp_finished s) + mset (running_jobs (tp_workers s)) = mset (tp_started s) \<and>
     (Exited \<in> set (tp_workers s) \<longrightarrow> pl_stop (tp_pool s) \<and> pl_tasks (tp_pool s) = []) \<and>
     (pl_tasks (tp_pool s) \<noteq> [] \<and> Sleeping \<in> set (tp_workers s) \<and>
        (\<forall>w \<in> set (tp_workers s). w = Sleeping \<or> w = Exited) \<longrightarrow> 0 < tp_pending s \<or> tp_bcast s) \<and>
     (pl_stop (tp_pool s) \<and> Sleeping \<in> set (tp_workers s) \<longrightarrow> tp_bcast s)"

lemma mset_running_update:
  "i < length ws \<Longrightarrow>
   mset (running_jobs (ws[i := w])) + mset (started_by (ws ! i)) = mset (running_jobs ws) + mset (started_by w)"
  by (induction ws arbitrary: i) (auto simp: running_jobs_def nth_Cons split: nat.split)

lemma started_by_simps [simp]:
  "started_by Checking = []" "started_by Sleeping = []" "started_by Exited = []"
  "started_by (Running j) = [j]"
  by (simp_all add: started_by_def)

lemma running_map_wake [simp]: "running_jobs (map wake ws) = running_jobs ws"
  by (induction ws) (auto simp: running_jobs_def wake_def started_by_def split: wstate.splits)

lemma running_Checking: "running_jobs (replicate n Checking) = []"
  by (induction n) (simp_all add: running_jobs_def)

lemma tp_inv_new: "tp_inv (ThreadPool_new n)"
  by (simp add: tp_inv_def ThreadPool_new_def pool_new_def running_Checking)

lemma in_set_update: "i < length ws \<Longrightarrow> w \<in> set (ws[i := w])"
  by (simp add: set_update_memI)

lemma pool_enqueue_ok:
  "pool_enqueue j p = Inr p' \<longleftrightarrow> \<not> pl_stop p \<and> p' = p\<lparr>pl_tasks := pl_tasks p @ [j]\<rparr>"
  by (auto simp: pool_enqueue_def)

lemma worker_check_cases:
  assumes "worker_check p = (w, p')"
  obtains (sleep) "w = Sleeping" "p' = p" "\<not> pl_stop p" "pl_tasks p = []"
  | (exit) "w = Exited" "p' = p" "pl_stop p" "pl_tasks p = []"
  | (take) j js where "w = Running j" "pl_tasks p = j # js" "p' = p\<lparr>pl_tasks := js\<rparr>"
  using assms by (cases "pl_tasks p") (auto simp: worker_check_def wait_pred_def split: if_splits)

lemma tp_inv_check:
  assumes inv: "tp_inv s" and i: "i < length (tp_workers s)" "tp_workers s ! i = Checking"
    and c: "worker_check (tp_pool s) = (w, p)"
  shows "tp_inv (s\<lparr>tp_pool := p, tp_workers := (tp_workers s)[i := w], tp_started := tp_started s @ started_by w\<rparr>)"
proof -
  note run = mset_running_update[OF i(1), of w]
  note sub = set_update_subset_insert[of "tp_workers s" i w]
  note mem = in_set_update[OF i(1), of w]
  from c show ?thesis
  proof (cases rule: worker_check_cases)
    case sleep
    then have "Exited \<notin> set ((tp_workers s)[i := w])"
      using inv sub by (auto simp: tp_inv_def)
    with sleep show ?thesis
      using inv run i by (simp add: tp_inv_def)
  next
    case exit
    then show ?thesis
      using inv run i sub by (auto simp: tp_inv_def)
  next
    case (take j js)
    then have "Exited \<notin> set ((tp_workers s)[i := w])" "Sleeping \<in> set ((tp_workers s)[i := w]) \<Longrightarrow> Sleeping \<in> set (tp_workers s)"
      using inv sub by (auto simp: tp_inv_def)
    moreover have "\<not> (\<forall>v \<in> set ((tp_workers s)[i := w]). v = Sleeping \<or> v = Exited)"
      using mem take(1) by auto
    ultimately show ?thesis
      using inv run i take unfolding tp_inv_def by simp blast
  qed
qed

lemma tp_inv_to_Checking:
  assumes inv: "tp_inv s" and i: "i < length (tp_workers s)"
    and t: "tp_workers t = (tp_workers s)[i := Checking]" "tp_pool t = tp_pool s" "tp_bcast t = tp_bcast s"
      "tp_submitted t = tp_submitted s" "tp_started t = tp_started s"
      "mset (tp_finished t) = mset (tp_finished s) + mset (started_by (tp_workers s ! i))"
  shows "tp_inv t"
proof -
  have awake: "\<not> (\<forall>v \<in> set (tp_workers t). v = Sleeping \<or> v = Exited)"
    using in_set_update[OF i, of Checking] t(1) by fastforce
  have sub: "Exited \<in> set (tp_workers t) \<longrightarrow> Exited \<in> set (tp_workers s)"
      "Sleeping \<in> set (tp_workers t) \<longrightarrow> Sleeping \<in> set (tp_workers s)"
    using set_update_subset_insert[of "tp_workers s" i Checking] t(1) by auto
  have run: "mset (tp_finished t) + mset (running_jobs (tp_workers t)) = mset (tp_started t)"
  proof -
    have "mset (running_jobs (tp_workers t)) + mset (started_by (tp_workers s ! i)) = mset (running_jobs (tp_workers s))"
      using mset_running_update[OF i, of Checking] t(1) by simp
    then have "mset (tp_finished t) + mset (running_jobs (tp_workers t)) =
        mset (tp_finished s) + mset (running_jobs (tp_workers s))"
      unfolding t(6) by (metis union_assoc union_commute)
    then show ?thesis
      using inv t(5) unfolding tp_inv_def by simp
  qed
  have queue: "tp_started t @ pl_tasks (tp_pool t) = tp_submitted t"
    using inv unfolding tp_inv_def t(2,4,5) by blast
  have "Exited \<in> set (tp_workers t) \<longrightarrow> pl_stop (tp_pool t) \<and> pl_tasks (tp_pool t) = []"
      "pl_stop (tp_pool t) \<and> Sleeping \<in> set (tp_workers t) \<longrightarrow> tp_bcast t"
    using inv sub unfolding tp_inv_def t(2,3) by blast+
  with awake run queue show ?thesis
    unfolding tp_inv_def by blast
qed

lemma tp_inv_step: "tp_step s t \<Longrightarrow> tp_inv s \<Longrightarrow> tp_inv t"
proof (induction rule: tp_step.induct)
  case (submit j s p)
  then show ?case
    by (auto simp: tp_inv_def pool_enqueue_ok)
next
  case (notify_one s i)
  show ?case
    by (rule tp_inv_to_Checking[of s i]) (use notify_one in simp_all)
next
  case (notify_nobody s)
  then show ?case
    by (auto simp: tp_inv_def)
next
  case (check i s w p)
  then show ?case
    by (blast intro: tp_inv_check)
next
  case (finish i s j)
  show ?case
    by (rule tp_inv_to_Checking[of s i]) (use finish in simp_all)
next
  case (set_stop s)
  then show ?case
    by (auto simp: tp_inv_def)
next
  case (notify_all s)
  have "Sleeping \<noteq> wake w" "Exited = wake w \<longleftrightarrow> w = Exited" for w :: "'a wstate"
    by (cases w; simp add: wake_def)+
  then show ?case
    using notify_all by (auto simp: tp_inv_def)
qed

lemma tp_inv_spurious: "tp_spurious s t \<Longrightarrow> tp_inv s \<Longrightarrow> tp_inv t"
proof (induction rule: tp_spurious.induct)
  case (spurious i s)
  show ?case
    by (rule tp_inv_to_Checking[of s i]) (use spurious in simp_all)
qed

lemma tp_step_workers: "tp_step s t \<Longrightarrow> length (tp_workers t) = length (tp_workers s)"
  by (induction rule: tp_step.induct) auto

lemma tp_reach_inv: "tp_reach n s \<Longrightarrow> tp_inv s \<and> length (tp_workers s) = n"
proof (induction rule: tp_reach.induct)
  case start
  then show ?case by (simp add: tp_inv_new) (simp add: ThreadPool_new_def)
next
  case (step s t)
  then show ?case using tp_inv_step tp_step_workers by metis
next
  case (wakeup s t)
  moreover have "length (tp_workers t) = length (tp_workers s)"
    using wakeup(2) by (induction rule: tp_spurious.induct) simp
  ultimately show ?case using tp_inv_spurious by metis
qed

subsection \<open>Work left after stop\<close>

definition worker_weight :: "'j wstate \<Rightarrow> nat" where
  "worker_weight w = (case w of Exited \<Rightarrow> 0 | Checking \<Rightarrow> 1 | Running j \<Rightarrow> 2 | Sleeping \<Rightarrow> 2)"

definition pool_work :: "'j tp \<Rightarrow> nat" where
  "pool_work s = 2 * length (pl_tasks (tp_pool s)) + sum_list (map worker_weight (tp_workers s)) +
     tp_pending s + (if tp_bcast s then 1 else 0)"

lemma weight_update:
  "i < length ws \<Longrightarrow>
   sum_list (map worker_weight (ws[i := w])) + worker_weight (ws ! i) =
   sum_list (map worker_weight ws) + worker_weight w"
  by (induction ws arbitrary: i) (auto simp: nth_Cons split: nat.split)

lemma weight_wake: "sum_list (map worker_weight (map wake ws)) \<le> sum_list (map worker_weight ws)"
proof (induction ws)
  case (Cons w ws)
  have "worker_weight (wake w) \<le> worker_weight w"
    by (cases w) (simp_all add: wake_def worker_weight_def)
  with Cons show ?case by simp
qed simp

lemma weight_simps [simp]:
  "worker_weight Exited = 0" "worker_weight Checking = 1" "worker_weight (Running j) = 2"
  "worker_weight Sleeping = 2"
  by (simp_all add: worker_weight_def)

lemma stopped_step_decreases:
  assumes "tp_step s t" and "pl_stop (tp_pool s)"
  shows "pl_stop (tp_pool t) \<and> pool_work t < pool_work s"
  using assms
proof (induction rule: tp_step.induct)
  case (notify_one s i)
  then show ?case
    using weight_update[of i "tp_workers s" Checking] by (simp add: pool_work_def)
next
  case (check i s w p)
  from check(3) show ?case
  proof (cases rule: worker_check_cases)
    case (take j js)
    then show ?thesis
      using check weight_update[of i "tp_workers s" w] by (simp add: pool_work_def)
  qed (use check weight_update[of i "tp_workers s" w] in \<open>simp_all add: pool_work_def\<close>)
next
  case (finish i s j)
  then show ?case
    using weight_update[of i "tp_workers s" Checking] by (simp add: pool_work_def)
next
  case (notify_all s)
  then show ?case
    using weight_wake[of "tp_workers s"] by (simp add: pool_work_def)
qed (auto simp: pool_enqueue_ok pool_work_def)

lemma stopped_wakeup_decreases:
  "tp_spurious s t \<Longrightarrow> pl_stop (tp_pool s) \<Longrightarrow> pl_stop (tp_pool t) \<and> pool_work t < pool_work s"
proof (induction rule: tp_spurious.induct)
  case (spurious i s)
  then show ?case
    using weight_update[of i "tp_workers s" Checking] by (simp add: pool_work_def)
qed

lemma worker_can_step:
  assumes i: "i < length (tp_workers s)" and "tp_workers s ! i \<noteq> Exited"
    and "tp_inv s" "pl_stop (tp_pool s)"
  shows "\<exists>t. tp_step s t"
proof (cases "tp_workers s ! i")
  case Checking
  obtain v p where "worker_check (tp_pool s) = (v, p)" by fastforce
  with i Checking show ?thesis by (blast intro: tp_step.check)
next
  case Sleeping
  then have "tp_bcast s"
    using assms nth_mem[OF i] by (simp add: tp_inv_def)
  then show ?thesis by (blast intro: tp_step.notify_all)
next
  case (Running j)
  with i show ?thesis by (blast intro: tp_step.finish)
next
  case Exited
  with assms show ?thesis by simp
qed

lemma stopped_not_stuck: "tp_inv s \<Longrightarrow> pl_stop (tp_pool s) \<Longrightarrow> \<not> all_joined s \<Longrightarrow> \<exists>t. tp_step s t"
  using worker_can_step by (fastforce simp: all_joined_def list_all_iff in_set_conv_nth)

lemma stopped_can_join:
  "tp_inv s \<Longrightarrow> pl_stop (tp_pool s) \<Longrightarrow> \<exists>t. tp_step\<^sup>*\<^sup>* s t \<and> all_joined t"
proof (induction "pool_work s" arbitrary: s rule: less_induct)
  case less
  show ?case
  proof (cases "all_joined s")
    case False
    then obtain t where t: "tp_step s t"
      using stopped_not_stuck less.prems by blast
    with stopped_step_decreases[OF t less.prems(2)] tp_inv_step[OF t less.prems(1)] less.hyps obtain u where
      "tp_step\<^sup>*\<^sup>* t u" "all_joined u" by blast
    with t show ?thesis
      by (blast intro: converse_rtranclp_into_rtranclp)
  qed auto
qed

subsection \<open>Properties\<close>

text \<open>
  C20. Every accepted task is run once and in order: in any interleaving of submitters and
  workers, the tasks taken so far followed by the queue are the tasks submitted, in submission
  order, and each task taken is either finished or being run by exactly one worker.
\<close>

theorem pool_runs_each_task_once:
  assumes "tp_reach n s"
  shows "tp_started s @ pl_tasks (tp_pool s) = tp_submitted s \<and>
     mset (tp_finished s) + mset (running_jobs (tp_workers s)) = mset (tp_started s)"
  using tp_reach_inv[OF assms] by (simp add: tp_inv_def)

text \<open>A run with one worker: submit 5, take it, finish it.\<close>

lemma tp_reach_demo: "\<exists>s. tp_reach 1 s \<and> tp_finished s = [5::nat] \<and> pl_tasks (tp_pool s) = [] \<and> \<not> pl_stop (tp_pool s) \<and>
   tp_workers s = [Checking]"
proof -
  let ?s0 = "ThreadPool_new 1 :: nat tp"
  let ?s1 = "?s0\<lparr>tp_pool := \<lparr>pl_tasks = [5], pl_stop = False\<rparr>, tp_pending := 1, tp_submitted := [5]\<rparr>"
  let ?s2 = "?s1\<lparr>tp_pool := pool_new, tp_workers := [Running 5], tp_started := [5]\<rparr>"
  let ?s3 = "?s2\<lparr>tp_workers := [Checking], tp_finished := [5]\<rparr>"
  have "tp_step ?s0 ?s1"
    using tp_step.submit[of 5 ?s0 "\<lparr>pl_tasks = [5], pl_stop = False\<rparr>"]
    by (simp add: ThreadPool_new_def pool_new_def pool_enqueue_def)
  moreover have "tp_step ?s1 ?s2"
    using tp_step.check[of 0 ?s1 "Running 5" pool_new]
    by (simp add: ThreadPool_new_def pool_new_def worker_check_def wait_pred_def)
  moreover have "tp_step ?s2 ?s3"
    using tp_step.finish[of 0 ?s2 5] by (simp add: ThreadPool_new_def)
  ultimately have "tp_reach 1 ?s3"
    by (meson tp_reach.intros)
  then show ?thesis
    by (intro exI[of _ ?s3]) (simp add: ThreadPool_new_def pool_new_def)
qed

theorem pool_runs_each_task_once_witness:
  "\<exists>s. tp_reach 1 s \<and> tp_finished s = [5::nat] \<and> tp_started s @ pl_tasks (tp_pool s) = tp_submitted s \<and>
     mset (tp_finished s) + mset (running_jobs (tp_workers s)) = mset (tp_started s)"
  using tp_reach_demo pool_runs_each_task_once by blast

text \<open>
  C21. No lost wake-up: whenever a task is queued and the pool has a worker, either some worker
  is awake (about to look at the queue, or running a task after which it will), or a
  notification that will wake a sleeper is still pending.
\<close>

theorem pool_no_lost_wakeup:
  assumes "tp_reach n s" and "0 < n" and "pl_tasks (tp_pool s) \<noteq> []"
  shows "(\<exists>w \<in> set (tp_workers s). w \<noteq> Sleeping \<and> w \<noteq> Exited) \<or>
     (Sleeping \<in> set (tp_workers s) \<and> (0 < tp_pending s \<or> tp_bcast s))"
proof -
  have inv: "tp_inv s" "tp_workers s \<noteq> []"
    using tp_reach_inv[OF assms(1)] assms(2) by auto
  then have "Exited \<notin> set (tp_workers s)"
    using assms(3) by (auto simp: tp_inv_def)
  then show ?thesis
    using inv assms(3) unfolding tp_inv_def by (metis last_in_set)
qed

theorem pool_no_lost_wakeup_witness:
  "\<exists>s. tp_reach 1 s \<and> pl_tasks (tp_pool s) = [7::nat] \<and>
     ((\<exists>w \<in> set (tp_workers s). w \<noteq> Sleeping \<and> w \<noteq> Exited) \<or>
     (Sleeping \<in> set (tp_workers s) \<and> (0 < tp_pending s \<or> tp_bcast s)))"
proof -
  let ?s0 = "ThreadPool_new 1 :: nat tp"
  let ?s1 = "?s0\<lparr>tp_pool := \<lparr>pl_tasks = [7], pl_stop = False\<rparr>, tp_pending := 1, tp_submitted := [7]\<rparr>"
  have "tp_step ?s0 ?s1"
    using tp_step.submit[of 7 ?s0 "\<lparr>pl_tasks = [7], pl_stop = False\<rparr>"]
    by (simp add: ThreadPool_new_def pool_new_def pool_enqueue_def)
  then have r: "tp_reach 1 ?s1"
    by (meson tp_reach.intros)
  then show ?thesis
    using pool_no_lost_wakeup[OF r] by (intro exI[of _ ?s1]) simp
qed

text \<open>
  C22. Stopping: once the stop flag is set, new tasks are refused with the exception, every
  step of the pool (a spurious wake-up too) reduces the remaining work, a pool that cannot step
  has joined all its workers, so, without relying on spurious wake-ups, the joins of \<open>stop\<close> return; and when they do, the queue is empty and every
  accepted task has finished.
\<close>

theorem pool_stop_drains_and_joins:
  assumes "tp_reach n s" and "pl_stop (tp_pool s)" and "0 < n"
  shows "pool_enqueue j (tp_pool s) = Inl (Throw ''enqueue on stopped ThreadPool'') \<and>
     (\<forall>t. tp_step s t \<or> tp_spurious s t \<longrightarrow> pl_stop (tp_pool t) \<and> pool_work t < pool_work s) \<and>
     (all_joined s \<or> (\<exists>t. tp_step s t)) \<and>
     (\<exists>t. tp_step\<^sup>*\<^sup>* s t \<and> all_joined t) \<and>
     (all_joined s \<longrightarrow> pl_tasks (tp_pool s) = [] \<and> mset (tp_finished s) = mset (tp_submitted s))"
proof -
  have inv: "tp_inv s" "tp_workers s \<noteq> []"
    using tp_reach_inv[OF assms(1)] assms(3) by auto
  have "pl_tasks (tp_pool s) = [] \<and> mset (tp_finished s) = mset (tp_submitted s)" if "all_joined s"
  proof -
    have ex: "\<forall>w \<in> set (tp_workers s). w = Exited"
      using that by (simp add: all_joined_def list_all_iff)
    then have "Exited \<in> set (tp_workers s)"
      using inv(2) last_in_set by fastforce
    moreover have "running_jobs (tp_workers s) = []"
      using ex by (auto simp: running_jobs_def)
    ultimately show ?thesis
      using inv(1) by (auto simp: tp_inv_def)
  qed
  then show ?thesis
    using stopped_step_decreases[OF _ assms(2)] stopped_wakeup_decreases[OF _ assms(2)]
      stopped_not_stuck[OF inv(1) assms(2)] stopped_can_join[OF inv(1) assms(2)] assms(2)
    by (auto simp: pool_enqueue_def)
qed

theorem pool_stop_drains_and_joins_witness:
  "\<exists>s. tp_reach 1 s \<and> tp_finished s = [5::nat] \<and>
     pool_enqueue 6 (tp_pool s) = Inl (Throw ''enqueue on stopped ThreadPool'') \<and>
     (\<exists>t. tp_step\<^sup>*\<^sup>* s t \<and> all_joined t)"
proof -
  obtain s :: "nat tp" where s: "tp_reach 1 s" "tp_finished s = [5]" "\<not> pl_stop (tp_pool s)"
    using tp_reach_demo by blast
  let ?t = "s\<lparr>tp_pool := (tp_pool s)\<lparr>pl_stop := True\<rparr>, tp_bcast := True\<rparr>"
  have t: "tp_reach 1 ?t"
    using s(1) tp_step.set_stop[OF s(3)] by (rule tp_reach.step)
  then show ?thesis
    using pool_stop_drains_and_joins[OF t, of 6] s(2) by (intro exI[of _ ?t]) simp
qed

end
