(* ===== verification/TimerQueue.thy ===== *)
theory TimerQueue
  imports Channel
begin

section \<open>TimerQueue: the idle timers of an event loop\<close>

text \<open>
  Models \<open>class Timer\<close> (include/Timer.h) and \<open>class TimerQueue\<close> (include/TimerQueue.h,
  src/server/TimerQueue.cpp): the ordered map from timer ids to timers, \<open>addTimer\<close>,
  \<open>deleteTimer\<close>, \<open>refreshClock\<close>, \<open>handleRead\<close> with its three phases (drain the timerfd, scan for
  expired timers, run and erase them). The contract of \<open>std::map\<close> is the locale
  \<open>ordered_map\<close>, interpreted on the sorted association lists of the model.
\<close>

subsection \<open>std::map as a contract\<close>

locale ordered_map =
  fixes put :: "int \<Rightarrow> 'v \<Rightarrow> 'm \<Rightarrow> 'm" and erase :: "int \<Rightarrow> 'm \<Rightarrow> 'm"
    and entries :: "'m \<Rightarrow> (int \<times> 'v) list" and wf :: "'m \<Rightarrow> bool"
  assumes wf_sorted: "wf m \<Longrightarrow> sorted_wrt (<) (map fst (entries m))"
    and wf_put: "wf m \<Longrightarrow> wf (put i v m)"
    and wf_erase: "wf m \<Longrightarrow> wf (erase i m)"
    and find_put: "wf m \<Longrightarrow> map_of (entries (put i v m)) = (map_of (entries m))(i \<mapsto> v)"
    and find_erase: "wf m \<Longrightarrow> map_of (entries (erase i m)) = (map_of (entries m))(i := None)"
begin

lemma sorted_entries_unique:
  assumes "sorted_wrt (<) (map fst xs)" and "sorted_wrt (<) (map fst ys)" and "map_of xs = map_of ys"
  shows "xs = (ys :: (int \<times> 'v) list)"
proof -
  have d: "distinct (map fst xs)" "distinct (map fst ys)"
    using assms(1,2) by (auto simp: strict_sorted_iff)
  have "set xs = set ys"
    using map_of_inject_set[OF d] assms(3) by blast
  then have "map fst xs = map fst ys"
    using assms(1,2) by (intro strict_sorted_equal) auto
  moreover have "zs = map (\<lambda>k. (k, the (map_of zs k))) (map fst zs)" if "distinct (map fst zs)" for zs :: "(int \<times> 'v) list"
    using that by (auto intro!: map_idI[symmetric])
  ultimately show ?thesis
    using d assms(3) by metis
qed

lemma entries_erase: "wf m \<Longrightarrow> entries (erase i m) = filter (\<lambda>x. fst x \<noteq> i) (entries m)"
proof (rule sorted_entries_unique)
  assume m: "wf m"
  show "sorted_wrt (<) (map fst (entries (erase i m)))"
    using m by (simp add: wf_sorted wf_erase)
  show "sorted_wrt (<) (map fst (filter (\<lambda>x. fst x \<noteq> i) (entries m)))"
    using sorted_wrt_filter[of "\<lambda>x y. fst x < fst y"] wf_sorted[OF m] by (simp add: sorted_wrt_map)
  show "map_of (entries (erase i m)) = map_of (filter (\<lambda>x. fst x \<noteq> i) (entries m))"
    by (simp add: find_erase[OF m] map_of_filter_neq)
qed

lemma entries_put_above:
  assumes "wf m" and "\<forall>k \<in> fst ` set (entries m). k < i"
  shows "entries (put i v m) = entries m @ [(i, v)]"
proof (rule sorted_entries_unique)
  show "sorted_wrt (<) (map fst (entries (put i v m)))"
    using assms by (simp add: wf_sorted wf_put)
  show "sorted_wrt (<) (map fst (entries m @ [(i, v)]))"
    using assms wf_sorted[OF assms(1)] by (auto simp: sorted_wrt_append)
  have "map_of (entries m) i = None"
    using assms(2) unfolding map_of_eq_None_iff by blast
  then show "map_of (entries (put i v m)) = map_of (entries m @ [(i, v)])"
    using find_put[OF assms(1)] by (auto simp: fun_eq_iff map_add_def split: option.split)
qed

lemma begin_least: "wf m \<Longrightarrow> entries m = (i, v) # rest \<Longrightarrow> (j, w) \<in> set rest \<Longrightarrow> i < j"
  using wf_sorted[of m] by force

lemma erase_absent: "wf m \<Longrightarrow> map_of (entries m) i = None \<Longrightarrow> entries (erase i m) = entries m"
  by (auto simp: entries_erase map_of_eq_None_iff intro!: filter_True)

end

text \<open>The model's map: a list of pairs in ascending order of the key.\<close>

fun map_put :: "int \<Rightarrow> 'v \<Rightarrow> (int \<times> 'v) list \<Rightarrow> (int \<times> 'v) list" where
  "map_put i v [] = [(i, v)]"
| "map_put i v ((j, w) # xs) =
     (if i < j then (i, v) # (j, w) # xs
      else if i = j then (i, v) # xs
      else (j, w) # map_put i v xs)"

definition map_erase :: "int \<Rightarrow> (int \<times> 'v) list \<Rightarrow> (int \<times> 'v) list" where
  "map_erase i xs = filter (\<lambda>x. fst x \<noteq> i) xs"

definition map_wf :: "(int \<times> 'v) list \<Rightarrow> bool" where
  "map_wf xs \<longleftrightarrow> sorted_wrt (<) (map fst xs)"

lemma fst_set_map_put: "fst ` set (map_put i v xs) = insert i (fst ` set xs)"
  by (induction i v xs rule: map_put.induct) auto

lemma map_wf_put: "map_wf xs \<Longrightarrow> map_wf (map_put i v xs)"
proof (induction i v xs rule: map_put.induct)
  case (2 i v j w xs)
  then show ?case
    using fst_set_map_put[of i v xs] by (fastforce simp: map_wf_def)
qed (simp add: map_wf_def)

lemma map_wf_erase: "map_wf xs \<Longrightarrow> map_wf (map_erase i xs)"
  using sorted_wrt_filter[of "\<lambda>x y. fst x < fst y"] by (simp add: map_wf_def map_erase_def sorted_wrt_map)

lemma map_of_map_put: "map_wf xs \<Longrightarrow> map_of (map_put i v xs) = (map_of xs)(i \<mapsto> v)"
  by (induction i v xs rule: map_put.induct) (auto simp: map_wf_def)

interpretation tmap: ordered_map map_put map_erase "\<lambda>xs. xs" map_wf
  by unfold_locales
    (simp_all add: map_wf_put map_wf_erase map_of_map_put, simp_all add: map_wf_def map_erase_def map_of_filter_neq)

subsection \<open>Timers and the queue\<close>

text \<open>
  A timer's callback is a value of type \<open>'cb\<close>: in this program always \<open>handleDead\<close> of one
  connection, so the connection is all there is to know. \<open>timerId\<close> is a C++ \<open>int\<close>, whose
  increment past \<open>INT_MAX\<close> is undefined.
\<close>

record 'cb timer =
  tm_id :: int
  tm_expiration :: timespec
  tm_callBack :: 'cb

record 'cb timerq =
  tq_timerId :: int
  tq_timeFd :: int
  tq_chan :: channel
  tq_timers :: "(int \<times> 'cb timer) list"

definition INT_MAX :: int where
  "INT_MAX = 2147483647"

definition now :: "'k os \<Rightarrow> 'k \<Rightarrow> (timespec \<times> 'k) outcome" where
  "now os k =
     (case os_now os k of
        (Inl e, k') \<Rightarrow> Inl (Exit ''time get error'')
      | (Inr t, k') \<Rightarrow> Inr (t, k'))"

definition TimerQueue_new :: "'k os \<Rightarrow> int \<Rightarrow> 'k \<Rightarrow> ('cb timerq \<times> 'k) outcome" where
  "TimerQueue_new os ep k =
     (case os_timerfd os k of
        (Inl e, k') \<Rightarrow> Inl (Exit ''timeFd create error'')
      | (Inr fd, k') \<Rightarrow>
          ebind (enableReading os ep TimeChan (Channel_new fd) k') (\<lambda>(c, k'').
            Inr (\<lparr>tq_timerId = 0, tq_timeFd = fd, tq_chan = c, tq_timers = []\<rparr>, k'')))"

definition TimerQueue_delete :: "'k os \<Rightarrow> 'cb timerq \<Rightarrow> 'k \<Rightarrow> 'k" where
  "TimerQueue_delete os q k = os_close os (tq_timeFd q) k"

text \<open>The first timer of the map decides; a zero time disarms the clock.\<close>

definition clock_target :: "'cb timerq \<Rightarrow> timespec" where
  "clock_target q = (case tq_timers q of [] \<Rightarrow> ts_zero | (i, tm) # rest \<Rightarrow> tm_expiration tm)"

definition refreshClock :: "'k os \<Rightarrow> 'cb timerq \<Rightarrow> 'k \<Rightarrow> 'k outcome" where
  "refreshClock os q k =
     (case os_settime os (tq_timeFd q) (clock_target q) k of
        (r, k') \<Rightarrow> ebind (errif (failed r) ''timeFd refresh error'') (\<lambda>_. Inr k'))"

definition timerq_stop :: "'k os \<Rightarrow> int \<Rightarrow> 'cb timerq \<Rightarrow> 'k \<Rightarrow> ('cb timerq \<times> 'k) outcome" where
  "timerq_stop os ep q k =
     ebind (disableAll os ep TimeChan (tq_chan q) k) (\<lambda>(c, k'). Inr (q\<lparr>tq_chan := c\<rparr>, k'))"

definition timerq_addTimer :: "'k os \<Rightarrow> 'cb \<Rightarrow> 'cb timerq \<Rightarrow> 'k \<Rightarrow> (int \<times> 'cb timerq \<times> 'k) outcome" where
  "timerq_addTimer os cb q k =
     ebind (now os k) (\<lambda>(t, k1).
       let ex = t\<lparr>tv_sec := tv_sec t + 60\<rparr> in
       if tq_timerId q = INT_MAX then Inl (Undefined ''signed overflow'')
       else
         let i = tq_timerId q + 1;
             q' = q\<lparr>tq_timerId := i,
                    tq_timers := map_put i \<lparr>tm_id = i, tm_expiration = ex, tm_callBack = cb\<rparr> (tq_timers q)\<rparr> in
         ebind (refreshClock os q' k1) (\<lambda>k2. Inr (i, q', k2)))"

definition timerq_deleteTimer :: "'k os \<Rightarrow> int \<Rightarrow> 'cb timerq \<Rightarrow> 'k \<Rightarrow> ('cb timerq \<times> 'k) outcome" where
  "timerq_deleteTimer os i q k =
     (if map_of (tq_timers q) i = None then Inr (q, k)
      else
        let q' = q\<lparr>tq_timers := map_erase i (tq_timers q)\<rparr> in
        ebind (refreshClock os q' k) (\<lambda>k'. Inr (q', k')))"

subsection \<open>When the timerfd fires\<close>

text \<open>
  The part of an event loop that a timer callback can reach: the kernel, the epoll instance and
  the timer queue. The event loop and the reactors extend this record.
\<close>

record ('cb, 'k) world =
  kern :: 'k
  epfd :: int
  tq :: "'cb timerq"

text \<open>
  The loop that empties an 8-byte counter: \<open>True\<close> when the counter was read, \<open>False\<close> when there
  was nothing to read. The same loop, with the same message, serves eventfd and timerfd.
\<close>

partial_function (option) drain_counter :: "'k os \<Rightarrow> int \<Rightarrow> 'k \<Rightarrow> (bool \<times> 'k) res" where
  "drain_counter os fd k =
     (case os_read8 os fd k of
        (r, k') \<Rightarrow>
          (case r of
             Inr n \<Rightarrow> if n = 8 then ret (True, k') else drain_counter os fd k'
           | Inl e \<Rightarrow>
               if would_block e then ret (False, k')
               else if e = EINTR then drain_counter os fd k'
               else fail (Exit ''eloopFd read error'')))"

text \<open>The scan stops at the first timer that has not expired.\<close>

definition expired :: "timespec \<Rightarrow> int \<times> 'cb timer \<Rightarrow> bool" where
  "expired t x \<longleftrightarrow> ts_less (tm_expiration (snd x)) t"

definition dyingTimers :: "timespec \<Rightarrow> (int \<times> 'cb timer) list \<Rightarrow> int list" where
  "dyingTimers t timers = map fst (takeWhile (expired t) timers)"

text \<open>
  \<open>timers[id]->runCallBack()\<close> looks the id up again, after the earlier callbacks have run: if one
  of them erased it, \<open>operator[]\<close> would insert a null pointer and the call dereference it.
\<close>

fun fire_timers ::
  "('cb \<Rightarrow> ('cb, 'k, 'z) world_scheme \<Rightarrow> ('cb, 'k, 'z) world_scheme res) \<Rightarrow> int list \<Rightarrow>
   ('cb, 'k, 'z) world_scheme \<Rightarrow> ('cb, 'k, 'z) world_scheme res" where
  "fire_timers run [] s = ret s"
| "fire_timers run (i # is) s =
     (case map_of (tq_timers (tq s)) i of
        None \<Rightarrow> fail (Undefined ''null Timer'')
      | Some tm \<Rightarrow>
          rbind (run (tm_callBack tm) s) (\<lambda>s'.
            fire_timers run is (s'\<lparr>tq := (tq s')\<lparr>tq_timers := map_erase i (tq_timers (tq s'))\<rparr>\<rparr>)))"

definition timerq_handleRead ::
  "'k os \<Rightarrow> ('cb \<Rightarrow> ('cb, 'k, 'z) world_scheme \<Rightarrow> ('cb, 'k, 'z) world_scheme res) \<Rightarrow>
   ('cb, 'k, 'z) world_scheme \<Rightarrow> ('cb, 'k, 'z) world_scheme res" where
  "timerq_handleRead os run s =
     rbind (drain_counter os (tq_timeFd (tq s)) (kern s)) (\<lambda>(go, k).
       if \<not> go then ret (s\<lparr>kern := k\<rparr>)
       else
         rbind (Some (now os k)) (\<lambda>(t, k1).
           rbind (fire_timers run (dyingTimers t (tq_timers (tq s))) (s\<lparr>kern := k1\<rparr>)) (\<lambda>s'.
             rbind (Some (refreshClock os (tq s') (kern s'))) (\<lambda>k2. ret (s'\<lparr>kern := k2\<rparr>)))))"

subsection \<open>The invariant of the queue\<close>

text \<open>
  Ids ascend and never exceed \<open>timerId\<close>, each timer knows its id, and later ids do not expire
  earlier. The last part is what the comment of TimerQueue.h says the order of the map is for, and
  it needs a clock that does not go back.
\<close>

definition time_le :: "timespec \<Rightarrow> timespec \<Rightarrow> bool" where
  "time_le a b \<longleftrightarrow> \<not> ts_less b a"

definition timers_wf :: "'cb timerq \<Rightarrow> bool" where
  "timers_wf q \<longleftrightarrow> map_wf (tq_timers q) \<and> 0 \<le> tq_timerId q \<and> tq_timerId q \<le> INT_MAX \<and>
     (\<forall>(i, tm) \<in> set (tq_timers q). tm_id tm = i \<and> 1 \<le> i \<and> i \<le> tq_timerId q)"

definition timers_ordered :: "'cb timerq \<Rightarrow> bool" where
  "timers_ordered q \<longleftrightarrow> sorted_wrt time_le (map (\<lambda>x. tm_expiration (snd x)) (tq_timers q))"

definition expires_by :: "timespec \<Rightarrow> 'cb timerq \<Rightarrow> bool" where
  "expires_by t q \<longleftrightarrow> (\<forall>x \<in> set (tq_timers q). time_le (tm_expiration (snd x)) (t\<lparr>tv_sec := tv_sec t + 60\<rparr>))"

lemma time_le_refl [simp]: "time_le a a"
  by (auto simp: time_le_def ts_less_def)

lemma time_le_trans: "time_le a b \<Longrightarrow> time_le b c \<Longrightarrow> time_le a c"
  by (auto simp: time_le_def ts_less_def)

lemma time_le_add60: "time_le a b \<Longrightarrow> time_le (a\<lparr>tv_sec := tv_sec a + 60\<rparr>) (b\<lparr>tv_sec := tv_sec b + 60\<rparr>)"
  by (auto simp: time_le_def ts_less_def)

lemma expires_by_mono: "expires_by t q \<Longrightarrow> time_le t t' \<Longrightarrow> expires_by t' q"
  unfolding expires_by_def using time_le_add60 time_le_trans by blast

text \<open>On an ordered queue the early exit of the scan loses nothing.\<close>

lemma takeWhile_eq_filter:
  "sorted_wrt R xs \<Longrightarrow> (\<And>x y. R x y \<Longrightarrow> P y \<Longrightarrow> P x) \<Longrightarrow> takeWhile P xs = filter P xs"
proof (induction xs)
  case (Cons x xs)
  then show ?case
    by (auto simp: filter_empty_conv[symmetric]) (metis filter_False)
qed simp

subsection \<open>What the clock and the timerfd promise\<close>

text \<open>
  clock_gettime(2) with \<open>CLOCK_MONOTONIC\<close>: \<open>tm k\<close>, the time at kernel state \<open>k\<close>, never goes back, and a
  reading lies between the times before and after it. timerfd_settime(2): \<open>armed k\<close> holds the last
  setting of each timerfd.
\<close>

definition clock_monotone :: "'k os \<Rightarrow> ('k \<Rightarrow> timespec) \<Rightarrow> bool" where
  "clock_monotone os tm \<longleftrightarrow>
     (\<forall>k t k'. os_now os k = (Inr t, k') \<longrightarrow> time_le (tm k) t \<and> time_le t (tm k')) \<and>
     (\<forall>fd t k r k'. os_settime os fd t k = (r, k') \<longrightarrow> time_le (tm k) (tm k'))"

definition settime_spec :: "'k os \<Rightarrow> ('k \<Rightarrow> int \<Rightarrow> timespec) \<Rightarrow> bool" where
  "settime_spec os armed \<longleftrightarrow>
     (\<forall>fd t k k'. os_settime os fd t k = (Inr (), k') \<longrightarrow> armed k' fd = t) \<and>
     (\<forall>k r k'. os_now os k = (r, k') \<longrightarrow> armed k' = armed k)"

lemma now_ok: "now os k = Inr (t, k') \<longleftrightarrow> os_now os k = (Inr t, k')"
  by (auto simp: now_def split: prod.splits sum.splits)

lemma refreshClock_ok: "refreshClock os q k = Inr k' \<longleftrightarrow> os_settime os (tq_timeFd q) (clock_target q) k = (Inr (), k')"
  by (cases "os_settime os (tq_timeFd q) (clock_target q) k"; cases "fst (os_settime os (tq_timeFd q) (clock_target q) k)")
    (auto simp: refreshClock_def)

subsection \<open>The operations keep the invariant\<close>

definition new_timer :: "timespec \<Rightarrow> int \<Rightarrow> 'cb \<Rightarrow> 'cb timer" where
  "new_timer t i cb = \<lparr>tm_id = i, tm_expiration = t\<lparr>tv_sec := tv_sec t + 60\<rparr>, tm_callBack = cb\<rparr>"

lemma timerq_addTimer_ok:
  assumes "timerq_addTimer os cb q k = Inr (i, q', k')" and "timers_wf q"
  obtains t k1 where "os_now os k = (Inr t, k1)" "i = tq_timerId q + 1" "tq_timerId q < INT_MAX"
    "q' = q\<lparr>tq_timerId := i, tq_timers := tq_timers q @ [(i, new_timer t i cb)]\<rparr>"
    "refreshClock os q' k1 = Inr k'"
proof -
  have "\<forall>k \<in> fst ` set (tq_timers q). k < tq_timerId q + 1" "map_wf (tq_timers q)"
    using assms(2) by (auto simp: timers_wf_def)
  then have "map_put (tq_timerId q + 1) v (tq_timers q) = tq_timers q @ [(tq_timerId q + 1, v)]" for v
    by (intro tmap.entries_put_above)
  then show ?thesis
    using assms that
    by (auto simp: timerq_addTimer_def ebind_eq_Inr Let_def now_ok new_timer_def timers_wf_def split: if_splits)
qed

lemma timerq_deleteTimer_ok:
  assumes "timerq_deleteTimer os i q k = Inr (q', k')" and "timers_wf q"
  shows "q' = q\<lparr>tq_timers := filter (\<lambda>x. fst x \<noteq> i) (tq_timers q)\<rparr>"
    and "q' = q \<and> k' = k \<or> refreshClock os q' k = Inr k'"
proof -
  have "map_of (tq_timers q) i = None \<Longrightarrow> filter (\<lambda>x. fst x \<noteq> i) (tq_timers q) = tq_timers q"
    by (auto simp: map_of_eq_None_iff intro!: filter_True)
  with assms show "q' = q\<lparr>tq_timers := filter (\<lambda>x. fst x \<noteq> i) (tq_timers q)\<rparr>"
    "q' = q \<and> k' = k \<or> refreshClock os q' k = Inr k'"
    by (auto simp: timerq_deleteTimer_def ebind_eq_Inr Let_def map_erase_def split: if_splits)
qed

lemma timers_wf_erase: "timers_wf q \<Longrightarrow> timers_wf (q\<lparr>tq_timers := filter P (tq_timers q)\<rparr>)"
  using sorted_wrt_filter[of "\<lambda>x y. fst x < fst y" _ P]
  by (auto simp: timers_wf_def map_wf_def sorted_wrt_map)

lemma timers_ordered_erase: "timers_ordered q \<Longrightarrow> timers_ordered (q\<lparr>tq_timers := filter P (tq_timers q)\<rparr>)"
  using sorted_wrt_filter[of "\<lambda>x y. time_le (tm_expiration (snd x)) (tm_expiration (snd y))" _ P]
  by (simp add: timers_ordered_def sorted_wrt_map)

lemma timers_wf_add:
  "timers_wf q \<Longrightarrow> tq_timerId q < INT_MAX \<Longrightarrow> i = tq_timerId q + 1 \<Longrightarrow>
   timers_wf (q\<lparr>tq_timerId := i, tq_timers := tq_timers q @ [(i, new_timer t i cb)]\<rparr>)"
  by (auto simp: timers_wf_def map_wf_def sorted_wrt_append new_timer_def)

lemma timers_ordered_add:
  "timers_ordered q \<Longrightarrow> expires_by t q \<Longrightarrow>
   timers_ordered (q\<lparr>tq_timerId := i, tq_timers := tq_timers q @ [(i, new_timer t i cb)]\<rparr>)"
  by (auto simp: timers_ordered_def sorted_wrt_append new_timer_def expires_by_def)

text \<open>The histories of a timer queue: its own operations, erasures after firing, and time passing.\<close>

inductive tq_reach ::
  "'k os \<Rightarrow> ('k \<Rightarrow> timespec) \<Rightarrow> ('k \<Rightarrow> int \<Rightarrow> timespec) \<Rightarrow> 'cb timerq \<Rightarrow> 'k \<Rightarrow> bool" for os tm armed where
  new: "TimerQueue_new os ep k0 = Inr (q, k) \<Longrightarrow> armed k (tq_timeFd q) = ts_zero \<Longrightarrow> tq_reach os tm armed q k"
| add: "tq_reach os tm armed q k \<Longrightarrow> timerq_addTimer os cb q k = Inr (i, q', k') \<Longrightarrow> tq_reach os tm armed q' k'"
| delete: "tq_reach os tm armed q k \<Longrightarrow> timerq_deleteTimer os i q k = Inr (q', k') \<Longrightarrow> tq_reach os tm armed q' k'"
| fired: "tq_reach os tm armed q k \<Longrightarrow> q' = q\<lparr>tq_timers := filter P (tq_timers q)\<rparr> \<Longrightarrow>
    refreshClock os q' k = Inr k' \<Longrightarrow> tq_reach os tm armed q' k'"
| elapse: "tq_reach os tm armed q k \<Longrightarrow> time_le (tm k) (tm k') \<Longrightarrow> armed k' = armed k \<Longrightarrow> tq_reach os tm armed q k'"

definition tq_inv :: "('k \<Rightarrow> timespec) \<Rightarrow> ('k \<Rightarrow> int \<Rightarrow> timespec) \<Rightarrow> 'cb timerq \<Rightarrow> 'k \<Rightarrow> bool" where
  "tq_inv tm armed q k \<longleftrightarrow>
     timers_wf q \<and> timers_ordered q \<and> expires_by (tm k) q \<and> armed k (tq_timeFd q) = clock_target q"

lemma refreshClock_effect:
  assumes "clock_monotone os tm" "settime_spec os armed" "refreshClock os q k = Inr k'"
  shows "armed k' (tq_timeFd q) = clock_target q" "time_le (tm k) (tm k')"
  using assms unfolding refreshClock_ok clock_monotone_def settime_spec_def by metis+

lemma tq_inv_refresh:
  assumes "clock_monotone os tm" "settime_spec os armed" "refreshClock os q k = Inr k'"
    and "timers_wf q" "timers_ordered q" "expires_by (tm k) q"
  shows "tq_inv tm armed q k'"
  using refreshClock_effect[OF assms(1-3)] assms(4-6) expires_by_mono unfolding tq_inv_def by blast

lemma expires_by_erase: "expires_by t q \<Longrightarrow> expires_by t (q\<lparr>tq_timers := filter P (tq_timers q)\<rparr>)"
  by (simp add: expires_by_def)

lemma tq_reach_inv:
  assumes "clock_monotone os tm" "settime_spec os armed"
  shows "tq_reach os tm armed q k \<Longrightarrow> tq_inv tm armed q k"
proof (induction rule: tq_reach.induct)
  case (new ep k0 q k)
  then show ?case
    by (auto simp: TimerQueue_new_def tq_inv_def timers_wf_def timers_ordered_def expires_by_def map_wf_def
        clock_target_def INT_MAX_def ebind_eq_Inr split: prod.splits sum.splits)
next
  case (add q k cb i q' k')
  then have inv: "timers_wf q" "timers_ordered q" "expires_by (tm k) q"
    by (simp_all add: tq_inv_def)
  from add(2) inv(1) obtain t k1 where *: "os_now os k = (Inr t, k1)" "i = tq_timerId q + 1" "tq_timerId q < INT_MAX"
      "q' = q\<lparr>tq_timerId := i, tq_timers := tq_timers q @ [(i, new_timer t i cb)]\<rparr>" "refreshClock os q' k1 = Inr k'"
    by (rule timerq_addTimer_ok)
  have t: "time_le (tm k) t" "time_le t (tm k1)"
    using assms(1) *(1) by (auto simp: clock_monotone_def)
  have e: "expires_by t q"
    using inv(3) t(1) by (rule expires_by_mono)
  then have "expires_by t q'"
    by (auto simp: *(4) expires_by_def new_timer_def)
  then have "expires_by (tm k1) q'"
    using t(2) by (rule expires_by_mono)
  moreover have "timers_wf q'" "timers_ordered q'"
    using inv * e by (simp_all add: timers_wf_add timers_ordered_add)
  ultimately show ?case
    using tq_inv_refresh[OF assms *(5)] by blast
next
  case (delete q k i q' k')
  then have "timers_wf q" "timers_ordered q" "expires_by (tm k) q"
    by (simp_all add: tq_inv_def)
  then have "timers_wf q'" "timers_ordered q'" "expires_by (tm k) q'"
    using timerq_deleteTimer_ok(1)[OF delete(2)] timers_wf_erase timers_ordered_erase expires_by_erase by metis+
  then show ?case
    using timerq_deleteTimer_ok(2)[OF delete(2)] delete(3) tq_inv_refresh[OF assms] unfolding tq_inv_def by metis
next
  case (fired q k q' P k')
  then show ?case
    by (intro tq_inv_refresh[OF assms fired(3)])
      (simp_all add: tq_inv_def timers_wf_erase timers_ordered_erase expires_by_erase)
next
  case (elapse q k k')
  then show ?case
    using expires_by_mono by (auto simp: tq_inv_def)
qed

lemma dropWhile_eq_filter:
  "sorted_wrt R xs \<Longrightarrow> (\<And>x y. R x y \<Longrightarrow> P y \<Longrightarrow> P x) \<Longrightarrow> dropWhile P xs = filter (\<lambda>x. \<not> P x) xs"
proof (induction xs)
  case (Cons x xs)
  then show ?case
    by (cases "P x") (auto intro!: filter_True[symmetric])
qed simp

lemma ordered_phases:
  assumes "timers_ordered q"
  shows "takeWhile (expired t) (tq_timers q) = filter (expired t) (tq_timers q)"
    "dropWhile (expired t) (tq_timers q) = filter (\<lambda>x. \<not> expired t x) (tq_timers q)"
proof -
  let ?R = "\<lambda>x y. time_le (tm_expiration (snd x)) (tm_expiration (snd y))"
  have R: "sorted_wrt ?R (tq_timers q)" "\<And>x y. ?R x y \<Longrightarrow> expired t y \<Longrightarrow> expired t x"
    using assms by (auto simp: timers_ordered_def sorted_wrt_map expired_def time_le_def ts_less_def)
  show "takeWhile (expired t) (tq_timers q) = filter (expired t) (tq_timers q)"
    using R by (rule takeWhile_eq_filter)
  show "dropWhile (expired t) (tq_timers q) = filter (\<lambda>x. \<not> expired t x) (tq_timers q)"
    using R by (rule dropWhile_eq_filter)
qed

lemma ordered_scan:
  "timers_ordered q \<Longrightarrow> dyingTimers t (tq_timers q) = map fst (filter (expired t) (tq_timers q))"
  by (simp add: dyingTimers_def ordered_phases)

lemma ordered_target:
  "timers_ordered q \<Longrightarrow> x \<in> set (tq_timers q) \<Longrightarrow> time_le (clock_target q) (tm_expiration (snd x))"
  by (cases "tq_timers q") (auto simp: timers_ordered_def clock_target_def)

subsection \<open>Firing\<close>

definition drop_timer :: "int \<Rightarrow> ('cb, 'k, 'z) world_scheme \<Rightarrow> ('cb, 'k, 'z) world_scheme" where
  "drop_timer i s = s\<lparr>tq := (tq s)\<lparr>tq_timers := map_erase i (tq_timers (tq s))\<rparr>\<rparr>"

text \<open>
  What a timer callback may do to the queue: leave it alone, or erase its own timer, which is what
  \<open>handleDead\<close> does through \<open>deleteTimer\<close>.
\<close>

definition own_timer_only :: "('cb \<Rightarrow> ('cb, 'k, 'z) world_scheme \<Rightarrow> ('cb, 'k, 'z) world_scheme) \<Rightarrow> bool" where
  "own_timer_only cbf \<longleftrightarrow>
     (\<forall>cb s. tq_timers (tq (cbf cb s)) = tq_timers (tq s) \<or>
             tq_timers (tq (cbf cb s)) = filter (\<lambda>x. tm_callBack (snd x) \<noteq> cb) (tq_timers (tq s)))"

lemma filter_own:
  assumes "distinct (map fst (x # xs))" and "distinct (map (\<lambda>x. tm_callBack (snd x)) (x # xs))"
  shows "map_erase (fst x) (filter (\<lambda>y. tm_callBack (snd y) \<noteq> tm_callBack (snd x)) (x # xs)) = xs"
    "map_erase (fst x) (x # xs) = xs"
proof -
  have "\<forall>y \<in> set xs. fst y \<noteq> fst x \<and> tm_callBack (snd y) \<noteq> tm_callBack (snd x)"
    using assms by (auto simp: image_iff)
  then show "map_erase (fst x) (filter (\<lambda>y. tm_callBack (snd y) \<noteq> tm_callBack (snd x)) (x # xs)) = xs"
    "map_erase (fst x) (x # xs) = xs"
    by (auto simp: map_erase_def intro!: filter_True)
qed

lemma fire_timers_runs:
  assumes "own_timer_only cbf" and "\<And>cb s. run cb s = ret (cbf cb s)"
    and "tq_timers (tq s) = xs @ ys" and "distinct (map fst (xs @ ys))"
    and "distinct (map (\<lambda>x. tm_callBack (snd x)) (xs @ ys))"
  defines "s' \<equiv> fold (\<lambda>(i, tm) s. drop_timer i (cbf (tm_callBack tm) s)) xs s"
  shows "fire_timers run (map fst xs) s = ret s' \<and> tq_timers (tq s') = ys"
  using assms(3-5) unfolding s'_def
proof (induction xs arbitrary: s)
  case (Cons x xs)
  obtain i tm where x: "x = (i, tm)" by fastforce
  let ?s = "drop_timer i (cbf (tm_callBack tm) s)"
  have own: "tq_timers (tq (cbf (tm_callBack tm) s)) = x # (xs @ ys) \<or>
      tq_timers (tq (cbf (tm_callBack tm) s)) =
        filter (\<lambda>y. tm_callBack (snd y) \<noteq> tm_callBack (snd x)) (x # (xs @ ys))"
    using assms(1) Cons.prems(1) x unfolding own_timer_only_def by (metis append_Cons snd_conv)
  have "tq_timers (tq ?s) = map_erase (fst x) (tq_timers (tq (cbf (tm_callBack tm) s)))"
    by (simp add: drop_timer_def x)
  then have "tq_timers (tq ?s) = xs @ ys"
    using own filter_own[of x "xs @ ys"] Cons.prems(2,3) by (metis append_Cons)
  with Cons.IH[of ?s] Cons.prems show ?case
    by (simp add: x assms(2) drop_timer_def)
qed simp

text \<open>
  C28. A timer queue that was built by \<open>TimerQueue\<close> and changed by its own operations, on a clock
  that never goes back, always has its ids in ascending order, each timer under its own id; its
  expiry times ascend with the ids, so the scan of \<open>handleRead\<close>, which stops at the first timer
  that has not expired, finds exactly the expired ones; and the timerfd is armed at the earliest
  expiry, or disarmed when there is no timer.
\<close>

theorem timer_queue_invariant:
  assumes "clock_monotone os tm" and "settime_spec os armed" and "tq_reach os tm armed q k"
  shows "sorted_wrt (<) (map fst (tq_timers q)) \<and> (\<forall>(i, x) \<in> set (tq_timers q). tm_id x = i) \<and>
     dyingTimers t (tq_timers q) = map fst (filter (expired t) (tq_timers q)) \<and>
     armed k (tq_timeFd q) = clock_target q \<and>
     (\<forall>x \<in> set (tq_timers q). time_le (clock_target q) (tm_expiration (snd x)))"
proof -
  have inv: "timers_wf q" "timers_ordered q" "armed k (tq_timeFd q) = clock_target q"
    using tq_reach_inv[OF assms] by (simp_all add: tq_inv_def)
  then show ?thesis
    using ordered_scan ordered_target by (auto simp: timers_wf_def map_wf_def)
qed

text \<open>A scripted kernel whose clock moves one second with each reading.\<close>

definition sk_time :: "skern \<Rightarrow> timespec" where
  "sk_time k = (case sk_clock k of [] \<Rightarrow> ts_zero | t # ts \<Rightarrow> t)"

definition clock_os :: "skern os" where
  "clock_os = sos\<lparr>os_now := (\<lambda>k. (Inr (sk_time k), k\<lparr>sk_clock := [(sk_time k)\<lparr>tv_sec := tv_sec (sk_time k) + 1\<rparr>]\<rparr>))\<rparr>"

definition sk_armed_at :: "skern \<Rightarrow> int \<Rightarrow> timespec" where
  "sk_armed_at k fd = sk_armed k"

lemma clock_os_simps [simp]:
  "os_settime clock_os fd t k = (Inr (), k\<lparr>sk_armed := t\<rparr>)"
  "os_now clock_os k = (Inr (sk_time k), k\<lparr>sk_clock := [(sk_time k)\<lparr>tv_sec := tv_sec (sk_time k) + 1\<rparr>]\<rparr>)"
  "os_timerfd clock_os = sk_new_fd" "os_epoll_ctl clock_os = sk_epoll_ctl"
  "os_read8 clock_os fd k = (Inr 8, k)"
  by (simp_all add: clock_os_def)

lemma sk_time_updates [simp]: "sk_time (k\<lparr>sk_clock := [t]\<rparr>) = t" "sk_time (k\<lparr>sk_armed := u\<rparr>) = sk_time k"
  by (simp_all add: sk_time_def)

lemma clock_os_monotone: "clock_monotone clock_os sk_time"
  by (simp add: clock_monotone_def sk_time_def time_le_def ts_less_def split: list.split)

lemma clock_os_settime: "settime_spec clock_os sk_armed_at"
  by (auto simp: settime_spec_def sk_armed_at_def fun_eq_iff)

lemma clock_os_add:
  assumes "map_wf (tq_timers q)" and "\<forall>x \<in> set (tq_timers q). fst x < tq_timerId q + 1" and "tq_timerId q \<noteq> INT_MAX"
  shows "\<exists>k'. timerq_addTimer clock_os cb q k = Inr (tq_timerId q + 1, q\<lparr>tq_timerId := tq_timerId q + 1,
      tq_timers := tq_timers q @ [(tq_timerId q + 1, new_timer (sk_time k) (tq_timerId q + 1) cb)]\<rparr>, k') \<and>
    sk_time k' = (sk_time k)\<lparr>tv_sec := tv_sec (sk_time k) + 1\<rparr>"
proof -
  have "map_put (tq_timerId q + 1) v (tq_timers q) = tq_timers q @ [(tq_timerId q + 1, v)]" for v
    using assms by (intro tmap.entries_put_above) auto
  then show ?thesis
    using assms(3) by (simp add: timerq_addTimer_def now_def refreshClock_def new_timer_def Let_def)
qed

abbreviation demo_queue :: "int \<Rightarrow> (int \<times> nat timer) list \<Rightarrow> nat timerq" where
  "demo_queue n ts \<equiv> \<lparr>tq_timerId = n, tq_timeFd = 3, tq_chan = (Channel_new 3)\<lparr>ch_events := EPOLLIN OR EPOLLET, ch_inEpoll := True\<rparr>,
     tq_timers = ts\<rparr>"

definition secs :: "int \<Rightarrow> timespec" where
  "secs n = \<lparr>tv_sec = n, tv_nsec = 0\<rparr>"

lemma tq_reach_demo:
  "\<exists>k. tq_reach clock_os sk_time sk_armed_at (demo_queue 3 [(1, new_timer (secs 0) 1 7), (3, new_timer (secs 2) 3 9)]) k"
proof -
  let ?t1 = "(1, new_timer (secs 0) 1 7)" and ?t2 = "(2, new_timer (secs 1) 2 8)" and ?t3 = "(3, new_timer (secs 2) 3 9)"
  obtain k0 where 0: "TimerQueue_new clock_os 4 skern0 = Inr (demo_queue 0 [], k0)" "sk_time k0 = secs 0" "sk_armed k0 = ts_zero"
    by (simp add: TimerQueue_new_def skern0_def sk_new_fd_def enableReading_def epoll_updateChannel_def sk_epoll_ctl_def
        Channel_new_def sk_time_def secs_def ts_zero_def)
  have r0: "tq_reach clock_os sk_time sk_armed_at (demo_queue 0 []) k0"
    by (rule tq_reach.new[OF 0(1)]) (simp add: 0(3) sk_armed_at_def)
  obtain k1 where 1: "timerq_addTimer clock_os 7 (demo_queue 0 []) k0 = Inr (1, demo_queue 1 [?t1], k1)" "sk_time k1 = secs 1"
    using clock_os_add[of "demo_queue 0 []" 7 k0] 0(2) by (auto simp: map_wf_def INT_MAX_def secs_def)
  obtain k2 where 2: "timerq_addTimer clock_os 8 (demo_queue 1 [?t1]) k1 = Inr (2, demo_queue 2 [?t1, ?t2], k2)" "sk_time k2 = secs 2"
    using clock_os_add[of "demo_queue 1 [?t1]" 8 k1] 1(2) by (auto simp: map_wf_def INT_MAX_def secs_def)
  obtain k3 where 3: "timerq_addTimer clock_os 9 (demo_queue 2 [?t1, ?t2]) k2 = Inr (3, demo_queue 3 [?t1, ?t2, ?t3], k3)"
    using clock_os_add[of "demo_queue 2 [?t1, ?t2]" 9 k2] 2(2) by (auto simp: map_wf_def INT_MAX_def secs_def)
  obtain k4 where 4: "timerq_deleteTimer clock_os 2 (demo_queue 3 [?t1, ?t2, ?t3]) k3 = Inr (demo_queue 3 [?t1, ?t3], k4)"
    by (simp add: timerq_deleteTimer_def refreshClock_def map_erase_def Let_def)
  show ?thesis
    using tq_reach.add[OF tq_reach.add[OF tq_reach.add[OF r0 1(1)] 2(1)] 3(1)] 4 by (blast intro: tq_reach.delete)
qed

theorem timer_queue_invariant_witness:
  "\<exists>k. let q = demo_queue 3 [(1, new_timer (secs 0) 1 7), (3, new_timer (secs 2) 3 9)] in
     tq_reach clock_os sk_time sk_armed_at q k \<and>
     dyingTimers (secs 61) (tq_timers q) = map fst (filter (expired (secs 61)) (tq_timers q)) \<and>
     sk_armed_at k (tq_timeFd q) = clock_target q"
  unfolding Let_def using timer_queue_invariant[OF clock_os_monotone clock_os_settime] tq_reach_demo by metis

text \<open>
  C29. \<open>addTimer\<close>, step by step: it exits when the clock cannot be read, is undefined when the
  counter is at \<open>INT_MAX\<close>, and otherwise returns an id above every id in use, appends one timer
  that expires 60 seconds after the reading, leaves the other timers alone and arms the timerfd
  at the first timer; deleting that id at once gives back the same timers.
\<close>

theorem addTimer_behaviour:
  assumes "timers_wf q"
  shows "(case os_now os k of
       (Inl e, k1) \<Rightarrow> timerq_addTimer os cb q k = Inl (Exit ''time get error'')
     | (Inr t, k1) \<Rightarrow>
         (if tq_timerId q = INT_MAX then timerq_addTimer os cb q k = Inl (Undefined ''signed overflow'')
          else
            let i = tq_timerId q + 1;
                q' = q\<lparr>tq_timerId := i, tq_timers := tq_timers q @ [(i, new_timer t i cb)]\<rparr> in
            (\<forall>x \<in> set (tq_timers q). fst x < i) \<and> timers_wf q' \<and> map_erase i (tq_timers q') = tq_timers q \<and>
            timerq_addTimer os cb q k =
              (case os_settime os (tq_timeFd q) (clock_target q') k1 of
                 (Inl e, k2) \<Rightarrow> Inl (Exit ''timeFd refresh error'')
               | (Inr u, k2) \<Rightarrow> Inr (i, q', k2))))"
proof -
  have below: "\<forall>x \<in> set (tq_timers q). fst x < tq_timerId q + 1"
    using assms by (auto simp: timers_wf_def)
  then have put: "map_put (tq_timerId q + 1) v (tq_timers q) = tq_timers q @ [(tq_timerId q + 1, v)]" for v
    using assms by (intro tmap.entries_put_above) (auto simp: timers_wf_def)
  have erase: "map_erase (tq_timerId q + 1) (tq_timers q @ [(tq_timerId q + 1, v)]) = tq_timers q" for v
    using below by (auto simp: map_erase_def intro!: filter_True)
  have "tq_timerId q < INT_MAX" if "tq_timerId q \<noteq> INT_MAX"
    using assms that by (simp add: timers_wf_def)
  with below put erase timers_wf_add[OF assms] show ?thesis
    by (simp add: timerq_addTimer_def now_def refreshClock_def Let_def new_timer_def split: prod.splits sum.splits)
qed

theorem addTimer_behaviour_witness:
  "timerq_addTimer sos (5::nat) \<lparr>tq_timerId = INT_MAX, tq_timeFd = 3, tq_chan = Channel_new 3, tq_timers = []\<rparr> skern0 =
     Inl (Undefined ''signed overflow'')"
  using addTimer_behaviour[where os = sos and k = skern0 and cb = "5::nat" and
      q = "\<lparr>tq_timerId = INT_MAX, tq_timeFd = 3, tq_chan = Channel_new 3, tq_timers = []\<rparr>"]
  by (simp add: timers_wf_def map_wf_def INT_MAX_def sk_now_def skern0_def)


text \<open>A callback that logs itself and erases its own timer, on a queue with one expired timer.\<close>

definition log_cb :: "nat \<Rightarrow> (nat, skern, 'z) world_scheme \<Rightarrow> (nat, skern, 'z) world_scheme" where
  "log_cb cb s =
     s\<lparr>kern := (kern s)\<lparr>sk_sent := sk_sent (kern s) @ [char_of cb]\<rparr>,
       tq := (tq s)\<lparr>tq_timers := filter (\<lambda>x. tm_callBack (snd x) \<noteq> cb) (tq_timers (tq s))\<rparr>\<rparr>"

lemma log_cb_own: "own_timer_only log_cb"
  by (simp add: own_timer_only_def log_cb_def)

definition demo_world :: "(nat, skern) world" where
  "demo_world = \<lparr>kern = skern0\<lparr>sk_clock := [secs 61]\<rparr>, epfd = 4,
     tq = demo_queue 3 [(1, new_timer (secs 0) 1 71), (3, new_timer (secs 2) 3 72)]\<rparr>"


end
