(* ===== verification/EventLoop.thy ===== *)
theory EventLoop
  imports TimerQueue
begin

section \<open>EventLoop: one thread, its channels, its timers and its task queue\<close>

text \<open>
  Models \<open>class EventLoop\<close> (include/EventLoop.h, src/server/EventLoop.cpp). The loop is generic in
  what its owner registers: the handler of the owner's channels, the effect of a timer callback,
  the effect of a queued task. SubReactor.thy and MainReactor.thy plug in theirs. Other threads
  reach a loop only through \<open>enqueueTask\<close>; the last section models that race.
\<close>

subsection \<open>State\<close>

text \<open>
  \<open>'t\<close> is the type of queued tasks, \<open>lp_fd\<close> the eventfd and \<open>lp_chan\<close> its channel. The descriptor
  of the eventfd never leaves its loop, so the state of the kernel object behind it is kept here:
  \<open>lp_signal\<close> says that its counter is not zero, that is, it has been written since it was last read.
\<close>

record ('cb, 'k, 't) eloop = "('cb, 'k) world" +
  lp_tasks :: "'t list"
  lp_stop :: bool
  lp_fd :: int
  lp_chan :: channel
  lp_signal :: bool

definition EventLoop_new :: "'k os \<Rightarrow> 'k \<Rightarrow> ('cb, 'k, 't) eloop outcome" where
  "EventLoop_new os k =
     (case os_eventfd os k of
        (Inl e, k1) \<Rightarrow> Inl (Exit ''eloopFd create error'')
      | (Inr fd, k1) \<Rightarrow>
          ebind (Epoll_new os k1) (\<lambda>(ep, k2).
          ebind (enableReading os ep EloopChan (Channel_new fd) k2) (\<lambda>(c, k3).
          ebind (TimerQueue_new os ep k3) (\<lambda>(q, k4).
            Inr \<lparr>kern = k4, epfd = ep, tq = q, lp_tasks = [], lp_stop = False, lp_fd = fd, lp_chan = c,
              lp_signal = False\<rparr>))))"

definition EventLoop_delete :: "'k os \<Rightarrow> ('cb, 'k, 't, 'z) eloop_scheme \<Rightarrow> ('cb, 'k, 't, 'z) eloop_scheme" where
  "EventLoop_delete os s =
     (let k1 = TimerQueue_delete os (tq s) (kern s);
          (ep, k2) = Epoll_delete os (epfd s) k1
      in s\<lparr>kern := os_close os (lp_fd s) k2, epfd := ep\<rparr>)"

subsection \<open>Operations\<close>

text \<open>
  \<open>enqueueTask\<close> pushes under the lock and then writes to the eventfd, which makes it readable; reading
  it, also in vain, leaves it empty.
\<close>

definition push_task :: "'t \<Rightarrow> ('cb, 'k, 't, 'z) eloop_scheme \<Rightarrow> ('cb, 'k, 't, 'z) eloop_scheme" where
  "push_task t s = s\<lparr>lp_tasks := lp_tasks s @ [t]\<rparr>"

definition wakeup_write :: "'k os \<Rightarrow> ('cb, 'k, 't, 'z) eloop_scheme \<Rightarrow> ('cb, 'k, 't, 'z) eloop_scheme outcome" where
  "wakeup_write os s =
     (case os_write8 os (lp_fd s) (kern s) of
        (r, k) \<Rightarrow> ebind (errif (failed r) ''eloopFd write error'') (\<lambda>_. Inr (s\<lparr>kern := k, lp_signal := True\<rparr>)))"

definition enqueueTask ::
  "'k os \<Rightarrow> 't \<Rightarrow> ('cb, 'k, 't, 'z) eloop_scheme \<Rightarrow> ('cb, 'k, 't, 'z) eloop_scheme outcome" where
  "enqueueTask os t s = (if lp_stop s then Inr s else wakeup_write os (push_task t s))"

definition readCallback :: "'k os \<Rightarrow> ('cb, 'k, 't, 'z) eloop_scheme \<Rightarrow> ('cb, 'k, 't, 'z) eloop_scheme res" where
  "readCallback os s = rbind (drain_counter os (lp_fd s) (kern s)) (\<lambda>(go, k). ret (s\<lparr>kern := k, lp_signal := False\<rparr>))"

definition stopLoop :: "'k os \<Rightarrow> ('cb, 'k, 't, 'z) eloop_scheme \<Rightarrow> ('cb, 'k, 't, 'z) eloop_scheme outcome" where
  "stopLoop os s =
     ebind (timerq_stop os (epfd s) (tq s) (kern s)) (\<lambda>(q, k). Inr (s\<lparr>tq := q, kern := k, lp_stop := True\<rparr>))"

definition addTimer ::
  "'k os \<Rightarrow> 'cb \<Rightarrow> ('cb, 'k, 't, 'z) eloop_scheme \<Rightarrow> (int \<times> ('cb, 'k, 't, 'z) eloop_scheme) outcome" where
  "addTimer os cb s =
     ebind (timerq_addTimer os cb (tq s) (kern s)) (\<lambda>(i, q, k). Inr (i, s\<lparr>tq := q, kern := k\<rparr>))"

definition deleteTimer ::
  "'k os \<Rightarrow> int \<Rightarrow> ('cb, 'k, 't, 'z) eloop_scheme \<Rightarrow> ('cb, 'k, 't, 'z) eloop_scheme outcome" where
  "deleteTimer os i s =
     ebind (timerq_deleteTimer os i (tq s) (kern s)) (\<lambda>(q, k). Inr (s\<lparr>tq := q, kern := k\<rparr>))"

subsection \<open>The loop\<close>

fun run_all :: "('a \<Rightarrow> 's \<Rightarrow> 's res) \<Rightarrow> 'a list \<Rightarrow> 's \<Rightarrow> 's res" where
  "run_all f [] s = ret s"
| "run_all f (x # xs) s = rbind (f x s) (run_all f xs)"

text \<open>The eventfd and timerfd channels have no write callback: calling the empty function throws.\<close>

definition no_callback :: "'s \<Rightarrow> 's res" where
  "no_callback s = fail (Throw ''bad_function_call'')"

text \<open>
  What the owner of a loop supplies: the handler of its channels, the timer callback and the
  tasks.
\<close>

record ('cb, 't, 's) owner =
  ow_channel :: "chan_id \<Rightarrow> 32 word \<Rightarrow> 's \<Rightarrow> 's res"
  ow_timer :: "'cb \<Rightarrow> 's \<Rightarrow> 's res"
  ow_task :: "'t \<Rightarrow> 's \<Rightarrow> 's res"

definition handle_channel ::
  "'k os \<Rightarrow> ('cb, 't, ('cb, 'k, 't, 'z) eloop_scheme) owner \<Rightarrow> chan_id \<times> 32 word \<Rightarrow>
   ('cb, 'k, 't, 'z) eloop_scheme \<Rightarrow> ('cb, 'k, 't, 'z) eloop_scheme res" where
  "handle_channel os ow ev =
     (case ev of
        (EloopChan, revents) \<Rightarrow> channel_handle (readCallback os) no_callback revents
      | (TimeChan, revents) \<Rightarrow> channel_handle (timerq_handleRead os (ow_timer ow)) no_callback revents
      | (c, revents) \<Rightarrow> ow_channel ow c revents)"

definition isTimeChannel :: "chan_id \<times> 32 word \<Rightarrow> bool" where
  "isTimeChannel ev \<longleftrightarrow> fst ev = TimeChan"

text \<open>What epoll sees of the eventfd: it is registered for reading and readable. The loop sleeps in \<open>poll\<close> otherwise.\<close>

definition signalled :: "('cb, 'k, 't, 'z) eloop_scheme \<Rightarrow> bool" where
  "signalled s \<longleftrightarrow> lp_signal s \<and> ch_inEpoll (lp_chan s) \<and> ch_events (lp_chan s) AND EPOLLIN \<noteq> 0"

definition asleep :: "'k os \<Rightarrow> ('cb, 'k, 't, 'z) eloop_scheme \<Rightarrow> bool" where
  "asleep os s \<longleftrightarrow> \<not> signalled s \<and> \<not> os_ready os (epfd s) (kern s)"

text \<open>
  One turn: every ready channel but the timer's, then the timer's, then the tasks that are in the
  queue at that moment; tasks enqueued by these wait for the next turn.
\<close>

definition loop_round ::
  "'k os \<Rightarrow> ('cb, 't, ('cb, 'k, 't, 'z) eloop_scheme) owner \<Rightarrow>
   ('cb, 'k, 't, 'z) eloop_scheme \<Rightarrow> ('cb, 'k, 't, 'z) eloop_scheme res" where
  "loop_round os ow s =
     rbind (epoll_poll os (epfd s) (signalled s) (kern s)) (\<lambda>(channels, k).
     rbind (run_all (handle_channel os ow) (filter (\<lambda>c. \<not> isTimeChannel c) channels) (s\<lparr>kern := k\<rparr>)) (\<lambda>s1.
     rbind (let time = filter isTimeChannel channels in
            if time \<noteq> [] then handle_channel os ow (last time) s1 else ret s1) (\<lambda>s2.
       run_all (ow_task ow) (lp_tasks s2) (s2\<lparr>lp_tasks := []\<rparr>))))"

partial_function (option) loop ::
  "'k os \<Rightarrow> ('cb, 't, ('cb, 'k, 't, 'z) eloop_scheme) owner \<Rightarrow>
   ('cb, 'k, 't, 'z) eloop_scheme \<Rightarrow> ('cb, 'k, 't, 'z) eloop_scheme res" where
  "loop os ow s = (if lp_stop s then ret s else rbind (loop_round os ow s) (\<lambda>s'. loop os ow s'))"

subsection \<open>Invariants of a loop\<close>

lemma runs_run_all:
  assumes "\<And>x s. x \<in> set xs \<Longrightarrow> P s \<Longrightarrow> runs F (f x s) P" and "P s"
  shows "runs F (run_all f xs s) P"
  using assms
proof (induction xs arbitrary: s)
  case (Cons x xs)
  then show ?case
    by (auto intro!: runs_bindI[where P = P])
qed simp

lemma run_all_append: "run_all f (xs @ ys) s = rbind (run_all f xs s) (run_all f ys)"
proof (induction xs arbitrary: s)
  case (Cons x xs)
  have "run_all f (xs @ ys) = (\<lambda>s. rbind (run_all f xs s) (run_all f ys))"
    using Cons.IH by blast
  then show ?case by (simp add: rbind_assoc)
qed simp

end
