(* ===== verification/LoopSteps.thy ===== *)
theory LoopSteps
  imports EventLoop
begin

section \<open>A loop among other threads\<close>

text \<open>
  \<open>loop_round\<close> of EventLoop.thy runs a turn without interruption. Here the turn is cut into the
  steps between which other threads can act on the loop: the poll, each channel, the swap of the
  task queue under its lock, each task. The other threads only enqueue: a push under the lock and,
  some time later, the write to the eventfd.
\<close>

subsection \<open>The steps of a turn\<close>

datatype 't phase = Poll | Events "(chan_id \<times> 32 word) list" | Tasks "'t list"

text \<open>The timer's channel comes last, whatever its place in the answer of epoll.\<close>

definition turn_order :: "(chan_id \<times> 32 word) list \<Rightarrow> (chan_id \<times> 32 word) list" where
  "turn_order chs = filter (\<lambda>c. \<not> isTimeChannel c) chs @
     (let time = filter isTimeChannel chs in if time = [] then [] else [last time])"

fun loop_next ::
  "'k os \<Rightarrow> ('cb, 't, ('cb, 'k, 't, 'z) eloop_scheme) owner \<Rightarrow>
   't phase \<times> ('cb, 'k, 't, 'z) eloop_scheme \<Rightarrow> ('t phase \<times> ('cb, 'k, 't, 'z) eloop_scheme) res" where
  "loop_next os ow (Poll, s) =
     rbind (epoll_poll os (epfd s) (signalled s) (kern s)) (\<lambda>(chs, k). ret (Events (turn_order chs), s\<lparr>kern := k\<rparr>))"
| "loop_next os ow (Events (e # es), s) = rbind (handle_channel os ow e s) (\<lambda>s'. ret (Events es, s'))"
| "loop_next os ow (Events [], s) = ret (Tasks (lp_tasks s), s\<lparr>lp_tasks := []\<rparr>)"
| "loop_next os ow (Tasks (t # ts), s) = rbind (ow_task ow t s) (\<lambda>s'. ret (Tasks ts, s'))"
| "loop_next os ow (Tasks [], s) = ret (Poll, s)"

text \<open>The loop thread stops before a poll when \<open>stop\<close> is set.\<close>

definition loop_ended :: "'t phase \<times> ('cb, 'k, 't, 'z) eloop_scheme \<Rightarrow> bool" where
  "loop_ended c \<longleftrightarrow> fst c = Poll \<and> lp_stop (snd c)"

definition loop_step ::
  "'k os \<Rightarrow> ('cb, 't, ('cb, 'k, 't, 'z) eloop_scheme) owner \<Rightarrow>
   't phase \<times> ('cb, 'k, 't, 'z) eloop_scheme \<Rightarrow> 't phase \<times> ('cb, 'k, 't, 'z) eloop_scheme \<Rightarrow> bool" where
  "loop_step os ow c c' \<longleftrightarrow> \<not> loop_ended c \<and> loop_next os ow c = ret c'"

text \<open>A loop that waits in \<open>epoll_wait\<close> makes no step of its own: another thread or the kernel has to wake it.\<close>

definition waits :: "'k os \<Rightarrow> 't phase \<times> ('cb, 'k, 't, 'z) eloop_scheme \<Rightarrow> bool" where
  "waits os c \<longleftrightarrow> fst c = Poll \<and> asleep os (snd c)"

lemma waits_simps [simp]:
  "waits os (Poll, s) \<longleftrightarrow> asleep os s" "\<not> waits os (Events es, s)" "\<not> waits os (Tasks ts, s)"
  by (simp_all add: waits_def)

lemma asleep_blocks: "asleep os s \<Longrightarrow> epoll_poll os (epfd s) (signalled s) (kern s) = None"
  by (subst epoll_poll.simps) (simp add: asleep_def)

lemma waits_blocks: "waits os c \<Longrightarrow> loop_next os ow c = None"
  by (cases c; cases "fst c") (simp_all add: asleep_blocks)

lemma step_not_waits: "loop_step os ow c c' \<Longrightarrow> \<not> waits os c"
  by (auto simp: loop_step_def waits_blocks)

abbreviation loop_steps ::
  "'k os \<Rightarrow> ('cb, 't, ('cb, 'k, 't, 'z) eloop_scheme) owner \<Rightarrow>
   't phase \<times> ('cb, 'k, 't, 'z) eloop_scheme \<Rightarrow> 't phase \<times> ('cb, 'k, 't, 'z) eloop_scheme \<Rightarrow> bool" where
  "loop_steps os ow \<equiv> (loop_step os ow)\<^sup>*\<^sup>*"

subsection \<open>The turn of the code is these steps in a row\<close>

lemma rbind_ret_right [simp]: "rbind m (\<lambda>x. ret x) = m"
  by (cases m) (auto simp: rbind_def split: sum.splits)

lemma run_all_turn_order:
  "rbind (run_all h (filter (\<lambda>c. \<not> isTimeChannel c) chs) s0) (\<lambda>s1.
     rbind (let time = filter isTimeChannel chs in if time \<noteq> [] then h (last time) s1 else ret s1) f) =
   rbind (run_all h (turn_order chs) s0) f"
  by (auto simp: turn_order_def run_all_append Let_def rbind_assoc fun_eq_iff
      intro!: arg_cong[where f = "rbind (run_all h (filter (\<lambda>c. \<not> isTimeChannel c) chs) s0)"])

lemma loop_round_order:
  "loop_round os ow s =
     rbind (epoll_poll os (epfd s) (signalled s) (kern s)) (\<lambda>(chs, k).
     rbind (run_all (handle_channel os ow) (turn_order chs) (s\<lparr>kern := k\<rparr>)) (\<lambda>s2.
       run_all (ow_task ow) (lp_tasks s2) (s2\<lparr>lp_tasks := []\<rparr>)))"
  unfolding loop_round_def run_all_turn_order ..

lemma events_steps: "run_all (handle_channel os ow) es s = ret s' \<Longrightarrow> loop_steps os ow (Events es, s) (Events [], s')"
proof (induction es arbitrary: s)
  case (Cons e es)
  then obtain s1 where "handle_channel os ow e s = ret s1" "run_all (handle_channel os ow) es s1 = ret s'"
    by (auto simp: rbind_eq_ret)
  then have "loop_step os ow (Events (e # es), s) (Events es, s1)" "loop_steps os ow (Events es, s1) (Events [], s')"
    by (simp add: loop_step_def loop_ended_def) (rule Cons.IH, fact)
  then show ?case
    by (rule converse_rtranclp_into_rtranclp)
qed simp

lemma tasks_steps: "run_all (ow_task ow) ts s = ret s' \<Longrightarrow> loop_steps os ow (Tasks ts, s) (Tasks [], s')"
proof (induction ts arbitrary: s)
  case (Cons t ts)
  then obtain s1 where "ow_task ow t s = ret s1" "run_all (ow_task ow) ts s1 = ret s'"
    by (auto simp: rbind_eq_ret)
  then have "loop_step os ow (Tasks (t # ts), s) (Tasks ts, s1)" "loop_steps os ow (Tasks ts, s1) (Tasks [], s')"
    by (simp add: loop_step_def loop_ended_def) (rule Cons.IH, fact)
  then show ?case
    by (rule converse_rtranclp_into_rtranclp)
qed simp

lemma round_steps:
  assumes "\<not> lp_stop s" and "loop_round os ow s = ret s'"
  shows "loop_steps os ow (Poll, s) (Poll, s')"
proof -
  obtain chs k s2 where poll: "epoll_poll os (epfd s) (signalled s) (kern s) = ret (chs, k)"
    and ev: "run_all (handle_channel os ow) (turn_order chs) (s\<lparr>kern := k\<rparr>) = ret s2"
    and ts: "run_all (ow_task ow) (lp_tasks s2) (s2\<lparr>lp_tasks := []\<rparr>) = ret s'"
    using assms(2) by (auto simp: loop_round_order rbind_eq_ret)
  have "loop_step os ow (Poll, s) (Events (turn_order chs), s\<lparr>kern := k\<rparr>)"
    using assms(1) poll by (simp add: loop_step_def loop_ended_def)
  also note events_steps[OF ev]
  also have "loop_step os ow (Events [], s2) (Tasks (lp_tasks s2), s2\<lparr>lp_tasks := []\<rparr>)"
    by (simp add: loop_step_def loop_ended_def)
  also note tasks_steps[OF ts]
  also have "loop_step os ow (Tasks [], s') (Poll, s')"
    by (simp add: loop_step_def loop_ended_def)
  finally show ?thesis .
qed

subsection \<open>The contract between a loop and its owner\<close>

fun pending :: "'t phase \<Rightarrow> 't list" where
  "pending (Tasks ts) = ts"
| "pending _ = []"

text \<open>
  \<open>inv ts s\<close> is the owner's invariant when the tasks \<open>ts\<close> of the current turn are still to run, and
  \<open>evs_ok es s\<close> says that the reports \<open>es\<close> of the last poll are still to be trusted. \<open>rely ts\<close> is
  what other threads may do between two steps while the tasks \<open>ts\<close> wait. Under these laws no step of the loop can go wrong, with
  the other threads in between.
\<close>

locale loop_client =
  fixes os :: "'k os"
    and ow :: "('cb, 't, ('cb, 'k, 't, 'z) eloop_scheme) owner"
    and F :: "fault set"
    and inv :: "'t list \<Rightarrow> ('cb, 'k, 't, 'z) eloop_scheme \<Rightarrow> bool"
    and evs_ok :: "(chan_id \<times> 32 word) list \<Rightarrow> ('cb, 'k, 't, 'z) eloop_scheme \<Rightarrow> bool"
    and rely :: "'t list \<Rightarrow> ('cb, 'k, 't, 'z) eloop_scheme \<Rightarrow> ('cb, 'k, 't, 'z) eloop_scheme \<Rightarrow> bool"
  assumes poll_keeps: "inv [] s \<Longrightarrow> \<not> asleep os s \<Longrightarrow> runs F (epoll_poll os (epfd s) (signalled s) (kern s))
      (\<lambda>(chs, k). inv [] (s\<lparr>kern := k\<rparr>) \<and> evs_ok (turn_order chs) (s\<lparr>kern := k\<rparr>))"
    and event_keeps: "inv [] s \<Longrightarrow> evs_ok (e # es) s \<Longrightarrow>
      runs F (handle_channel os ow e s) (\<lambda>s'. inv [] s' \<and> evs_ok es s')"
    and swap_keeps: "inv [] s \<Longrightarrow> inv (lp_tasks s) (s\<lparr>lp_tasks := []\<rparr>)"
    and task_keeps: "inv (t # ts) s \<Longrightarrow> runs F (ow_task ow t s) (inv ts)"
    and rely_keeps: "inv ts s \<Longrightarrow> rely ts s s' \<Longrightarrow> inv ts s'"
    and rely_events: "inv [] s \<Longrightarrow> evs_ok es s \<Longrightarrow> rely [] s s' \<Longrightarrow> evs_ok es s'"
begin

definition phase_ok :: "'t phase \<times> ('cb, 'k, 't, 'z) eloop_scheme \<Rightarrow> bool" where
  "phase_ok c = (case c of (Poll, s) \<Rightarrow> inv [] s | (Events es, s) \<Rightarrow> inv [] s \<and> evs_ok es s | (Tasks ts, s) \<Rightarrow> inv ts s)"

lemma phase_ok_simps [simp]:
  "phase_ok (Poll, s) \<longleftrightarrow> inv [] s" "phase_ok (Events es, s) \<longleftrightarrow> inv [] s \<and> evs_ok es s"
  "phase_ok (Tasks ts, s) \<longleftrightarrow> inv ts s"
  by (simp_all add: phase_ok_def)

lemma next_runs:
  assumes "phase_ok c" and "\<not> waits os c"
  shows "runs F (loop_next os ow c) phase_ok"
proof -
  obtain ph s where c: "c = (ph, s)" by fastforce
  show ?thesis
  proof (cases ph)
    case Poll
    with assms show ?thesis
      by (auto simp: c intro!: runs_bindI[OF poll_keeps])
  next
    case (Events es)
    then show ?thesis
      using assms swap_keeps by (cases es) (auto simp: c intro!: runs_bindI[OF event_keeps])
  next
    case (Tasks ts)
    then show ?thesis
      using assms by (cases ts) (auto simp: c intro!: runs_bindI[OF task_keeps])
  qed
qed

lemma step_keeps: "phase_ok c \<Longrightarrow> loop_step os ow c c' \<Longrightarrow> phase_ok c'"
  using next_runs[of c] step_not_waits[of os ow c c'] by (simp add: loop_step_def)

text \<open>Any number of steps of the loop and of the other threads.\<close>

definition any_step :: "'t phase \<times> ('cb, 'k, 't, 'z) eloop_scheme \<Rightarrow> 't phase \<times> ('cb, 'k, 't, 'z) eloop_scheme \<Rightarrow> bool" where
  "any_step c c' \<longleftrightarrow> loop_step os ow c c' \<or> (fst c' = fst c \<and> rely (pending (fst c)) (snd c) (snd c'))"

lemma any_step_keeps: "phase_ok c \<Longrightarrow> any_step c c' \<Longrightarrow> phase_ok c'"
  using step_keeps[of c c'] rely_keeps rely_events
  by (cases c; cases c'; cases "fst c") (auto simp: any_step_def)

lemma always_ok: "any_step\<^sup>*\<^sup>* c c' \<Longrightarrow> phase_ok c \<Longrightarrow> phase_ok c'"
  by (induction rule: rtranclp_induct) (auto intro: any_step_keeps)

lemma events_run: "inv [] s \<Longrightarrow> evs_ok es s \<Longrightarrow> runs F (run_all (handle_channel os ow) es s) (inv [])"
proof (induction es arbitrary: s)
  case (Cons e es)
  then show ?case
    by (auto intro!: runs_bindI[OF event_keeps])
qed simp

lemma tasks_run: "inv ts s \<Longrightarrow> runs F (run_all (ow_task ow) ts s) (inv [])"
proof (induction ts arbitrary: s)
  case (Cons t ts)
  then show ?case
    by (auto intro!: runs_bindI[OF task_keeps])
qed simp

lemma round_runs:
  assumes "inv [] s" and "\<not> asleep os s"
  shows "runs F (loop_round os ow s) (inv [])"
  unfolding loop_round_order
proof (rule runs_bindI[OF poll_keeps[OF assms]], clarify)
  fix chs k
  assume "inv [] (s\<lparr>kern := k\<rparr>)" "evs_ok (turn_order chs) (s\<lparr>kern := k\<rparr>)"
  from events_run[OF this]
  show "runs F (rbind (run_all (handle_channel os ow) (turn_order chs) (s\<lparr>kern := k\<rparr>))
      (\<lambda>s2. run_all (ow_task ow) (lp_tasks s2) (s2\<lparr>lp_tasks := []\<rparr>))) (inv [])"
    by (rule runs_bindI) (rule tasks_run[OF swap_keeps])
qed

end

end
