(* ===== verification/LoopInv.thy ===== *)
theory LoopInv
  imports EventLoop KernelLaws
begin

section \<open>What every event loop keeps\<close>

text \<open>
  The parts of an event loop that do not depend on its owner: the poll, the eventfd and its channel,
  the timerfd and its channel, starting and stopping.
\<close>

subsection \<open>Polling and draining\<close>

definition loop_faults :: "fault set" where
  "loop_faults = {Exit ''epoll wait error'', Exit ''eloopFd read error'', Exit ''time get error'', Exit ''timeFd refresh error''}"

lemma loop_faults_simps [simp]:
  "Exit ''epoll wait error'' \<in> loop_faults" "Exit ''eloopFd read error'' \<in> loop_faults"
  "Exit ''time get error'' \<in> loop_faults" "Exit ''timeFd refresh error'' \<in> loop_faults"
  by (simp_all add: loop_faults_def)

definition reported :: "'k registry \<Rightarrow> 'k \<Rightarrow> chan_id \<times> 32 word \<Rightarrow> bool" where
  "reported reg k = (\<lambda>(p, rev). \<exists>fd m. reg k fd = Some (p, m) \<and>
     (rev AND EPOLLIN \<noteq> 0 \<longrightarrow> m AND EPOLLIN \<noteq> 0) \<and> (rev AND EPOLLOUT \<noteq> 0 \<longrightarrow> m AND EPOLLOUT \<noteq> 0))"

lemma epoll_poll_runs:
  assumes "epoll_wait_spec os ep reg mu"
  shows "signal \<or> os_ready os ep k \<Longrightarrow> runs loop_faults (epoll_poll os ep signal k) (\<lambda>(chs, k'). reg k' = reg k \<and> distinct (map fst chs) \<and>
    (\<forall>x \<in> set chs. reported reg k x))"
proof (induction "mu k" arbitrary: k rule: less_induct)
  case less
  obtain r k' where w: "os_epoll_wait os ep MAX_EVENTS k = (r, k')"
    by fastforce
  note spec = assms[unfolded epoll_wait_spec_def, rule_format, OF w]
  show ?case
  proof (cases "r = Inl EINTR")
    case True
    then have "epoll_poll os ep signal k = epoll_poll os ep signal k'"
      using less.prems by (subst epoll_poll.simps) (auto simp: w)
    moreover have "mu k' < mu k" "signal \<or> os_ready os ep k'" and reg: "reg k' = reg k"
      using spec True less.prems by auto
    note less(1)[OF this(1,2)]
    moreover have "reported reg k' = reported reg k"
      using reg by (simp add: reported_def fun_eq_iff)
    ultimately show ?thesis
      using reg by simp
  next
    case False
    then show ?thesis
      using spec less.prems by (subst epoll_poll.simps) (auto simp: w reported_def split: sum.split)
  qed
qed

lemma drain_runs:
  assumes K: "kernel_ok os ep reg mu"
  shows "runs loop_faults (drain_counter os fd k) (\<lambda>(go, k'). reg k' = reg k \<and> mu k' \<le> mu k)"
proof (induction "mu k" arbitrary: k rule: less_induct)
  case less
  obtain r k' where r: "os_read8 os fd k = (r, k')"
    by fastforce
  note sup = supply_decreases(3)[OF K r]
  have reg: "reg k' = reg k"
    using K r unfolding kernel_ok_def reg_kept_def by (metis snd_conv)
  have again: "runs loop_faults (drain_counter os fd k') (\<lambda>(go, k''). reg k'' = reg k \<and> mu k'' \<le> mu k)"
    if "mu k' < mu k"
    by (rule runs_mono[OF less[OF that]]) (use that reg in auto)
  show ?case
    using sup again reg by (subst drain_counter.simps) (auto simp: r split: sum.split)
qed

lemma now_runs: "kernel_ok os ep reg mu \<Longrightarrow> runs loop_faults (Some (now os k)) (\<lambda>(t, k'). reg k' = reg k \<and> mu k' \<le> mu k)"
  using kernel_okD(8)[of os ep reg mu k] by (cases "os_now os k") (auto simp: now_def split: sum.split)

lemma refreshClock_runs:
  assumes "kernel_ok os ep reg mu" and "Exit ''timeFd refresh error'' \<in> F"
  shows "runs F (Some (refreshClock os q k)) (\<lambda>k'. reg k' = reg k \<and> mu k' \<le> mu k)"
  using assms(2) kernel_okD(7)[OF assms(1)]
  by (cases "os_settime os (tq_timeFd q) (clock_target q) k") (auto simp: refreshClock_def errif_def)

subsection \<open>Enqueueing\<close>

definition enqueued ::
  "'k registry \<Rightarrow> ('k \<Rightarrow> nat) \<Rightarrow> 't \<Rightarrow> ('cb, 'k, 't, 'z) eloop_scheme \<Rightarrow> ('cb, 'k, 't, 'z) eloop_scheme \<Rightarrow> bool" where
  "enqueued reg mu t s s' \<longleftrightarrow>
     (\<exists>k. s' = (push_task t s)\<lparr>kern := k, lp_signal := True\<rparr> \<and> reg k = reg (kern s) \<and> mu k \<le> mu (kern s)) \<or> lp_stop s \<and> s' = s"

lemma enqueueTask_runs:
  assumes K: "kernel_ok os ep reg mu" and "Exit ''eloopFd write error'' \<in> F"
  shows "runs F (Some (enqueueTask os t s)) (enqueued reg mu t s)"
  using kernel_okD(6)[OF K] assms(2)
  by (cases "os_write8 os (lp_fd s) (kern s)") (auto simp: enqueueTask_def wakeup_write_def push_task_def errif_def enqueued_def)

subsection \<open>The loop's own two channels\<close>

definition loop_inv :: "int \<Rightarrow> 'k registry \<Rightarrow> ('cb, 'k, 't, 'z) eloop_scheme \<Rightarrow> bool" where
  "loop_inv ep reg s \<longleftrightarrow> epfd s = ep \<and> timers_wf (tq s) \<and> lp_fd s \<noteq> tq_timeFd (tq s) \<and>
     ch_fd (lp_chan s) = lp_fd s \<and> synced reg EloopChan (lp_chan s) (kern s) \<and> ch_events (lp_chan s) AND EPOLLOUT = 0 \<and>
     ch_inEpoll (lp_chan s) \<and> ch_events (lp_chan s) AND EPOLLIN \<noteq> 0 \<and>
     ch_fd (tq_chan (tq s)) = tq_timeFd (tq s) \<and> synced reg TimeChan (tq_chan (tq s)) (kern s) \<and>
     ch_events (tq_chan (tq s)) AND EPOLLOUT = 0"

lemma loop_inv_signalled: "loop_inv ep reg s \<Longrightarrow> signalled s \<longleftrightarrow> lp_signal s"
  by (simp add: loop_inv_def signalled_def)

text \<open>
  What a loop's own tasks do to the eventfd: they never empty it, and if they enqueue anything they
  leave it readable, so that the next \<open>epoll_wait\<close> returns.
\<close>

definition rung :: "('cb, 'k, 't, 'z) eloop_scheme \<Rightarrow> ('cb, 'k, 't, 'z) eloop_scheme \<Rightarrow> bool" where
  "rung s s' \<longleftrightarrow> (lp_signal s \<longrightarrow> lp_signal s') \<and> (lp_tasks s' = lp_tasks s \<or> lp_signal s')"

lemma rung_same [simp]: "lp_signal s' = lp_signal s \<Longrightarrow> lp_tasks s' = lp_tasks s \<Longrightarrow> rung s s'"
  by (simp add: rung_def)

lemma rung_on [simp]: "lp_signal s' \<Longrightarrow> rung s s'"
  by (simp add: rung_def)

lemma rung_heap: "rung s t \<Longrightarrow> lp_signal s' = lp_signal t \<Longrightarrow> lp_tasks s' = lp_tasks t \<Longrightarrow> rung s s'"
  by (simp add: rung_def)

lemma rung_trans: "rung a b \<Longrightarrow> rung b c \<Longrightarrow> rung a c"
  by (auto simp: rung_def)

lemma synced_cong: "reg k' (ch_fd c) = reg k (ch_fd c) \<Longrightarrow> synced reg p c k' = synced reg p c k"
  by (simp add: synced_def)

lemma eloop_event:
  assumes K: "kernel_ok os ep reg mu" and e: "revents AND EPOLLOUT = 0"
  shows "runs loop_faults (handle_channel os ow (EloopChan, revents) s)
    (\<lambda>s'. \<exists>k b. s' = s\<lparr>kern := k, lp_signal := b\<rparr> \<and> reg k = reg (kern s) \<and> mu k \<le> mu (kern s))"
proof -
  let ?P = "\<lambda>s'. \<exists>k b. s' = s\<lparr>kern := k, lp_signal := b\<rparr> \<and> reg k = reg (kern s) \<and> mu k \<le> mu (kern s)"
  have "runs loop_faults (readCallback os s) ?P"
    unfolding readCallback_def by (rule runs_bindI[OF drain_runs[OF K]]) (fastforce intro!: exI)
  moreover have "?P s"
    by (rule exI[of _ "kern s"], rule exI[of _ "lp_signal s"]) simp
  moreover have "handle_channel os ow (EloopChan, revents) s = (if revents AND EPOLLIN \<noteq> 0 then readCallback os s else ret s)"
    using e by (simp add: handle_channel_def channel_handle_def rbind_ret)
  ultimately show ?thesis
    by simp
qed

text \<open>Without timers the timerfd's handler only drains and disarms.\<close>

lemma idle_time_event:
  assumes K: "kernel_ok os ep reg mu" and e: "revents AND EPOLLOUT = 0" and q: "tq_timers (tq s) = []"
  shows "runs loop_faults (handle_channel os ow (TimeChan, revents) s) (\<lambda>s'. \<exists>k. s' = s\<lparr>kern := k\<rparr> \<and> reg k = reg (kern s) \<and> mu k \<le> mu (kern s))"
proof -
  have fire: "fire_timers run (dyingTimers t (tq_timers (tq s))) s1 = ret s1" for run t s1
    by (simp add: dyingTimers_def q)
  have "runs loop_faults (timerq_handleRead os (ow_timer ow) s) (\<lambda>s'. \<exists>k. s' = s\<lparr>kern := k\<rparr> \<and> reg k = reg (kern s) \<and> mu k \<le> mu (kern s))"
    unfolding timerq_handleRead_def
  proof (rule runs_bindI[OF drain_runs[OF K]], clarify)
    fix go k
    assume k: "reg k = reg (kern s)" "mu k \<le> mu (kern s)"
    have "runs loop_faults (rbind (Some (now os k)) (\<lambda>(t, k1).
        rbind (Some (refreshClock os (tq s) k1)) (\<lambda>k2. ret (s\<lparr>kern := k2\<rparr>)))) (\<lambda>s'. \<exists>k. s' = s\<lparr>kern := k\<rparr> \<and> reg k = reg (kern s) \<and> mu k \<le> mu (kern s))"
      by (rule runs_bindI[OF now_runs[OF K]]) (use k in \<open>auto intro!: runs_bindI[OF refreshClock_runs[OF K]] exI[where P = "\<lambda>k'. s\<lparr>kern := _\<rparr> = s\<lparr>kern := k'\<rparr> \<and> _ k'"] refl\<close>)
    then show "runs loop_faults (if \<not> go then ret (s\<lparr>kern := k\<rparr>) else rbind (Some (now os k)) (\<lambda>(t, k1).
        rbind (fire_timers (ow_timer ow) (dyingTimers t (tq_timers (tq s))) (s\<lparr>kern := k1\<rparr>)) (\<lambda>s'.
        rbind (Some (refreshClock os (tq s') (kern s'))) (\<lambda>k2. ret (s'\<lparr>kern := k2\<rparr>)))))
        (\<lambda>s'. \<exists>k. s' = s\<lparr>kern := k\<rparr> \<and> reg k = reg (kern s) \<and> mu k \<le> mu (kern s))"
      using k by (auto simp: fire)
  qed
  moreover have "\<exists>k. s = s\<lparr>kern := k\<rparr> \<and> reg k = reg (kern s) \<and> mu k \<le> mu (kern s)"
    by (rule exI[of _ "kern s"]) simp
  ultimately show ?thesis
    using e by (auto simp: handle_channel_def channel_handle_def intro!: runs_bind elim!: runs_mono)
qed

subsection \<open>Starting and stopping\<close>

text \<open>
  eventfd(2), timerfd_create(2) and epoll_create(2) register nothing, and the first two return a
  descriptor that is not open, so not one that is in the interest list.
\<close>

definition fresh_fds :: "'k os \<Rightarrow> 'k registry \<Rightarrow> bool" where
  "fresh_fds os reg \<longleftrightarrow>
     (\<forall>k r k'. os_eventfd os k = (r, k') \<longrightarrow> reg k' = reg k \<and> (\<forall>fd. r = Inr fd \<longrightarrow> reg k fd = None)) \<and>
     (\<forall>k r k'. os_timerfd os k = (r, k') \<longrightarrow> reg k' = reg k \<and> (\<forall>fd. r = Inr fd \<longrightarrow> reg k fd = None)) \<and>
     (\<forall>k r k'. os_epoll_create os k = (r, k') \<longrightarrow> reg k' = reg k)"

lemma EventLoop_new_inv:
  fixes l :: "('cb, 'k, 't) eloop"
  assumes K: "kernel_ok os ep reg mu" and f: "fresh_fds os reg" and k: "reg k = (\<lambda>_. None)"
    and new: "EventLoop_new os k = Inr l"
  shows "(epfd l = ep \<longrightarrow> loop_inv ep reg l \<and> (\<forall>fd. reg (kern l) fd \<noteq> None \<longrightarrow> fd = lp_fd l \<or> fd = tq_timeFd (tq l))) \<and>
    lp_tasks l = [] \<and> lp_stop l = False \<and> tq_timers (tq l) = []"
proof -
  obtain fd k1 e k2 c k3 and q :: "'cb timerq" and k4 where steps: "os_eventfd os k = (Inr fd, k1)" "Epoll_new os k1 = Inr (e, k2)"
      "enableReading os e EloopChan (Channel_new fd) k2 = Inr (c, k3)" "TimerQueue_new os e k3 = Inr (q, k4)"
    and l: "l = \<lparr>kern = k4, epfd = e, tq = q, lp_tasks = [], lp_stop = False, lp_fd = fd, lp_chan = c, lp_signal = False\<rparr>"
    using new by (auto simp: EventLoop_new_def ebind_eq_Inr split: prod.splits sum.splits)
  obtain tfd k5 c' where t: "os_timerfd os k3 = (Inr tfd, k5)" "enableReading os e TimeChan (Channel_new tfd) k5 = Inr (c', k4)"
    and q: "q = \<lparr>tq_timerId = 0, tq_timeFd = tfd, tq_chan = c', tq_timers = []\<rparr>"
    using steps(4) by (auto simp: TimerQueue_new_def ebind_eq_Inr split: prod.splits sum.splits)
  have "loop_inv ep reg l \<and> (\<forall>fd. reg (kern l) fd \<noteq> None \<longrightarrow> fd = lp_fd l \<or> fd = tq_timeFd (tq l))" if "epfd l = ep"
  proof -
    have e: "e = ep"
      using that by (simp add: l)
    have "reg k1 = reg k"
      using f steps(1) unfolding fresh_fds_def by blast
    moreover have "reg k2 = reg k1"
      using f steps(2) unfolding fresh_fds_def by (auto simp: Epoll_new_def split: prod.splits sum.splits)
    moreover note a = epoll_updateChannel_ok[OF kernel_okD(2)[OF K] steps(3)[unfolded e enableReading_def]]
    ultimately have c: "c = \<lparr>ch_fd = fd, ch_events = EPOLLIN OR EPOLLET, ch_revents = 0, ch_inEpoll = True\<rparr>"
      and r3: "reg k3 = [fd \<mapsto> (EloopChan, EPOLLIN OR EPOLLET)]"
      using k by (auto simp: Channel_new_def)
    have "reg k5 = reg k3" and "reg k3 tfd = None"
      using f t(1) unfolding fresh_fds_def by blast+
    moreover note b = epoll_updateChannel_ok[OF kernel_okD(2)[OF K] t(2)[unfolded e enableReading_def]]
    ultimately have c': "c' = \<lparr>ch_fd = tfd, ch_events = EPOLLIN OR EPOLLET, ch_revents = 0, ch_inEpoll = True\<rparr>"
      and r4: "reg k4 = [fd \<mapsto> (EloopChan, EPOLLIN OR EPOLLET), tfd \<mapsto> (TimeChan, EPOLLIN OR EPOLLET)]" and neq: "fd \<noteq> tfd"
      using r3 by (auto simp: Channel_new_def split: if_splits)
    have "(EPOLLIN OR EPOLLET) AND EPOLLOUT = 0" "(EPOLLIN OR EPOLLET) AND EPOLLIN \<noteq> 0"
      by (simp_all add: EPOLLIN_def EPOLLET_def EPOLLOUT_def)
    then show ?thesis
      using neq r4 by (simp add: l q c c' e loop_inv_def synced_def timers_wf_def map_wf_def INT_MAX_def)
  qed
  then show ?thesis
    by (simp add: l q)
qed

lemma stopLoop_effect:
  assumes K: "kernel_ok os ep reg mu" and li: "loop_inv ep reg s"
  shows "\<exists>ch k. stopLoop os s = Inr (s\<lparr>tq := (tq s)\<lparr>tq_chan := ch\<rparr>, kern := k, lp_stop := True\<rparr>) \<and>
    loop_inv ep reg (s\<lparr>tq := (tq s)\<lparr>tq_chan := ch\<rparr>, kern := k, lp_stop := True\<rparr>) \<and>
    (\<forall>fd. fd \<noteq> tq_timeFd (tq s) \<longrightarrow> reg k fd = reg (kern s) fd) \<and> mu k \<le> mu (kern s)"
proof -
  let ?c = "tq_chan (tq s)"
  have sync: "synced reg TimeChan ?c (kern s)" and ep: "epfd s = ep"
    using li by (simp_all add: loop_inv_def)
  obtain ch k where r: "epoll_updateChannel os ep TimeChan (?c\<lparr>ch_events := 0\<rparr>) (kern s) = Inr (ch, k)"
    using epoll_updateChannel_total[OF kernel_okD(3)[OF K] sync] by fastforce
  note eff = epoll_updateChannel_ok[OF kernel_okD(2)[OF K] r] and less = updateChannel_supply[OF K r]
  have other: "reg k fd = reg (kern s) fd" if "fd \<noteq> tq_timeFd (tq s)" for fd
    using eff li that by (simp add: loop_inv_def)
  have run: "stopLoop os s = Inr (s\<lparr>tq := (tq s)\<lparr>tq_chan := ch\<rparr>, kern := k, lp_stop := True\<rparr>)"
    using r ep by (simp add: stopLoop_def timerq_stop_def disableAll_def)
  have "synced reg EloopChan (lp_chan s) k"
    using li other[of "lp_fd s"] synced_cong[of reg k "lp_chan s" "kern s" EloopChan] by (simp add: loop_inv_def)
  then have "loop_inv ep reg (s\<lparr>tq := (tq s)\<lparr>tq_chan := ch\<rparr>, kern := k, lp_stop := True\<rparr>)"
    using li eff by (simp add: loop_inv_def timers_wf_def synced_def)
  with run other less show ?thesis
    by blast
qed

end
