(* ===== verification/Socket.thy ===== *)
theory Socket
  imports Kernel
begin

section \<open>Socket: the owner of a descriptor\<close>

text \<open>
  Models \<open>class Socket\<close> (include/Socket.h, src/server/Socket.cpp): the listening constructor, the
  constructor around an accepted descriptor, the destructor, \<open>acceptConnection\<close>, \<open>startListen\<close>
  and the two thin wrappers of read(2) and write(2).
\<close>

subsection \<open>State and operations\<close>

record socket =
  so_fd :: int
  so_port :: int
  so_peerAddr :: peer_addr

definition setNonBlocking :: "'k os \<Rightarrow> int \<Rightarrow> 'k \<Rightarrow> 'k" where
  "setNonBlocking os fd k = (case os_getfl os fd k of (flags, k1) \<Rightarrow> os_setfl os fd (flags OR O_NONBLOCK) k1)"

text \<open>\<open>htons\<close> keeps the low 16 bits of the port.\<close>

definition Socket_listening :: "'k os \<Rightarrow> int \<Rightarrow> 'k \<Rightarrow> (socket \<times> 'k) outcome" where
  "Socket_listening os port k =
     (case os_socket os k of
        (Inl e, k1) \<Rightarrow> Inl (Exit ''socket create error'')
      | (Inr fd, k1) \<Rightarrow>
          (let k2 = setNonBlocking os fd k1; k3 = os_reuseaddr os fd k2 in
           case os_bind os fd (word_of_int port) k3 of
             (r, k4) \<Rightarrow> ebind (errif (failed r) ''socket bind error'') (\<lambda>_.
               Inr (\<lparr>so_fd = fd, so_port = port, so_peerAddr = []\<rparr>, k4))))"

definition Socket_accepted :: "'k os \<Rightarrow> int \<Rightarrow> int \<Rightarrow> peer_addr \<Rightarrow> 'k \<Rightarrow> socket \<times> 'k" where
  "Socket_accepted os fd port peer k =
     (\<lparr>so_fd = fd, so_port = port, so_peerAddr = peer\<rparr>, setNonBlocking os fd k)"

definition Socket_delete :: "'k os \<Rightarrow> socket \<Rightarrow> 'k \<Rightarrow> socket \<times> 'k" where
  "Socket_delete os s k =
     (if so_fd s \<noteq> -1 then (s\<lparr>so_fd := -1\<rparr>, os_close os (so_fd s) k) else (s, k))"

text \<open>\<open>None\<close> in the result is the null pointer: nothing to accept.\<close>

partial_function (option) acceptConnection :: "'k os \<Rightarrow> socket \<Rightarrow> 'k \<Rightarrow> (socket option \<times> 'k) res" where
  "acceptConnection os s k =
     (case os_accept os (so_fd s) k of
        (r, k') \<Rightarrow>
          (case r of
             Inr (fd, peer) \<Rightarrow> (case Socket_accepted os fd (so_port s) peer k' of (c, k'') \<Rightarrow> ret (Some c, k''))
           | Inl e \<Rightarrow>
               if e = EINTR then acceptConnection os s k'
               else if would_block e then ret (None, k')
               else fail (Exit ''socket accept error'')))"

definition startListen :: "'k os \<Rightarrow> socket \<Rightarrow> 'k \<Rightarrow> 'k outcome" where
  "startListen os s k =
     (case os_listen os (so_fd s) 128 k of
        (r, k') \<Rightarrow> ebind (errif (failed r) ''socket listen error'') (\<lambda>_. Inr k'))"

definition sckRead :: "'k os \<Rightarrow> socket \<Rightarrow> nat \<Rightarrow> 'k \<Rightarrow> (errno + string) \<times> 'k" where
  "sckRead os s count k = os_readv os (so_fd s) count k"

definition sckWrite :: "'k os \<Rightarrow> socket \<Rightarrow> string \<Rightarrow> 'k \<Rightarrow> (errno + nat) \<times> 'k" where
  "sckWrite os s buf k = os_write os (so_fd s) buf k"

subsection \<open>Accepting\<close>

text \<open>
  \<open>interrupted\<close>: the accept call is answered \<open>EINTR\<close> any number of times and then with \<open>r\<close>.
\<close>

inductive interrupted :: "'k os \<Rightarrow> int \<Rightarrow> 'k \<Rightarrow> errno + int \<times> peer_addr \<Rightarrow> 'k \<Rightarrow> bool" for os fd where
  answer: "os_accept os fd k = (r, k') \<Longrightarrow> r \<noteq> Inl EINTR \<Longrightarrow> interrupted os fd k r k'"
| again: "os_accept os fd k = (Inl EINTR, k1) \<Longrightarrow> interrupted os fd k1 r k' \<Longrightarrow> interrupted os fd k r k'"

text \<open>
  C31. \<open>acceptConnection\<close> outlasts interruptions: after any number of \<open>EINTR\<close>, it returns a
  non-blocking socket around the accepted descriptor with the listener's port and the peer's
  address, or the null pointer when nothing is waiting; every other error, also the transient
  \<open>ECONNABORTED\<close> of a client that gave up and \<open>EMFILE\<close>, ends the process.
\<close>

theorem accept_outcome:
  assumes "interrupted os (so_fd s) k r k'"
  shows "acceptConnection os s k =
     (case r of
        Inr (fd, peer) \<Rightarrow> ret (Some \<lparr>so_fd = fd, so_port = so_port s, so_peerAddr = peer\<rparr>, setNonBlocking os fd k')
      | Inl e \<Rightarrow> if would_block e then ret (None, k') else fail (Exit ''socket accept error''))"
  using assms
proof (induction rule: interrupted.induct)
  case (answer k r k')
  then show ?case
    by (subst acceptConnection.simps) (auto simp: Socket_accepted_def split: sum.split prod.split)
next
  case (again k k1 r k')
  then show ?case
    by (subst acceptConnection.simps) simp
qed

theorem accept_outcome_witness:
  "acceptConnection sos \<lparr>so_fd = 5, so_port = 8888, so_peerAddr = []\<rparr>
       (skern0\<lparr>sk_accepts := [Inl EINTR, Inr (9, ''peer''), Inl (EOTHER 103)]\<rparr>) =
     ret (Some \<lparr>so_fd = 9, so_port = 8888, so_peerAddr = ''peer''\<rparr>,
          skern0\<lparr>sk_accepts := [Inl (EOTHER 103)], sk_nonblocking := [9]\<rparr>) \<and>
   acceptConnection sos \<lparr>so_fd = 5, so_port = 8888, so_peerAddr = []\<rparr> (skern0\<lparr>sk_accepts := [Inl (EOTHER 103)]\<rparr>) =
     fail (Exit ''socket accept error'')"
proof -
  let ?s = "\<lparr>so_fd = 5, so_port = 8888, so_peerAddr = []\<rparr>"
  have "interrupted sos (so_fd ?s) (skern0\<lparr>sk_accepts := [Inl EINTR, Inr (9, ''peer''), Inl (EOTHER 103)]\<rparr>)
      (Inr (9, ''peer'')) (skern0\<lparr>sk_accepts := [Inl (EOTHER 103)]\<rparr>)"
    by (rule interrupted.again[where ?k1.0 = "skern0\<lparr>sk_accepts := [Inr (9, ''peer''), Inl (EOTHER 103)]\<rparr>"])
      (auto simp: sk_accept_def intro: interrupted.answer)
  moreover have "interrupted sos (so_fd ?s) (skern0\<lparr>sk_accepts := [Inl (EOTHER 103)]\<rparr>)
      (Inl (EOTHER 103)) (skern0\<lparr>sk_accepts := []\<rparr>)"
    by (rule interrupted.answer) (simp_all add: sk_accept_def)
  ultimately show ?thesis
    using accept_outcome[where os = sos and s = ?s]
    by (simp add: setNonBlocking_def O_NONBLOCK_def would_block_def skern0_def)
qed

end
