(* ===== verification/Connection.thy ===== *)
theory Connection
  imports HttpProcess EventLoop Socket ThreadPool
begin

section \<open>Connection: one client\<close>

text \<open>
  Models \<open>class Connection\<close> (include/Connection.h, src/server/Connection.cpp). A connection acts on
  itself and on its event loop, so every operation maps a pair of the two. The loop state is the
  record \<open>reactor\<close>: the event loop of EventLoop.thy whose timers call \<open>handleDead\<close> of a
  connection, with the queue of the worker pool. Callbacks and queued lambdas are values that say
  what they captured.
\<close>

subsection \<open>State\<close>

datatype ConnState = connected | peerClose | dead

record conn =
  cn_useThreadPool :: bool
  cn_sck :: socket
  cn_channel :: channel
  cn_readBuffer :: buffer
  cn_writeBuffer :: buffer
  cn_http :: http
  cn_state :: ConnState
  cn_working :: int
  cn_timerId :: int

text \<open>
  The lambdas that are queued on the loop of a sub-reactor: add an accepted connection (with its
  id in the model), erase a connection from the table, the continuation of a worker's response,
  and the stop request. A job for the worker pool captures the connection and the request.
\<close>

datatype sub_task =
    TAddConnection conn_id socket
  | TRemoveConnection conn_id
  | TSendResponse conn_id string bool
  | TStop

type_synonym job = "conn_id \<times> HttpRequest"

record 'k reactor = "(conn_id, 'k, sub_task) eloop" +
  rc_pool :: "job pool"

type_synonym ('k, 'z) cstate = "conn \<times> ('k, 'z) reactor_scheme"

definition Connection_new :: "socket \<Rightarrow> bool \<Rightarrow> conn" where
  "Connection_new sock f =
     \<lparr>cn_useThreadPool = f, cn_sck = sock, cn_channel = Channel_new (so_fd sock),
      cn_readBuffer = Buffer_new, cn_writeBuffer = Buffer_new, cn_http = HttpProcess_new,
      cn_state = connected, cn_working = 0, cn_timerId = -1\<rparr>"

text \<open>Run one of the channel operations on the connection's channel.\<close>

definition on_channel ::
  "('k os \<Rightarrow> int \<Rightarrow> chan_id \<Rightarrow> channel \<Rightarrow> 'k \<Rightarrow> (channel \<times> 'k) outcome) \<Rightarrow> 'k os \<Rightarrow> conn_id \<Rightarrow>
   ('k, 'z) cstate \<Rightarrow> ('k, 'z) cstate outcome" where
  "on_channel f os me cs =
     (case cs of (c, s) \<Rightarrow>
        ebind (f os (epfd s) (ConnChan me) (cn_channel c) (kern s)) (\<lambda>(ch, k).
          Inr (c\<lparr>cn_channel := ch\<rparr>, s\<lparr>kern := k\<rparr>)))"

subsection \<open>Timers, closing\<close>

definition startConnect :: "'k os \<Rightarrow> conn_id \<Rightarrow> ('k, 'z) cstate \<Rightarrow> ('k, 'z) cstate outcome" where
  "startConnect os me cs =
     ebind (on_channel enableReading os me cs) (\<lambda>(c, s).
     ebind (addTimer os me s) (\<lambda>(i, s'). Inr (c\<lparr>cn_timerId := i\<rparr>, s')))"

definition refreshTimer :: "'k os \<Rightarrow> conn_id \<Rightarrow> ('k, 'z) cstate \<Rightarrow> ('k, 'z) cstate outcome" where
  "refreshTimer os me cs =
     (case cs of (c, s) \<Rightarrow>
        ebind (deleteTimer os (cn_timerId c) s) (\<lambda>s1.
        ebind (addTimer os me s1) (\<lambda>(i, s2). Inr (c\<lparr>cn_timerId := i\<rparr>, s2))))"

text \<open>The common part of \<open>handleDead\<close> and \<open>stop\<close>: state, channel, timer, in this order.\<close>

definition conn_shut :: "'k os \<Rightarrow> conn_id \<Rightarrow> ('k, 'z) cstate \<Rightarrow> ('k, 'z) cstate outcome" where
  "conn_shut os me cs =
     (case cs of (c, s) \<Rightarrow>
        ebind (channel_remove os (epfd s) (cn_channel c) (kern s)) (\<lambda>(ch, k).
        ebind (deleteTimer os (cn_timerId c) (s\<lparr>kern := k\<rparr>)) (\<lambda>s'.
          Inr (c\<lparr>cn_state := dead, cn_channel := ch\<rparr>, s'))))"

definition handleDead :: "'k os \<Rightarrow> conn_id \<Rightarrow> ('k, 'z) cstate \<Rightarrow> ('k, 'z) cstate outcome" where
  "handleDead os me cs =
     (if cn_state (fst cs) = dead then Inr cs
      else ebind (conn_shut os me cs) (\<lambda>(c, s).
           ebind (enqueueTask os (TRemoveConnection me) s) (\<lambda>s'. Inr (c, s'))))"

definition conn_stop :: "'k os \<Rightarrow> conn_id \<Rightarrow> ('k, 'z) cstate \<Rightarrow> ('k, 'z) cstate outcome" where
  "conn_stop os me cs = (if cn_state (fst cs) = dead then Inr cs else conn_shut os me cs)"

definition checkEmptyReadAfterEof :: "'k os \<Rightarrow> conn_id \<Rightarrow> ('k, 'z) cstate \<Rightarrow> ('k, 'z) cstate outcome" where
  "checkEmptyReadAfterEof os me cs =
     (let c = fst cs in
      if cn_state c = peerClose \<and> cn_working c = 0 \<and> readable (cn_writeBuffer c) = 0
      then handleDead os me cs else Inr cs)"

subsection \<open>Reading and writing the socket\<close>

partial_function (option) readFromSck :: "'k os \<Rightarrow> conn_id \<Rightarrow> ('k, 'z) cstate \<Rightarrow> ('k, 'z) cstate res" where
  "readFromSck os me cs =
     (case sckToBuffer os (so_fd (cn_sck (fst cs))) (cn_readBuffer (fst cs)) (kern (snd cs)) of
        (r, b, k) \<Rightarrow>
          (let c = (fst cs)\<lparr>cn_readBuffer := b\<rparr>; s = (snd cs)\<lparr>kern := k\<rparr> in
           case r of
             Inr n \<Rightarrow> if n > 0 then readFromSck os me (c, s) else ret (c\<lparr>cn_state := peerClose\<rparr>, s)
           | Inl e \<Rightarrow>
               if e = EINTR then readFromSck os me (c, s)
               else if would_block e then ret (c, s)
               else Some (handleDead os me (c, s))))"

text \<open>When the write buffer has just been drained.\<close>

definition write_drained :: "'k os \<Rightarrow> conn_id \<Rightarrow> ('k, 'z) cstate \<Rightarrow> ('k, 'z) cstate outcome" where
  "write_drained os me cs =
     ebind (on_channel disableWriting os me cs) (\<lambda>cs'.
       if cn_state (fst cs') = peerClose \<and> cn_working (fst cs') = 0 then handleDead os me cs' else Inr cs')"

text \<open>
  One call of \<open>bufferToSck\<close> with everything that is readable. The \<open>errif\<close> in it cannot fire here,
  and the model keeps it.
\<close>

definition send_once ::
  "'k os \<Rightarrow> ('k, 'z) cstate \<Rightarrow> ((errno + nat) \<times> ('k, 'z) cstate) outcome" where
  "send_once os cs =
     (case cs of (c, s) \<Rightarrow>
        ebind (bufferToSck os (so_fd (cn_sck c)) (readable (cn_writeBuffer c)) (cn_writeBuffer c) (kern s)) (\<lambda>(r, b, k).
          Inr (r, c\<lparr>cn_writeBuffer := b\<rparr>, s\<lparr>kern := k\<rparr>)))"

text \<open>
  \<open>trySendToSck\<close> treats every result that is not positive as a failure and looks at \<open>errno\<close>, which
  after a result of 0 is stale.
\<close>

partial_function (option) trySendToSck :: "'k os \<Rightarrow> conn_id \<Rightarrow> ('k, 'z) cstate \<Rightarrow> ('k, 'z) cstate res" where
  "trySendToSck os me cs =
     (if readable (cn_writeBuffer (fst cs)) = 0 then ret cs
      else rbind (Some (send_once os cs)) (\<lambda>(r, cs').
        (case r of
           Inr n \<Rightarrow>
             if n > 0 then
               (if readable (cn_writeBuffer (fst cs')) = 0 then Some (write_drained os me cs')
                else Some (on_channel enableWriting os me cs'))
             else
               (let e = os_errno os (kern (snd cs')) in
                if would_block e then Some (on_channel enableWriting os me cs')
                else if e = EINTR then trySendToSck os me cs'
                else Some (handleDead os me cs'))
         | Inl e \<Rightarrow>
             if would_block e then Some (on_channel enableWriting os me cs')
             else if e = EINTR then trySendToSck os me cs'
             else Some (handleDead os me cs'))))"

text \<open>The loop of \<open>handleWriteCallBack\<close>: a result of 0 just goes round again.\<close>

partial_function (option) write_loop :: "'k os \<Rightarrow> conn_id \<Rightarrow> ('k, 'z) cstate \<Rightarrow> ('k, 'z) cstate res" where
  "write_loop os me cs =
     (if readable (cn_writeBuffer (fst cs)) = 0 then ret cs
      else rbind (Some (send_once os cs)) (\<lambda>(r, cs').
        (case r of
           Inr n \<Rightarrow>
             if n > 0 \<and> readable (cn_writeBuffer (fst cs')) = 0 then Some (write_drained os me cs')
             else write_loop os me cs'
         | Inl e \<Rightarrow>
             if would_block e then ret cs'
             else if e = EINTR then write_loop os me cs'
             else Some (handleDead os me cs'))))"

definition handleWriteCallBack :: "'k os \<Rightarrow> conn_id \<Rightarrow> ('k, 'z) cstate \<Rightarrow> ('k, 'z) cstate res" where
  "handleWriteCallBack os me cs =
     (if cn_state (fst cs) = dead then ret cs
      else rbind (Some (refreshTimer os me cs)) (\<lambda>cs'.
        if readable (cn_writeBuffer (fst cs')) = 0 then Some (on_channel disableWriting os me cs')
        else write_loop os me cs'))"

subsection \<open>Requests and responses\<close>

definition sendHttpOnLoop :: "'k os \<Rightarrow> conn_id \<Rightarrow> string \<Rightarrow> bool \<Rightarrow> ('k, 'z) cstate \<Rightarrow> ('k, 'z) cstate res" where
  "sendHttpOnLoop os me resp keepAlive cs =
     rbind (trySendToSck os me ((fst cs)\<lparr>cn_writeBuffer := dataIn resp (cn_writeBuffer (fst cs))\<rparr>, snd cs)) (\<lambda>cs1.
       if keepAlive then ret cs1
       else rbind (Some (on_channel disableReading os me cs1)) (\<lambda>(c, s).
         ret (c\<lparr>cn_state := peerClose\<rparr>, s)))"

text \<open>With the pool: count the worker and submit the job (\<open>taskSubmit\<close> of Server.cpp).\<close>

definition submit_job :: "conn_id \<Rightarrow> HttpRequest \<Rightarrow> ('k, 'z) cstate \<Rightarrow> ('k, 'z) cstate outcome" where
  "submit_job me req cs =
     (case cs of (c, s) \<Rightarrow>
        if cn_working c = INT_MAX then Inl (Undefined ''signed overflow'')
        else ebind (pool_enqueue (me, req) (rc_pool s)) (\<lambda>p.
          Inr (c\<lparr>cn_working := cn_working c + 1\<rparr>, s\<lparr>rc_pool := p\<rparr>)))"

partial_function (option) http_loop :: "'k os \<Rightarrow> conn_id \<Rightarrow> ('k, 'z) cstate \<Rightarrow> ('k, 'z) cstate res" where
  "http_loop os me cs =
     (if cn_state (fst cs) = dead then ret cs
      else rbind (Some (parse (cn_http (fst cs)) (cn_readBuffer (fst cs)))) (\<lambda>(r, h, b).
        (let c = (fst cs)\<lparr>cn_http := h, cn_readBuffer := b\<rparr>; s = snd cs in
         case r of
           kNeedMore \<Rightarrow> ret (c, s)
         | kLineTooLong \<Rightarrow>
             rbind (Some (on_channel disableReading os me (c, s))) (\<lambda>(c1, s1).
               Some (checkEmptyReadAfterEof os me (c1\<lparr>cn_state := peerClose\<rparr>, s1)))
         | kError \<Rightarrow>
             rbind (sendHttpOnLoop os me build400 False (c, s)) (\<lambda>(c1, s1).
               Some (checkEmptyReadAfterEof os me (c1\<lparr>cn_http := reset (cn_http c1)\<rparr>, s1)))
         | kComplete \<Rightarrow>
             (let (req, h') = releaseRequest h; c' = c\<lparr>cn_http := h'\<rparr> in
              if cn_useThreadPool c' then
                rbind (Some (submit_job me req (c', s))) (\<lambda>cs'. http_loop os me cs')
              else if cn_state c' = dead then ret (c', s)
              else
                rbind (sendHttpOnLoop os me (buildResponse req) (rq_keepAlive req) (c', s)) (\<lambda>cs1.
                rbind (Some (checkEmptyReadAfterEof os me cs1)) (\<lambda>cs2. http_loop os me cs2))))))"

definition onHttp :: "'k os \<Rightarrow> conn_id \<Rightarrow> ('k, 'z) cstate \<Rightarrow> ('k, 'z) cstate res" where
  "onHttp os me cs =
     rbind (readFromSck os me cs) (\<lambda>cs1.
       if readable (cn_readBuffer (fst cs1)) = 0 then Some (checkEmptyReadAfterEof os me cs1)
       else http_loop os me cs1)"

definition handleReadCallBack :: "'k os \<Rightarrow> conn_id \<Rightarrow> ('k, 'z) cstate \<Rightarrow> ('k, 'z) cstate res" where
  "handleReadCallBack os me cs = rbind (Some (refreshTimer os me cs)) (\<lambda>cs'. onHttp os me cs')"

text \<open>The channel of a connection, when epoll reports it.\<close>

definition conn_event :: "'k os \<Rightarrow> conn_id \<Rightarrow> 32 word \<Rightarrow> ('k, 'z) cstate \<Rightarrow> ('k, 'z) cstate res" where
  "conn_event os me revents cs = channel_handle (handleReadCallBack os me) (handleWriteCallBack os me) revents cs"

text \<open>What a worker computes, and what its continuation does back on the loop.\<close>

definition worker_job :: "job \<Rightarrow> sub_task" where
  "worker_job j = (case j of (me, req) \<Rightarrow> TSendResponse me (buildResponse req) (rq_keepAlive req))"

definition response_done :: "'k os \<Rightarrow> conn_id \<Rightarrow> string \<Rightarrow> bool \<Rightarrow> ('k, 'z) cstate \<Rightarrow> ('k, 'z) cstate res" where
  "response_done os me resp keepAlive cs =
     (let c = (fst cs)\<lparr>cn_working := cn_working (fst cs) - 1\<rparr> in
      if cn_state c = dead then ret (c, snd cs)
      else rbind (sendHttpOnLoop os me resp keepAlive (c, snd cs)) (\<lambda>cs'.
        Some (checkEmptyReadAfterEof os me cs')))"

end
