(* ===== verification/ConnInv.thy ===== *)
theory ConnInv
  imports Connection LoopInv
begin

section \<open>The invariant of a connection\<close>

text \<open>
  Every handler of a connection returns, stops the process only for the listed reasons, keeps the
  connection consistent with the kernel, the timer queue and its own state, and leaves everything
  else of the event loop alone. One lemma per operation of Connection.thy, in program order.
\<close>

subsection \<open>The invariant and the frame\<close>

text \<open>
  The faults a handler may end in; those of epoll and of the buffers are not among them. A handler
  that submits jobs may also meet a pool that has been stopped.
\<close>

definition conn_faults :: "fault set" where
  "conn_faults =
     {Throw ''std::out_of_range'', Undefined ''signed overflow'',
      Exit ''time get error'', Exit ''timeFd refresh error'', Exit ''eloopFd write error''}"

definition event_faults :: "bool \<Rightarrow> fault set" where
  "event_faults stopped = conn_faults \<union> (if stopped then {Throw ''enqueue on stopped ThreadPool''} else {})"

lemma conn_faults_simps [simp]:
  "Throw ''std::out_of_range'' \<in> conn_faults"
  "Undefined ''signed overflow'' \<in> conn_faults" "Exit ''time get error'' \<in> conn_faults"
  "Exit ''timeFd refresh error'' \<in> conn_faults" "Exit ''eloopFd write error'' \<in> conn_faults"
  by (simp_all add: conn_faults_def)

lemma event_faults_simps [simp]:
  "e \<in> conn_faults \<Longrightarrow> e \<in> event_faults stopped"
  "Throw ''enqueue on stopped ThreadPool'' \<in> event_faults stopped \<longleftrightarrow> stopped"
  by (simp add: event_faults_def) (simp add: event_faults_def conn_faults_def)

lemma conn_event_faults: "runs conn_faults m P \<Longrightarrow> runs (event_faults stopped) m P"
  by (erule runs_mono_faults) auto

text \<open>
  \<open>conn_base\<close>: buffers and parser are well formed, the channel agrees with epoll, and the timers
  that point to the connection are those with its \<open>timerId\<close>. \<open>conn_ok\<close> adds what the state means:
  a dead connection, and only it, is out of epoll, and no timer points to it any more.
\<close>

definition conn_base :: "int \<Rightarrow> 'k registry \<Rightarrow> conn_id \<Rightarrow> ('k, 'z) cstate \<Rightarrow> bool" where
  "conn_base ep reg me cs \<longleftrightarrow>
     (let c = fst cs; s = snd cs in
      epfd s = ep \<and> buffer_inv (cn_readBuffer c) \<and> buffer_inv (cn_writeBuffer c) \<and>
      timers_wf (tq s) \<and> ch_fd (cn_channel c) = so_fd (cn_sck c) \<and>
      synced reg (ConnChan me) (cn_channel c) (kern s) \<and> cn_timerId c \<le> tq_timerId (tq s) \<and>
      (\<forall>x \<in> set (tq_timers (tq s)). tm_callBack (snd x) = me \<longleftrightarrow> fst x = cn_timerId c))"

definition conn_ok :: "int \<Rightarrow> 'k registry \<Rightarrow> conn_id \<Rightarrow> ('k, 'z) cstate \<Rightarrow> bool" where
  "conn_ok ep reg me cs \<longleftrightarrow>
     conn_base ep reg me cs \<and> (cn_state (fst cs) = dead \<longleftrightarrow> \<not> ch_inEpoll (cn_channel (fst cs))) \<and>
     (cn_state (fst cs) = dead \<longrightarrow> (\<forall>x \<in> set (tq_timers (tq (snd cs))). tm_callBack (snd x) \<noteq> me))"

text \<open>What a handler of \<open>me\<close> leaves alone. It also never asks for input again once it has stopped to.\<close>

definition wants_input :: "('k, 'z) cstate \<Rightarrow> bool" where
  "wants_input cs \<longleftrightarrow> ch_events (cn_channel (fst cs)) AND EPOLLIN \<noteq> 0"

text \<open>New timers get new ids.\<close>

definition timers_newer :: "'cb timerq \<Rightarrow> 'cb timerq \<Rightarrow> bool" where
  "timers_newer q q' \<longleftrightarrow> tq_timerId q \<le> tq_timerId q' \<and>
     (\<forall>x \<in> set (tq_timers q'). x \<in> set (tq_timers q) \<or> tq_timerId q < fst x)"

lemma timers_newer_refl [simp]: "timers_newer q q"
  by (simp add: timers_newer_def)

lemma timers_newer_trans: "timers_newer a b \<Longrightarrow> timers_newer b c \<Longrightarrow> timers_newer a c"
  unfolding timers_newer_def by fastforce

lemma timers_newer_filter [simp]: "timers_newer q (q\<lparr>tq_timers := filter P (tq_timers q)\<rparr>)"
  by (simp add: timers_newer_def)

lemma timers_newer_add [simp]:
  "timers_newer q (q\<lparr>tq_timerId := tq_timerId q + 1, tq_timers := tq_timers q @ [(tq_timerId q + 1, tm)]\<rparr>)"
  by (auto simp: timers_newer_def)

definition conn_others :: "'k registry \<Rightarrow> ('k \<Rightarrow> nat) \<Rightarrow> conn_id \<Rightarrow> ('k, 'z) cstate \<Rightarrow> ('k, 'z) cstate \<Rightarrow> bool" where
  "conn_others reg mu me cs cs' \<longleftrightarrow>
     (let c = fst cs; s = snd cs; c' = fst cs'; s' = snd cs' in
      cn_sck c' = cn_sck c \<and> cn_useThreadPool c' = cn_useThreadPool c \<and>
      (\<forall>fd. fd \<noteq> so_fd (cn_sck c) \<longrightarrow> reg (kern s') fd = reg (kern s) fd) \<and> mu (kern s') \<le> mu (kern s) \<and>
      filter (\<lambda>x. tm_callBack (snd x) \<noteq> me) (tq_timers (tq s')) = filter (\<lambda>x. tm_callBack (snd x) \<noteq> me) (tq_timers (tq s)) \<and>
      timers_newer (tq s) (tq s') \<and> tq_timeFd (tq s') = tq_timeFd (tq s) \<and> tq_chan (tq s') = tq_chan (tq s) \<and>
      (\<exists>n. lp_tasks s' = lp_tasks s @ replicate n (TRemoveConnection me)) \<and>
      (\<exists>reqs. pl_tasks (rc_pool s') = pl_tasks (rc_pool s) @ map (Pair me) reqs) \<and>
      pl_stop (rc_pool s') = pl_stop (rc_pool s) \<and>
      epfd s' = epfd s \<and> lp_fd s' = lp_fd s \<and> lp_stop s' = lp_stop s \<and> lp_chan s' = lp_chan s \<and> rung s s' \<and>
      reactor.more s' = reactor.more s)"

definition conn_frame :: "'k registry \<Rightarrow> ('k \<Rightarrow> nat) \<Rightarrow> conn_id \<Rightarrow> ('k, 'z) cstate \<Rightarrow> ('k, 'z) cstate \<Rightarrow> bool" where
  "conn_frame reg mu me cs cs' \<longleftrightarrow> conn_others reg mu me cs cs' \<and> (wants_input cs' \<longrightarrow> wants_input cs)"

lemma conn_others_refl [simp]: "conn_others reg mu me cs cs"
  by (auto simp: conn_others_def intro: exI[of _ 0] exI[of _ "[]"])

lemma conn_others_trans:
  assumes "conn_others reg mu me a b" and "conn_others reg mu me b c"
  shows "conn_others reg mu me a c"
proof -
  have "\<exists>n. lp_tasks (snd c) = lp_tasks (snd a) @ replicate n (TRemoveConnection me)"
    using assms by (auto simp: conn_others_def Let_def simp flip: replicate_add)
  moreover have "\<exists>reqs. pl_tasks (rc_pool (snd c)) = pl_tasks (rc_pool (snd a)) @ map (Pair me) reqs"
    using assms by (auto simp: conn_others_def Let_def simp flip: map_append)
  moreover have "timers_newer (tq (snd a)) (tq (snd c))" "rung (snd a) (snd c)"
    using assms timers_newer_trans rung_trans by (auto simp: conn_others_def Let_def)
  ultimately show ?thesis
    using assms by (auto simp: conn_others_def Let_def)
qed

lemma conn_frame_refl [simp]: "conn_frame reg mu me cs cs"
  by (simp add: conn_frame_def)

lemma conn_frame_trans:
  "conn_frame reg mu me a b \<Longrightarrow> conn_frame reg mu me b c \<Longrightarrow> conn_frame reg mu me a c"
  unfolding conn_frame_def using conn_others_trans by blast

subsection \<open>Channel operations\<close>

definition channel_only :: "('k, 'z) cstate \<Rightarrow> ('k, 'z) cstate \<Rightarrow> bool" where
  "channel_only cs cs' \<longleftrightarrow> (\<exists>ch k. cs' = ((fst cs)\<lparr>cn_channel := ch\<rparr>, (snd cs)\<lparr>kern := k\<rparr>))"

lemma on_channel_others:
  assumes "kernel_ok os ep reg mu" and "conn_base ep reg me cs"
    and "f os ep (ConnChan me) (cn_channel (fst cs)) (kern (snd cs)) =
      epoll_updateChannel os ep (ConnChan me) ((cn_channel (fst cs))\<lparr>ch_events := ev\<rparr>) (kern (snd cs))"
  shows "runs F (Some (on_channel f os me cs)) (\<lambda>cs'. ch_events (cn_channel (fst cs')) = ev \<and> conn_base ep reg me cs' \<and> conn_others reg mu me cs cs' \<and>
    channel_only cs cs' \<and> ch_inEpoll (cn_channel (fst cs')))"
proof -
  obtain c s where cs: "cs = (c, s)" by fastforce
  have sync: "synced reg (ConnChan me) (cn_channel c) (kern s)" "epfd s = ep"
    using assms(2) by (simp_all add: conn_base_def cs)
  obtain ch k where u: "epoll_updateChannel os ep (ConnChan me) ((cn_channel c)\<lparr>ch_events := ev\<rparr>) (kern s) = Inr (ch, k)"
    using epoll_updateChannel_total[OF kernel_okD(3)[OF assms(1)] sync(1)] by fastforce
  have r: "on_channel f os me cs = Inr (c\<lparr>cn_channel := ch\<rparr>, s\<lparr>kern := k\<rparr>)"
    using assms(3) u sync(2) by (simp add: on_channel_def cs)
  note eff = epoll_updateChannel_ok[OF kernel_okD(2)[OF assms(1)] u] updateChannel_supply[OF assms(1) u]
  then have "conn_base ep reg me (c\<lparr>cn_channel := ch\<rparr>, s\<lparr>kern := k\<rparr>)"
    using assms(2) by (simp add: conn_base_def cs synced_def)
  moreover have "conn_others reg mu me cs (c\<lparr>cn_channel := ch\<rparr>, s\<lparr>kern := k\<rparr>)"
    using eff assms(2) by (auto simp: conn_frame_def conn_others_def conn_base_def cs wants_input_def intro: exI[of _ 0] exI[of _ "[]"])
  moreover have "channel_only cs (c\<lparr>cn_channel := ch\<rparr>, s\<lparr>kern := k\<rparr>)"
    by (auto simp: channel_only_def cs)
  ultimately show ?thesis
    using eff by (simp add: r)
qed

lemma on_channel_runs:
  assumes "kernel_ok os ep reg mu" and "conn_base ep reg me cs"
    and "f os ep (ConnChan me) (cn_channel (fst cs)) (kern (snd cs)) =
      epoll_updateChannel os ep (ConnChan me) ((cn_channel (fst cs))\<lparr>ch_events := ev\<rparr>) (kern (snd cs))"
    and "ev AND EPOLLIN \<noteq> 0 \<Longrightarrow> wants_input cs"
  shows "runs F (Some (on_channel f os me cs)) (\<lambda>cs'. ch_events (cn_channel (fst cs')) = ev \<and> conn_base ep reg me cs' \<and>
    conn_frame reg mu me cs cs' \<and> channel_only cs cs' \<and> ch_inEpoll (cn_channel (fst cs')))"
  by (rule runs_mono[OF on_channel_others[where f = f, OF assms(1-3)]])
    (use assms(4) in \<open>auto simp: conn_frame_def wants_input_def\<close>)

lemma channel_only_conn:
  "channel_only cs cs' \<Longrightarrow>
   cn_state (fst cs') = cn_state (fst cs) \<and> cn_working (fst cs') = cn_working (fst cs) \<and>
   cn_readBuffer (fst cs') = cn_readBuffer (fst cs) \<and> cn_writeBuffer (fst cs') = cn_writeBuffer (fst cs) \<and>
   cn_http (fst cs') = cn_http (fst cs) \<and> cn_timerId (fst cs') = cn_timerId (fst cs) \<and> tq (snd cs') = tq (snd cs) \<and>
   lp_tasks (snd cs') = lp_tasks (snd cs)"
  by (auto simp: channel_only_def)

subsection \<open>Timers\<close>

definition timer_only :: "('k, 'z) cstate \<Rightarrow> ('k, 'z) cstate \<Rightarrow> bool" where
  "timer_only cs cs' \<longleftrightarrow> (\<exists>i q k. cs' = ((fst cs)\<lparr>cn_timerId := i\<rparr>, (snd cs)\<lparr>tq := q, kern := k\<rparr>))"

lemma deleteTimer_runs:
  assumes K: "kernel_ok os ep reg mu" and B: "conn_base ep reg me (c, s)"
  shows "runs conn_faults (Some (deleteTimer os (cn_timerId c) s)) (\<lambda>s'. conn_base ep reg me (c, s') \<and>
    conn_frame reg mu me (c, s) (c, s') \<and> (\<exists>q k. s' = s\<lparr>tq := q, kern := k\<rparr>) \<and>
    (\<forall>x \<in> set (tq_timers (tq s')). tm_callBack (snd x) \<noteq> me))"
proof (cases "map_of (tq_timers (tq s)) (cn_timerId c) = None")
  case True
  then have "\<forall>x \<in> set (tq_timers (tq s)). fst x \<noteq> cn_timerId c"
    unfolding map_of_eq_None_iff by (metis imageI)
  moreover have "deleteTimer os (cn_timerId c) s = Inr s"
    using True by (simp add: deleteTimer_def timerq_deleteTimer_def)
  ultimately show ?thesis
    using B by (auto simp: conn_base_def intro!: exI[of _ "tq s"] exI[of _ "kern s"])
next
  case False
  let ?q = "(tq s)\<lparr>tq_timers := map_erase (cn_timerId c) (tq_timers (tq s))\<rparr>"
  have del: "deleteTimer os (cn_timerId c) s = ebind (refreshClock os ?q (kern s)) (\<lambda>k. Inr (s\<lparr>tq := ?q, kern := k\<rparr>))"
    using False by (cases "refreshClock os ?q (kern s)") (auto simp: deleteTimer_def timerq_deleteTimer_def)
  have own: "tm_callBack (snd x) = me \<longleftrightarrow> fst x = cn_timerId c" if "x \<in> set (tq_timers (tq s))" for x
    using B that by (simp add: conn_base_def)
  have "filter (\<lambda>x. tm_callBack (snd x) \<noteq> me) (map_erase (cn_timerId c) (tq_timers (tq s))) =
      filter (\<lambda>x. tm_callBack (snd x) \<noteq> me) (tq_timers (tq s))"
    using own by (auto simp: map_erase_def intro!: filter_cong)
  with B own have "conn_base ep reg me (c, s\<lparr>tq := ?q, kern := k\<rparr>) \<and>
      conn_frame reg mu me (c, s) (c, s\<lparr>tq := ?q, kern := k\<rparr>) \<and> (\<forall>x \<in> set (tq_timers ?q). tm_callBack (snd x) \<noteq> me)"
    if "reg k = reg (kern s) \<and> mu k \<le> mu (kern s)" for k
    using that by (auto simp: conn_base_def wants_input_def conn_frame_def conn_others_def map_erase_def synced_def timers_wf_erase
        intro: exI[of _ 0] exI[of _ "[]"])
  then show ?thesis
    unfolding del by (intro runs_ebindI[OF refreshClock_runs[OF K]]) (auto intro: exI[of _ ?q])
qed

lemma addTimer_runs:
  assumes K: "kernel_ok os ep reg mu" and B: "conn_base ep reg me (c, s)"
    and none: "\<forall>x \<in> set (tq_timers (tq s)). tm_callBack (snd x) \<noteq> me"
  shows "runs conn_faults (Some (addTimer os me s)) (\<lambda>(i, s'). conn_base ep reg me (c\<lparr>cn_timerId := i\<rparr>, s') \<and>
    conn_frame reg mu me (c, s) (c\<lparr>cn_timerId := i\<rparr>, s') \<and> (\<exists>q k. s' = s\<lparr>tq := q, kern := k\<rparr>))"
proof (cases "os_now os (kern s)")
  case (Pair r k1)
  have wf: "timers_wf (tq s)"
    using B by (simp add: conn_base_def)
  show ?thesis
  proof (cases r)
    case (Inl e)
    then show ?thesis
      using Pair by (simp add: addTimer_def timerq_addTimer_def now_def)
  next
    case (Inr t)
    show ?thesis
    proof (cases "tq_timerId (tq s) = INT_MAX")
      case True
      then show ?thesis
        using Pair Inr by (simp add: addTimer_def timerq_addTimer_def now_def)
    next
      case False
      let ?i = "tq_timerId (tq s) + 1"
      let ?q = "(tq s)\<lparr>tq_timerId := ?i, tq_timers := tq_timers (tq s) @ [(?i, new_timer t ?i me)]\<rparr>"
      have lt: "tq_timerId (tq s) < INT_MAX"
        using False wf by (simp add: timers_wf_def)
      have below: "\<forall>x \<in> set (tq_timers (tq s)). fst x < ?i"
        using wf by (auto simp: timers_wf_def)
      then have "map_put ?i v (tq_timers (tq s)) = tq_timers (tq s) @ [(?i, v)]" for v
        using wf by (intro tmap.entries_put_above) (auto simp: timers_wf_def)
      then have add: "addTimer os me s = ebind (refreshClock os ?q k1) (\<lambda>k. Inr (?i, s\<lparr>tq := ?q, kern := k\<rparr>))"
        using Pair Inr False
        by (cases "refreshClock os ?q k1") (auto simp: addTimer_def timerq_addTimer_def now_def new_timer_def Let_def)
      have k1: "reg k1 = reg (kern s) \<and> mu k1 \<le> mu (kern s)"
        using kernel_okD(8)[OF K] Pair by blast
      have "conn_base ep reg me (c\<lparr>cn_timerId := ?i\<rparr>, s\<lparr>tq := ?q, kern := k\<rparr>) \<and>
          conn_frame reg mu me (c, s) (c\<lparr>cn_timerId := ?i\<rparr>, s\<lparr>tq := ?q, kern := k\<rparr>)"
        if "reg k = reg (kern s) \<and> mu k \<le> mu (kern s)" for k
        using that B none timers_wf_add[OF wf lt refl, of t me] below
        by (auto simp: conn_base_def wants_input_def conn_frame_def conn_others_def synced_def new_timer_def intro: exI[of _ 0] exI[of _ "[]"])
      then show ?thesis
        unfolding add using k1
        by (intro runs_ebindI[OF refreshClock_runs[OF K]]) (auto intro: exI[of _ ?q])
    qed
  qed
qed

lemma refreshTimer_runs:
  assumes K: "kernel_ok os ep reg mu" and B: "conn_base ep reg me cs"
  shows "runs conn_faults (Some (refreshTimer os me cs)) (\<lambda>cs'. conn_base ep reg me cs' \<and>
    conn_frame reg mu me cs cs' \<and> timer_only cs cs')"
proof -
  obtain c s where cs: "cs = (c, s)" by fastforce
  show ?thesis
    unfolding refreshTimer_def cs split
  proof (rule runs_ebindI[OF deleteTimer_runs[OF K B[unfolded cs]]])
    fix s1
    assume 1: "conn_base ep reg me (c, s1) \<and> conn_frame reg mu me (c, s) (c, s1) \<and> (\<exists>q k. s1 = s\<lparr>tq := q, kern := k\<rparr>) \<and>
      (\<forall>x \<in> set (tq_timers (tq s1)). tm_callBack (snd x) \<noteq> me)"
    then have "runs conn_faults (Some (addTimer os me s1)) (\<lambda>(i, s'). conn_base ep reg me (c\<lparr>cn_timerId := i\<rparr>, s') \<and>
        conn_frame reg mu me (c, s1) (c\<lparr>cn_timerId := i\<rparr>, s') \<and> (\<exists>q k. s' = s1\<lparr>tq := q, kern := k\<rparr>))"
      using addTimer_runs[OF K] by blast
    then show "runs conn_faults (Some (ebind (addTimer os me s1) (\<lambda>(i, s2). Inr (c\<lparr>cn_timerId := i\<rparr>, s2))))
        (\<lambda>cs'. conn_base ep reg me cs' \<and> conn_frame reg mu me (c, s) cs' \<and> timer_only (c, s) cs')"
      using 1 conn_frame_trans by (elim runs_ebindI) (fastforce simp: timer_only_def)
  qed
qed

lemma timer_only_conn:
  "timer_only cs cs' \<Longrightarrow>
   cn_state (fst cs') = cn_state (fst cs) \<and> cn_working (fst cs') = cn_working (fst cs) \<and>
   cn_readBuffer (fst cs') = cn_readBuffer (fst cs) \<and> cn_writeBuffer (fst cs') = cn_writeBuffer (fst cs) \<and>
   cn_http (fst cs') = cn_http (fst cs) \<and> cn_channel (fst cs') = cn_channel (fst cs) \<and>
   lp_tasks (snd cs') = lp_tasks (snd cs)"
  by (auto simp: timer_only_def)

subsection \<open>Closing\<close>

text \<open>A connection that is shut: dead, out of epoll, and no timer left.\<close>

definition shut :: "conn_id \<Rightarrow> ('k, 'z) cstate \<Rightarrow> bool" where
  "shut me cs \<longleftrightarrow> cn_state (fst cs) = dead \<and> \<not> ch_inEpoll (cn_channel (fst cs)) \<and>
     (\<forall>x \<in> set (tq_timers (tq (snd cs))). tm_callBack (snd x) \<noteq> me)"

definition same_data :: "('k, 'z) cstate \<Rightarrow> ('k, 'z) cstate \<Rightarrow> bool" where
  "same_data cs cs' \<longleftrightarrow>
     cn_working (fst cs') = cn_working (fst cs) \<and> cn_readBuffer (fst cs') = cn_readBuffer (fst cs) \<and>
     cn_writeBuffer (fst cs') = cn_writeBuffer (fst cs) \<and> cn_http (fst cs') = cn_http (fst cs)"

lemma same_data_trans: "same_data a b \<Longrightarrow> same_data b c \<Longrightarrow> same_data a c"
  by (simp add: same_data_def)

lemma conn_shut_runs:
  assumes K: "kernel_ok os ep reg mu" and B: "conn_base ep reg me cs"
  shows "runs conn_faults (Some (conn_shut os me cs)) (\<lambda>cs'. conn_base ep reg me cs' \<and> conn_frame reg mu me cs cs' \<and>
    shut me cs' \<and> same_data cs cs' \<and> lp_tasks (snd cs') = lp_tasks (snd cs))"
proof -
  obtain c s where cs: "cs = (c, s)" by fastforce
  have sync: "synced reg (ConnChan me) (cn_channel c) (kern s)" "epfd s = ep"
    using B by (simp_all add: conn_base_def cs)
  obtain ch k where r: "epoll_removeChannel os ep (cn_channel c) (kern s) = Inr (ch, k)"
    using epoll_removeChannel_total[OF kernel_okD(3)[OF K] sync(1)] by fastforce
  note eff = epoll_removeChannel_ok[OF kernel_okD(2)[OF K] r sync(1)] removeChannel_supply[OF K r]
  let ?c = "c\<lparr>cn_state := dead, cn_channel := ch\<rparr>" and ?s = "s\<lparr>kern := k\<rparr>"
  have base: "conn_base ep reg me (?c, ?s)" "conn_frame reg mu me cs (?c, ?s)"
    using eff B by (auto simp: conn_base_def wants_input_def conn_frame_def conn_others_def synced_def cs intro: exI[of _ 0] exI[of _ "[]"])
  have "runs conn_faults (Some (deleteTimer os (cn_timerId ?c) ?s)) (\<lambda>s'. conn_base ep reg me (?c, s') \<and>
      conn_frame reg mu me (?c, ?s) (?c, s') \<and> (\<exists>q k. s' = ?s\<lparr>tq := q, kern := k\<rparr>) \<and>
      (\<forall>x \<in> set (tq_timers (tq s')). tm_callBack (snd x) \<noteq> me))"
    by (rule deleteTimer_runs[OF K base(1)])
  then have "runs conn_faults (Some (deleteTimer os (cn_timerId c) ?s)) (\<lambda>s'. conn_base ep reg me (?c, s') \<and>
      conn_frame reg mu me cs (?c, s') \<and> (\<exists>q k. s' = ?s\<lparr>tq := q, kern := k\<rparr>) \<and>
      (\<forall>x \<in> set (tq_timers (tq s')). tm_callBack (snd x) \<noteq> me))"
    using conn_frame_trans[OF base(2)] by (simp, elim runs_mono) blast
  then show ?thesis
    using r sync(2) eff(1)
    by (auto simp: conn_shut_def channel_remove_def cs shut_def same_data_def intro!: runs_ebind elim!: runs_mono)
qed

definition conn_step :: "int \<Rightarrow> 'k registry \<Rightarrow> ('k \<Rightarrow> nat) \<Rightarrow> conn_id \<Rightarrow> ('k, 'z) cstate \<Rightarrow> ('k, 'z) cstate \<Rightarrow> bool" where
  "conn_step ep reg mu me cs cs' \<longleftrightarrow> conn_ok ep reg me cs' \<and> conn_frame reg mu me cs cs'"

text \<open>The reading side is untouched.\<close>

definition same_in :: "('k, 'z) cstate \<Rightarrow> ('k, 'z) cstate \<Rightarrow> bool" where
  "same_in cs cs' \<longleftrightarrow> cn_readBuffer (fst cs') = cn_readBuffer (fst cs) \<and> cn_http (fst cs') = cn_http (fst cs) \<and>
     cn_working (fst cs') = cn_working (fst cs)"

text \<open>Parser, worker count and outgoing bytes are untouched.\<close>

definition same_out :: "('k, 'z) cstate \<Rightarrow> ('k, 'z) cstate \<Rightarrow> bool" where
  "same_out cs cs' \<longleftrightarrow> cn_http (fst cs') = cn_http (fst cs) \<and> cn_working (fst cs') = cn_working (fst cs) \<and>
     cn_writeBuffer (fst cs') = cn_writeBuffer (fst cs)"

abbreviation live :: "('k, 'z) cstate \<Rightarrow> bool" where
  "live cs \<equiv> cn_state (fst cs) \<noteq> dead"

lemma conn_step_refl [simp]: "conn_step ep reg mu me cs cs \<longleftrightarrow> conn_ok ep reg me cs"
  by (simp add: conn_step_def)

lemma conn_step_trans:
  "conn_step ep reg mu me a b \<Longrightarrow> conn_step ep reg mu me b c \<Longrightarrow> conn_step ep reg mu me a c"
  unfolding conn_step_def using conn_frame_trans by blast

lemma same_in_trans: "same_in a b \<Longrightarrow> same_in b c \<Longrightarrow> same_in a c"
  by (simp add: same_in_def)

lemma same_in_refl [simp]: "same_in a a"
  by (simp add: same_in_def)

lemma conn_ok_base: "conn_ok ep reg me cs \<Longrightarrow> conn_base ep reg me cs"
  by (simp add: conn_ok_def)

lemma shut_ok: "conn_base ep reg me cs \<Longrightarrow> shut me cs \<Longrightarrow> conn_ok ep reg me cs"
  by (simp add: conn_ok_def shut_def)

text \<open>A live connection is in epoll; changing its events keeps it so.\<close>

lemma live_channel_runs:
  assumes K: "kernel_ok os ep reg mu" and C: "conn_ok ep reg me cs" "live cs"
    and f: "f os ep (ConnChan me) (cn_channel (fst cs)) (kern (snd cs)) =
      epoll_updateChannel os ep (ConnChan me) ((cn_channel (fst cs))\<lparr>ch_events := ev\<rparr>) (kern (snd cs))"
    and ev: "ev AND EPOLLIN \<noteq> 0 \<Longrightarrow> wants_input cs"
  shows "runs F (Some (on_channel f os me cs)) (\<lambda>cs'. ch_events (cn_channel (fst cs')) = ev \<and> conn_step ep reg mu me cs cs' \<and> same_in cs cs' \<and>
    cn_writeBuffer (fst cs') = cn_writeBuffer (fst cs) \<and> cn_state (fst cs') = cn_state (fst cs))"
  using C by (intro runs_mono[OF on_channel_runs[where f = f, OF K conn_ok_base[OF C(1)] f ev]])
    (auto simp: conn_step_def conn_ok_def same_in_def dest: channel_only_conn)

lemma events_EPOLLIN [simp]:
  "(ev OR EPOLLOUT) AND EPOLLIN = ev AND EPOLLIN"
  "(ev AND NOT EPOLLOUT) AND EPOLLIN = ev AND EPOLLIN"
  "(ev AND NOT EPOLLIN) AND EPOLLIN = 0"
  by (simp_all add: EPOLLIN_def EPOLLOUT_def bit.conj_disj_distrib2 and.assoc)

lemma enableWriting_runs:
  "kernel_ok os ep reg mu \<Longrightarrow> conn_ok ep reg me cs \<Longrightarrow> live cs \<Longrightarrow>
   runs F (Some (on_channel enableWriting os me cs)) (\<lambda>cs'. conn_step ep reg mu me cs cs' \<and> same_in cs cs' \<and>
     cn_writeBuffer (fst cs') = cn_writeBuffer (fst cs) \<and> cn_state (fst cs') = cn_state (fst cs))"
  by (rule runs_mono[OF live_channel_runs[where f = enableWriting, OF _ _ _ enableWriting_def]])
    (auto simp: wants_input_def)

lemma disableWriting_runs:
  "kernel_ok os ep reg mu \<Longrightarrow> conn_ok ep reg me cs \<Longrightarrow> live cs \<Longrightarrow>
   runs F (Some (on_channel disableWriting os me cs)) (\<lambda>cs'. conn_step ep reg mu me cs cs' \<and> same_in cs cs' \<and>
     cn_writeBuffer (fst cs') = cn_writeBuffer (fst cs) \<and> cn_state (fst cs') = cn_state (fst cs))"
  by (rule runs_mono[OF live_channel_runs[where f = disableWriting, OF _ _ _ disableWriting_def]])
    (auto simp: wants_input_def)

text \<open>
  \<open>disableReading\<close> also runs on a connection that has just died: it enters epoll again, and since
  its callers then set \<open>peerClose\<close>, it is alive again as far as its state can tell.
\<close>

lemma disableReading_runs:
  assumes K: "kernel_ok os ep reg mu" and C: "conn_ok ep reg me cs"
  shows "runs F (Some (on_channel disableReading os me cs)) (\<lambda>cs'.
     conn_step ep reg mu me cs ((fst cs')\<lparr>cn_state := peerClose\<rparr>, snd cs') \<and> same_in cs cs' \<and> \<not> wants_input cs' \<and>
     cn_writeBuffer (fst cs') = cn_writeBuffer (fst cs))"
proof (rule runs_mono[OF on_channel_runs[where f = disableReading, OF K conn_ok_base[OF C] disableReading_def]])
  fix cs'
  assume 1: "ch_events (cn_channel (fst cs')) = ch_events (cn_channel (fst cs)) AND NOT EPOLLIN \<and>
    conn_base ep reg me cs' \<and> conn_frame reg mu me cs cs' \<and> channel_only cs cs' \<and> ch_inEpoll (cn_channel (fst cs'))"
  then have "conn_ok ep reg me ((fst cs')\<lparr>cn_state := peerClose\<rparr>, snd cs')"
    by (simp add: conn_ok_def conn_base_def Let_def)
  moreover have "conn_frame reg mu me cs ((fst cs')\<lparr>cn_state := peerClose\<rparr>, snd cs')"
    using 1 by (simp add: conn_frame_def conn_others_def wants_input_def Let_def)
  ultimately show "conn_step ep reg mu me cs ((fst cs')\<lparr>cn_state := peerClose\<rparr>, snd cs') \<and> same_in cs cs' \<and>
      \<not> wants_input cs' \<and> cn_writeBuffer (fst cs') = cn_writeBuffer (fst cs)"
    using 1 channel_only_conn[of cs cs'] by (simp add: conn_step_def same_in_def wants_input_def)
qed simp

lemma handleDead_runs:
  assumes K: "kernel_ok os ep reg mu" and C: "conn_ok ep reg me cs"
  shows "runs conn_faults (Some (handleDead os me cs)) (\<lambda>cs'. conn_step ep reg mu me cs cs' \<and> same_data cs cs' \<and>
    \<not> live cs')"
proof (cases "live cs")
  case False
  then show ?thesis
    using C by (simp add: handleDead_def same_data_def)
next
  case True
  have "handleDead os me cs = ebind (conn_shut os me cs) (\<lambda>(c, s). ebind (enqueueTask os (TRemoveConnection me) s) (\<lambda>s'. Inr (c, s')))"
    using True by (simp add: handleDead_def)
  also have "runs conn_faults (Some \<dots>) (\<lambda>cs'. conn_step ep reg mu me cs cs' \<and> same_data cs cs' \<and> \<not> live cs')"
  proof (rule runs_ebindI[OF conn_shut_runs[OF K conn_ok_base[OF C]]])
    fix cs1
    assume 1: "conn_base ep reg me cs1 \<and> conn_frame reg mu me cs cs1 \<and> shut me cs1 \<and> same_data cs cs1 \<and>
      lp_tasks (snd cs1) = lp_tasks (snd cs)"
    obtain c s where cs1: "cs1 = (c, s)" by fastforce
    have step: "conn_step ep reg mu me cs1 (c, s') \<and> same_data cs1 (c, s') \<and> \<not> live (c, s')"
      if "enqueued reg mu (TRemoveConnection me) s s'" for s'
      using that[unfolded enqueued_def]
    proof (elim disjE exE conjE)
      fix k
      assume s': "s' = (push_task (TRemoveConnection me) s)\<lparr>kern := k, lp_signal := True\<rparr>" "reg k = reg (kern s)" "mu k \<le> mu (kern s)"
      have "conn_others reg mu me cs1 (c, s')"
        unfolding s' by (auto simp: s'(2,3) cs1 conn_others_def push_task_def intro: exI[of _ 1] exI[of _ "[]"])
      then show ?thesis
        using 1 s' by (auto simp: cs1 conn_step_def conn_ok_def conn_base_def wants_input_def conn_frame_def shut_def same_data_def
            synced_def push_task_def)
    qed (use 1 in \<open>simp add: cs1 conn_step_def conn_ok_def shut_def same_data_def\<close>)
    have "conn_step ep reg mu me cs cs1"
      unfolding conn_step_def using 1 shut_ok by blast
    then have "conn_step ep reg mu me cs (c, s') \<and> same_data cs (c, s') \<and> \<not> live (c, s')"
      if "enqueued reg mu (TRemoveConnection me) s s'" for s'
      using step[OF that] 1 conn_step_trans[of ep reg mu me cs cs1] same_data_trans[of cs cs1] by simp
    then show "runs conn_faults (Some (case cs1 of (c, s) \<Rightarrow>
        ebind (enqueueTask os (TRemoveConnection me) s) (\<lambda>s'. Inr (c, s'))))
        (\<lambda>cs'. conn_step ep reg mu me cs cs' \<and> same_data cs cs' \<and> \<not> live cs')"
      unfolding cs1 split by (intro runs_ebindI[OF enqueueTask_runs[OF K conn_faults_simps(5)]]) simp
  qed
  finally show ?thesis .
qed

lemma checkEmpty_runs:
  assumes K: "kernel_ok os ep reg mu" and C: "conn_ok ep reg me cs"
  shows "runs conn_faults (Some (checkEmptyReadAfterEof os me cs)) (\<lambda>cs'. conn_step ep reg mu me cs cs' \<and> same_data cs cs')"
  using C by (auto simp: checkEmptyReadAfterEof_def same_data_def Let_def intro: runs_mono[OF handleDead_runs[OF K C]])

subsection \<open>Reading and writing\<close>

lemma data_step:
  assumes "conn_ok ep reg me cs" and "reg k = reg (kern (snd cs))" and "mu k \<le> mu (kern (snd cs))"
    and "c' = (fst cs)\<lparr>cn_readBuffer := rb, cn_writeBuffer := wb, cn_http := h, cn_working := w\<rparr>"
    and "buffer_inv rb" and "buffer_inv wb"
  shows "conn_step ep reg mu me cs (c', (snd cs)\<lparr>kern := k\<rparr>)"
  using assms
  by (cases cs) (auto simp: conn_step_def conn_ok_def conn_base_def wants_input_def conn_frame_def conn_others_def synced_def intro: exI[of _ 0] exI[of _ "[]"])

lemma conn_ok_parts:
  "conn_ok ep reg me cs \<Longrightarrow> buffer_inv (cn_readBuffer (fst cs)) \<and> buffer_inv (cn_writeBuffer (fst cs))"
  by (simp add: conn_ok_def conn_base_def Let_def)

lemma readBuffer_step:
  assumes "conn_ok ep reg me cs" and "reg k = reg (kern (snd cs))" and "mu k \<le> mu (kern (snd cs))" and "buffer_inv b"
  shows "conn_step ep reg mu me cs ((fst cs)\<lparr>cn_readBuffer := b\<rparr>, (snd cs)\<lparr>kern := k\<rparr>)"
  using assms conn_ok_parts[OF assms(1)]
  by (intro data_step[where rb = b and wb = "cn_writeBuffer (fst cs)" and h = "cn_http (fst cs)" and w = "cn_working (fst cs)"])
    auto

lemma writeBuffer_step:
  assumes "conn_ok ep reg me cs" and "reg k = reg (kern (snd cs))" and "mu k \<le> mu (kern (snd cs))" and "buffer_inv b"
  shows "conn_step ep reg mu me cs ((fst cs)\<lparr>cn_writeBuffer := b\<rparr>, (snd cs)\<lparr>kern := k\<rparr>)"
  using assms conn_ok_parts[OF assms(1)]
  by (intro data_step[where rb = "cn_readBuffer (fst cs)" and wb = b and h = "cn_http (fst cs)" and w = "cn_working (fst cs)"])
    auto

lemma state_step:
  assumes "conn_ok ep reg me cs" and "live cs" and "st \<noteq> dead"
  shows "conn_step ep reg mu me cs ((fst cs)\<lparr>cn_state := st\<rparr>, snd cs)"
  using assms
  by (cases cs) (auto simp: conn_step_def conn_ok_def conn_base_def wants_input_def conn_frame_def conn_others_def synced_def intro: exI[of _ 0] exI[of _ "[]"])

lemma sckToBuffer_step:
  assumes K: "kernel_ok os ep reg mu" and C: "conn_ok ep reg me cs"
    and r: "sckToBuffer os fd (cn_readBuffer (fst cs)) (kern (snd cs)) = (r, b, k)"
  shows "conn_step ep reg mu me cs ((fst cs)\<lparr>cn_readBuffer := b\<rparr>, (snd cs)\<lparr>kern := k\<rparr>)"
    and "r = Inl EINTR \<or> (\<exists>n>0. r = Inr n) \<Longrightarrow> mu k < mu (kern (snd cs))"
proof -
  obtain rr where rr: "os_readv os fd (writable (cn_readBuffer (fst cs)) + 65536) (kern (snd cs)) = (rr, k)"
    using r by (auto simp: sckToBuffer_def split: prod.splits sum.splits)
  have "buffer_inv b"
    using r rr conn_ok_parts[OF C] sckToBuffer_store_props by (auto simp: sckToBuffer_def split: sum.splits)
  then show "conn_step ep reg mu me cs ((fst cs)\<lparr>cn_readBuffer := b\<rparr>, (snd cs)\<lparr>kern := k\<rparr>)"
    using kernel_okD(4)[OF K rr] by (intro readBuffer_step[OF C]) auto
  have "mu k < mu (kern (snd cs))" if "rr = Inl EINTR \<or> (\<exists>d. rr = Inr d \<and> d \<noteq> [])"
    using supply_decreases(1)[OF K rr that] .
  then show "mu k < mu (kern (snd cs))" if "r = Inl EINTR \<or> (\<exists>n>0. r = Inr n)"
    using that r rr by (cases rr) (auto simp: sckToBuffer_def)
qed

lemma readFromSck_runs:
  assumes K: "kernel_ok os ep reg mu"
  shows "conn_ok ep reg me cs \<Longrightarrow> live cs \<Longrightarrow>
    runs conn_faults (readFromSck os me cs) (\<lambda>cs'. conn_step ep reg mu me cs cs' \<and> same_out cs cs')"
proof (induction "mu (kern (snd cs))" arbitrary: cs rule: less_induct)
  case less
  obtain r b k where r: "sckToBuffer os (so_fd (cn_sck (fst cs))) (cn_readBuffer (fst cs)) (kern (snd cs)) = (r, b, k)"
    by (metis prod_cases3)
  let ?cs = "((fst cs)\<lparr>cn_readBuffer := b\<rparr>, (snd cs)\<lparr>kern := k\<rparr>)"
  note step = sckToBuffer_step[OF K less.prems(1) r]
  have ok: "conn_ok ep reg me ?cs" "live ?cs"
    using step(1) less.prems(2) by (simp_all add: conn_step_def)
  have again: "runs conn_faults (readFromSck os me ?cs) (\<lambda>cs'. conn_step ep reg mu me cs cs' \<and> same_out cs cs')"
    if "mu k < mu (kern (snd cs))"
    using that by (intro runs_mono[OF less.hyps[OF _ ok]]) (auto simp: same_out_def intro: conn_step_trans[OF step(1)])
  have eof: "conn_step ep reg mu me cs ((fst ?cs)\<lparr>cn_state := peerClose\<rparr>, snd ?cs)"
    by (rule conn_step_trans[OF step(1) state_step]) (use ok in simp_all)
  have die: "runs conn_faults (Some (handleDead os me ?cs)) (\<lambda>cs'. conn_step ep reg mu me cs cs' \<and> same_out cs cs')"
    by (intro runs_mono[OF handleDead_runs[OF K ok(1)]])
      (auto simp: same_data_def same_out_def intro: conn_step_trans[OF step(1)])
  show ?case
    using again eof die step
    by (subst readFromSck.simps) (auto simp: r Let_def same_out_def split: sum.split)
qed

lemma send_once_runs:
  assumes K: "kernel_ok os ep reg mu" and C: "conn_ok ep reg me cs"
  shows "runs {} (Some (send_once os cs)) (\<lambda>(r, cs'). conn_step ep reg mu me cs cs' \<and> same_in cs cs' \<and>
     cn_state (fst cs') = cn_state (fst cs) \<and>
     cn_writeBuffer (fst cs') = consume (case r of Inl e \<Rightarrow> 0 | Inr n \<Rightarrow> n) (cn_writeBuffer (fst cs)) \<and>
     (\<forall>n. r = Inr n \<longrightarrow> n \<le> readable (cn_writeBuffer (fst cs))) \<and>
     (readable (cn_writeBuffer (fst cs)) \<noteq> 0 \<and> (r = Inl EINTR \<or> r = Inr 0) \<longrightarrow> mu (kern (snd cs')) < mu (kern (snd cs))))"
proof -
  obtain c s where cs: "cs = (c, s)" by fastforce
  let ?w = "cn_writeBuffer c" and ?fd = "so_fd (cn_sck c)"
  have inv: "buffer_inv ?w" "buffer_inv (cn_readBuffer c)"
    using conn_ok_parts[OF C] by (simp_all add: cs)
  have take: "take (readable ?w) (drop (b_readIdx ?w) (b_buf ?w)) = peek ?w"
    by (simp add: peek_def)
  obtain r k where w: "os_write os ?fd (peek ?w) (kern s) = (r, k)" by fastforce
  let ?b = "consume (case r of Inl e \<Rightarrow> 0 | Inr n \<Rightarrow> n) ?w"
  have send: "send_once os cs = Inr (r, c\<lparr>cn_writeBuffer := ?b\<rparr>, s\<lparr>kern := k\<rparr>)"
    by (cases r) (auto simp: send_once_def cs bufferToSck_def take w)
  have n: "\<forall>n. r = Inr n \<longrightarrow> n \<le> readable ?w"
    using write_boundedD[OF kernel_okD(1)[OF K], of ?fd "peek ?w"] w inv(1) by fastforce
  then have "buffer_inv ?b"
    using inv(1) consume_props(1) by (auto split: sum.split)
  then have "conn_step ep reg mu me cs (c\<lparr>cn_writeBuffer := ?b\<rparr>, s\<lparr>kern := k\<rparr>)"
    using kernel_okD(5)[OF K w] writeBuffer_step[OF C, of k] by (simp add: cs)
  moreover have "mu k < mu (kern s)" if "readable ?w \<noteq> 0" "r = Inl EINTR \<or> r = Inr 0"
  proof -
    have "peek ?w \<noteq> []"
      using that(1) readable_0_iff[OF inv(1)] by simp
    with supply_decreases(2)[OF K w] that(2) show ?thesis by blast
  qed
  ultimately show ?thesis
    unfolding send using n by (simp add: cs same_in_def)
qed

end
