(* ===== verification/ConnHandlers.thy ===== *)
theory ConnHandlers
  imports ConnInv
begin

section \<open>The handlers of a connection\<close>

text \<open>
  The write side, the request loop and the callbacks of Connection.thy: each returns, faults only
  in the listed ways, and keeps the invariant of ConnInv.thy.
\<close>

subsection \<open>The write side\<close>

text \<open>What a handler that does not look at the input leaves alone.\<close>

definition send_post ::
  "int \<Rightarrow> 'k registry \<Rightarrow> ('k \<Rightarrow> nat) \<Rightarrow> conn_id \<Rightarrow> ('k, 'z) cstate \<Rightarrow> ('k, 'z) cstate \<Rightarrow> bool" where
  "send_post ep reg mu me cs cs' \<longleftrightarrow> conn_step ep reg mu me cs cs' \<and> same_in cs cs'"

lemma send_post_trans: "send_post ep reg mu me a b \<Longrightarrow> send_post ep reg mu me b c \<Longrightarrow> send_post ep reg mu me a c"
  using conn_step_trans same_in_trans unfolding send_post_def by blast

lemma handleDead_send:
  assumes "kernel_ok os ep reg mu" and "conn_ok ep reg me cs"
  shows "runs conn_faults (Some (handleDead os me cs)) (send_post ep reg mu me cs)"
  by (rule runs_mono[OF handleDead_runs[OF assms]]) (simp add: send_post_def same_in_def same_data_def)

lemma enableWriting_send:
  assumes "kernel_ok os ep reg mu" and "conn_ok ep reg me cs" and "live cs"
  shows "runs conn_faults (Some (on_channel enableWriting os me cs)) (send_post ep reg mu me cs)"
  by (rule runs_mono[OF enableWriting_runs[OF assms]]) (simp add: send_post_def)

lemma write_drained_send:
  assumes K: "kernel_ok os ep reg mu" and C: "conn_ok ep reg me cs" "live cs"
  shows "runs conn_faults (Some (write_drained os me cs)) (send_post ep reg mu me cs)"
  unfolding write_drained_def
proof (rule runs_ebindI[OF disableWriting_runs[OF K C]])
  fix cs'
  assume 1: "conn_step ep reg mu me cs cs' \<and> same_in cs cs' \<and> cn_writeBuffer (fst cs') = cn_writeBuffer (fst cs) \<and>
    cn_state (fst cs') = cn_state (fst cs)"
  then have step: "send_post ep reg mu me cs cs'" and ok: "conn_ok ep reg me cs'"
    by (simp_all add: send_post_def conn_step_def)
  show "runs conn_faults (Some (if cn_state (fst cs') = peerClose \<and> cn_working (fst cs') = 0
      then handleDead os me cs' else Inr cs')) (send_post ep reg mu me cs)"
    using step runs_mono[OF handleDead_send[OF K ok] send_post_trans[OF step]] by simp
qed

lemma trySendToSck_runs:
  assumes K: "kernel_ok os ep reg mu"
  shows "conn_ok ep reg me cs \<Longrightarrow> live cs \<Longrightarrow>
    runs conn_faults (trySendToSck os me cs) (send_post ep reg mu me cs)"
proof (induction "mu (kern (snd cs))" arbitrary: cs rule: less_induct)
  case less
  show ?case
  proof (cases "readable (cn_writeBuffer (fst cs)) = 0")
    case True
    then show ?thesis
      using less.prems by (subst trySendToSck.simps) (simp add: send_post_def)
  next
    case False
    obtain r cs' where r: "send_once os cs = Inr (r, cs')"
      and post: "conn_step ep reg mu me cs cs'" "same_in cs cs'" "cn_state (fst cs') = cn_state (fst cs)"
        "r = Inl EINTR \<or> r = Inr 0 \<Longrightarrow> mu (kern (snd cs')) < mu (kern (snd cs))"
      using send_once_runs[OF K less.prems(1)] False by (elim runs_cases) auto
    have ok: "conn_ok ep reg me cs'" "live cs'" and step: "send_post ep reg mu me cs cs'"
      using post less.prems by (simp_all add: conn_step_def send_post_def)
    note ops = runs_mono[OF handleDead_send[OF K ok(1)] send_post_trans[OF step]]
      runs_mono[OF enableWriting_send[OF K ok] send_post_trans[OF step]]
      runs_mono[OF write_drained_send[OF K ok] send_post_trans[OF step]]
      runs_mono[OF less.hyps[OF _ ok] send_post_trans[OF step]]
    show ?thesis
      using False post(4)
      by (subst trySendToSck.simps) (auto simp: r would_block_def Let_def intro: ops split: sum.split)
  qed
qed

lemma write_loop_runs:
  assumes K: "kernel_ok os ep reg mu"
  shows "conn_ok ep reg me cs \<Longrightarrow> live cs \<Longrightarrow>
    runs conn_faults (write_loop os me cs) (send_post ep reg mu me cs)"
proof (induction "mu (kern (snd cs)) + readable (cn_writeBuffer (fst cs))" arbitrary: cs rule: less_induct)
  case less
  show ?case
  proof (cases "readable (cn_writeBuffer (fst cs)) = 0")
    case True
    then show ?thesis
      using less.prems by (subst write_loop.simps) (simp add: send_post_def)
  next
    case False
    let ?w = "cn_writeBuffer (fst cs)"
    have w: "buffer_inv ?w"
      using conn_ok_parts[OF less.prems(1)] by simp
    obtain r cs' where r: "send_once os cs = Inr (r, cs')"
      and post: "conn_step ep reg mu me cs cs'" "same_in cs cs'" "cn_state (fst cs') = cn_state (fst cs)"
        "cn_writeBuffer (fst cs') = consume (case r of Inl e \<Rightarrow> 0 | Inr n \<Rightarrow> n) ?w"
        "\<forall>n. r = Inr n \<longrightarrow> n \<le> readable ?w"
        "r = Inl EINTR \<or> r = Inr 0 \<longrightarrow> mu (kern (snd cs')) < mu (kern (snd cs))"
      using send_once_runs[OF K less.prems(1)] False by (elim runs_cases) auto
    have ok: "conn_ok ep reg me cs'" "live cs'" and step: "send_post ep reg mu me cs cs'"
      using post less.prems by (simp_all add: conn_step_def send_post_def)
    have mu: "mu (kern (snd cs')) \<le> mu (kern (snd cs))"
      using post(1) by (simp add: conn_step_def conn_frame_def conn_others_def Let_def)
    have dec: "mu (kern (snd cs')) + readable (cn_writeBuffer (fst cs')) < mu (kern (snd cs)) + readable ?w"
      if "r = Inl EINTR \<or> (\<exists>n. r = Inr n)"
    proof (cases r)
      case (Inl e)
      then show ?thesis
        using that post(4,6) w by simp
    next
      case (Inr n)
      then have "readable (cn_writeBuffer (fst cs')) = readable ?w - n" "n \<le> readable ?w"
        using post(4,5) consume_props(3)[OF w, of n] by simp_all
      then show ?thesis
        using Inr post(6) mu False by (cases "n = 0") auto
    qed
    note ops = runs_mono[OF handleDead_send[OF K ok(1)] send_post_trans[OF step]]
      runs_mono[OF write_drained_send[OF K ok] send_post_trans[OF step]]
      runs_mono[OF less.hyps[OF dec ok] send_post_trans[OF step]]
    show ?thesis
      using False step
      by (subst write_loop.simps) (auto simp: r would_block_def intro: ops split: sum.split)
  qed
qed

text \<open>What a callback guarantees about the input side: the parser is in order while input is wanted.\<close>

definition input_ok :: "('k, 'z) cstate \<Rightarrow> bool" where
  "input_ok cs \<longleftrightarrow> (wants_input cs \<longrightarrow> http_inv (cn_http (fst cs)))"

definition conn_post ::
  "int \<Rightarrow> 'k registry \<Rightarrow> ('k \<Rightarrow> nat) \<Rightarrow> conn_id \<Rightarrow> ('k, 'z) cstate \<Rightarrow> ('k, 'z) cstate \<Rightarrow> bool" where
  "conn_post ep reg mu me cs cs' \<longleftrightarrow> conn_step ep reg mu me cs cs' \<and> input_ok cs'"

lemma conn_post_trans: "conn_step ep reg mu me a b \<Longrightarrow> conn_post ep reg mu me b c \<Longrightarrow> conn_post ep reg mu me a c"
  using conn_step_trans unfolding conn_post_def by blast

lemma send_post_conn_post: "send_post ep reg mu me a b \<Longrightarrow> input_ok a \<Longrightarrow> conn_post ep reg mu me a b"
  by (auto simp: send_post_def conn_post_def input_ok_def same_in_def conn_step_def conn_frame_def conn_others_def Let_def)

lemma handleWriteCallBack_runs:
  assumes K: "kernel_ok os ep reg mu" and C: "conn_ok ep reg me cs"
  shows "runs conn_faults (handleWriteCallBack os me cs) (send_post ep reg mu me cs)"
proof (cases "live cs")
  case False
  then show ?thesis
    using C by (simp add: handleWriteCallBack_def send_post_def)
next
  case True
  then have "handleWriteCallBack os me cs = rbind (Some (refreshTimer os me cs)) (\<lambda>cs'.
      if readable (cn_writeBuffer (fst cs')) = 0 then Some (on_channel disableWriting os me cs') else write_loop os me cs')"
    by (simp add: handleWriteCallBack_def)
  also have "runs conn_faults \<dots> (send_post ep reg mu me cs)"
  proof (rule runs_bindI[OF refreshTimer_runs[OF K conn_ok_base[OF C]]])
    fix cs'
    assume 1: "conn_base ep reg me cs' \<and> conn_frame reg mu me cs cs' \<and> timer_only cs cs'"
    then have ok: "conn_ok ep reg me cs'" "live cs'" and step: "send_post ep reg mu me cs cs'"
      using C True timer_only_conn[of cs cs']
      by (auto simp: conn_ok_def send_post_def conn_step_def same_in_def)
    show "runs conn_faults (if readable (cn_writeBuffer (fst cs')) = 0 then Some (on_channel disableWriting os me cs')
        else write_loop os me cs') (send_post ep reg mu me cs)"
      using runs_mono[OF write_loop_runs[OF K ok] send_post_trans[OF step]]
      by (auto intro!: runs_mono[OF disableWriting_runs[OF K ok]] send_post_trans[OF step] simp: send_post_def[of _ _ _ _ cs'])
  qed
  finally show ?thesis .
qed

lemma sendHttpOnLoop_runs:
  assumes K: "kernel_ok os ep reg mu" and C: "conn_ok ep reg me cs" "live cs"
  shows "runs conn_faults (sendHttpOnLoop os me resp keepAlive cs) (send_post ep reg mu me cs)"
proof -
  let ?cs = "((fst cs)\<lparr>cn_writeBuffer := dataIn resp (cn_writeBuffer (fst cs))\<rparr>, snd cs)"
  have "conn_step ep reg mu me cs ((fst cs)\<lparr>cn_writeBuffer := dataIn resp (cn_writeBuffer (fst cs))\<rparr>, (snd cs)\<lparr>kern := kern (snd cs)\<rparr>)"
    using conn_ok_parts[OF C(1)] by (intro writeBuffer_step[OF C(1)]) simp_all
  then have step: "send_post ep reg mu me cs ?cs" and ok: "conn_ok ep reg me ?cs" "live ?cs"
    using C(2) by (simp_all add: send_post_def same_in_def conn_step_def)
  show ?thesis
    unfolding sendHttpOnLoop_def
  proof (rule runs_bindI[OF trySendToSck_runs[OF K ok]])
    fix cs1
    assume 1: "send_post ep reg mu me ?cs cs1"
    then have step1: "send_post ep reg mu me cs cs1" and ok1: "conn_ok ep reg me cs1"
      using send_post_trans[OF step] by (simp_all add: send_post_def conn_step_def)
    have "runs conn_faults (rbind (Some (on_channel disableReading os me cs1)) (\<lambda>(c, s). ret (c\<lparr>cn_state := peerClose\<rparr>, s)))
        (send_post ep reg mu me cs)"
    proof (rule runs_bindI[OF disableReading_runs[OF K ok1]])
      fix cs2
      assume 2: "conn_step ep reg mu me cs1 ((fst cs2)\<lparr>cn_state := peerClose\<rparr>, snd cs2) \<and> same_in cs1 cs2 \<and>
        \<not> wants_input cs2 \<and> cn_writeBuffer (fst cs2) = cn_writeBuffer (fst cs1)"
      then have "send_post ep reg mu me cs1 ((fst cs2)\<lparr>cn_state := peerClose\<rparr>, snd cs2)"
        by (simp add: send_post_def same_in_def)
      then show "runs conn_faults (case cs2 of (c, s) \<Rightarrow> ret (c\<lparr>cn_state := peerClose\<rparr>, s)) (send_post ep reg mu me cs)"
        using send_post_trans[OF step1] by (cases cs2) simp
    qed
    then show "runs conn_faults (if keepAlive then ret cs1
        else rbind (Some (on_channel disableReading os me cs1)) (\<lambda>(c, s). ret (c\<lparr>cn_state := peerClose\<rparr>, s)))
        (send_post ep reg mu me cs)"
      using step1 by simp
  qed
qed

lemma checkEmpty_send:
  assumes K: "kernel_ok os ep reg mu" and C: "conn_ok ep reg me cs"
  shows "runs conn_faults (Some (checkEmptyReadAfterEof os me cs)) (send_post ep reg mu me cs)"
  by (rule runs_mono[OF checkEmpty_runs[OF K C]]) (simp add: send_post_def same_in_def same_data_def)

lemma submit_job_runs:
  assumes C: "conn_ok ep reg me cs" and stop: "pl_stop (rc_pool (snd cs)) \<Longrightarrow> stopped"
  shows "runs (event_faults stopped) (Some (submit_job me req cs)) (\<lambda>cs'. conn_step ep reg mu me cs cs' \<and>
    cn_readBuffer (fst cs') = cn_readBuffer (fst cs) \<and> cn_http (fst cs') = cn_http (fst cs))"
proof -
  obtain c s where cs: "cs = (c, s)" by fastforce
  have "conn_step ep reg mu me cs (c\<lparr>cn_working := cn_working c + 1\<rparr>,
      s\<lparr>rc_pool := (rc_pool s)\<lparr>pl_tasks := pl_tasks (rc_pool s) @ [(me, req)]\<rparr>\<rparr>)"
    using C by (auto simp: cs conn_step_def conn_ok_def conn_base_def conn_frame_def conn_others_def wants_input_def
        intro: exI[of _ 0] exI[of _ "[req]"])
  then show ?thesis
    using stop by (simp add: submit_job_def cs pool_enqueue_def)
qed

subsection \<open>The request loop\<close>

lemma parse_step:
  assumes C: "conn_ok ep reg me cs" and h: "http_inv (cn_http (fst cs))"
    and p: "parse (cn_http (fst cs)) (cn_readBuffer (fst cs)) = Inr (r, h', b)"
  shows "conn_step ep reg mu me cs ((fst cs)\<lparr>cn_http := h1, cn_readBuffer := b\<rparr>, snd cs)"
    and "r = kNeedMore \<Longrightarrow> http_inv h'"
    and "r = kComplete \<Longrightarrow> readable b < readable (cn_readBuffer (fst cs))"
proof -
  have inv: "buffer_inv (cn_readBuffer (fst cs))" "buffer_inv (cn_writeBuffer (fst cs))"
    using conn_ok_parts[OF C] by simp_all
  note str = parse_to_str[OF inv(1) p]
  have "conn_step ep reg mu me cs ((fst cs)\<lparr>cn_http := h1, cn_readBuffer := b\<rparr>, (snd cs)\<lparr>kern := kern (snd cs)\<rparr>)"
    using inv str by (intro data_step[OF C, where rb = b and wb = "cn_writeBuffer (fst cs)" and h = h1 and w = "cn_working (fst cs)"]) auto
  then show "conn_step ep reg mu me cs ((fst cs)\<lparr>cn_http := h1, cn_readBuffer := b\<rparr>, snd cs)"
    by simp
  show "r = kNeedMore \<Longrightarrow> http_inv h'"
    using parse_str_result[OF conjunct1[OF str] h] by simp
  show "r = kComplete \<Longrightarrow> readable b < readable (cn_readBuffer (fst cs))"
    using parse_complete_shrinks[OF inv(1) h, of h' b] p by simp
qed

lemma parse_fault_allowed:
  assumes "buffer_inv b" and "parse h b = Inl e"
  shows "e \<in> conn_faults"
proof -
  have "parse_str h (peek b) = Inl e"
    using parse_refines[OF assms(1), of h] assms(2) by simp
  from parse_str_Inl[OF this] show ?thesis
    by simp
qed

lemma too_long_runs:
  assumes K: "kernel_ok os ep reg mu" and C: "conn_ok ep reg me cs"
  shows "runs conn_faults (rbind (Some (on_channel disableReading os me cs)) (\<lambda>(c1, s1).
      Some (checkEmptyReadAfterEof os me (c1\<lparr>cn_state := peerClose\<rparr>, s1)))) (conn_post ep reg mu me cs)"
proof (rule runs_bindI[OF disableReading_runs[OF K C]])
  fix cs1
  assume 1: "conn_step ep reg mu me cs ((fst cs1)\<lparr>cn_state := peerClose\<rparr>, snd cs1) \<and> same_in cs cs1 \<and>
    \<not> wants_input cs1 \<and> cn_writeBuffer (fst cs1) = cn_writeBuffer (fst cs)"
  let ?cs = "((fst cs1)\<lparr>cn_state := peerClose\<rparr>, snd cs1)"
  have "input_ok ?cs" "conn_ok ep reg me ?cs"
    using 1 by (simp_all add: input_ok_def wants_input_def conn_step_def)
  then have "runs conn_faults (Some (checkEmptyReadAfterEof os me ?cs)) (conn_post ep reg mu me cs)"
    using 1 by (intro runs_mono[OF checkEmpty_send[OF K]]) (auto intro: conn_post_trans send_post_conn_post)
  then show "runs conn_faults (case cs1 of (c1, s1) \<Rightarrow>
      Some (checkEmptyReadAfterEof os me (c1\<lparr>cn_state := peerClose\<rparr>, s1))) (conn_post ep reg mu me cs)"
    by (cases cs1) simp
qed

lemma bad_request_runs:
  assumes K: "kernel_ok os ep reg mu" and C: "conn_ok ep reg me cs" "live cs"
  shows "runs conn_faults (rbind (sendHttpOnLoop os me build400 False cs) (\<lambda>(c1, s1).
      Some (checkEmptyReadAfterEof os me (c1\<lparr>cn_http := reset (cn_http c1)\<rparr>, s1)))) (conn_post ep reg mu me cs)"
proof (rule runs_bindI[OF sendHttpOnLoop_runs[OF K C]])
  fix cs1
  assume 1: "send_post ep reg mu me cs cs1"
  let ?cs = "((fst cs1)\<lparr>cn_http := reset (cn_http (fst cs1))\<rparr>, snd cs1)"
  have "conn_step ep reg mu me cs ?cs"
    using 1 by (auto simp: send_post_def conn_step_def conn_ok_def conn_base_def conn_frame_def conn_others_def Let_def wants_input_def)
  moreover have "input_ok ?cs"
    by (simp add: input_ok_def)
  moreover have "conn_ok ep reg me ?cs"
    using calculation(1) by (simp add: conn_step_def)
  ultimately have "runs conn_faults (Some (checkEmptyReadAfterEof os me ?cs)) (conn_post ep reg mu me cs)"
    by (intro runs_mono[OF checkEmpty_send[OF K]]) (auto intro: conn_post_trans send_post_conn_post)
  then show "runs conn_faults (case cs1 of (c1, s1) \<Rightarrow>
      Some (checkEmptyReadAfterEof os me (c1\<lparr>cn_http := reset (cn_http c1)\<rparr>, s1))) (conn_post ep reg mu me cs)"
    by (cases cs1) simp
qed

lemma respond_runs:
  assumes K: "kernel_ok os ep reg mu" and C: "conn_ok ep reg me cs" "live cs"
  shows "runs conn_faults (rbind (sendHttpOnLoop os me resp keepAlive cs) (\<lambda>cs1. Some (checkEmptyReadAfterEof os me cs1)))
    (send_post ep reg mu me cs)"
proof (rule runs_bindI[OF sendHttpOnLoop_runs[OF K C]])
  fix cs1
  assume 1: "send_post ep reg mu me cs cs1"
  then have "conn_ok ep reg me cs1"
    by (simp add: send_post_def conn_step_def)
  from runs_mono[OF checkEmpty_send[OF K this] send_post_trans[OF 1]]
  show "runs conn_faults (Some (checkEmptyReadAfterEof os me cs1)) (send_post ep reg mu me cs)" .
qed

lemma conn_update_swap: "c\<lparr>cn_readBuffer := b, cn_http := h\<rparr> = c\<lparr>cn_http := h, cn_readBuffer := b\<rparr>"
  by (cases c) simp

text \<open>One round of the loop on a live connection, the response of a worker-less server in one piece.\<close>

lemma http_loop_round:
  assumes "live cs" and "parse (cn_http (fst cs)) (cn_readBuffer (fst cs)) = Inr (r, h, b)"
  defines "nxt \<equiv> \<lambda>h'. ((fst cs)\<lparr>cn_http := h', cn_readBuffer := b\<rparr>, snd cs)"
  shows "http_loop os me cs =
    (case r of
       kNeedMore \<Rightarrow> ret (nxt h)
     | kLineTooLong \<Rightarrow>
         rbind (Some (on_channel disableReading os me (nxt h))) (\<lambda>(c1, s1).
           Some (checkEmptyReadAfterEof os me (c1\<lparr>cn_state := peerClose\<rparr>, s1)))
     | kError \<Rightarrow>
         rbind (sendHttpOnLoop os me build400 False (nxt h)) (\<lambda>(c1, s1).
           Some (checkEmptyReadAfterEof os me (c1\<lparr>cn_http := reset (cn_http c1)\<rparr>, s1)))
     | kComplete \<Rightarrow>
         (let req = fst (releaseRequest h); cs' = nxt (snd (releaseRequest h)) in
          if cn_useThreadPool (fst cs) then rbind (Some (submit_job me req cs')) (http_loop os me)
          else rbind (rbind (sendHttpOnLoop os me (buildResponse req) (rq_keepAlive req) cs')
                 (\<lambda>cs1. Some (checkEmptyReadAfterEof os me cs1))) (http_loop os me)))"
  using assms(1,2)
  by (subst http_loop.simps)
    (simp add: nxt_def rbind_assoc split_beta conn_update_swap Let_def split: ParseResult.split)

lemma conn_step_pool: "conn_step ep reg mu me cs cs' \<Longrightarrow> pl_stop (rc_pool (snd cs')) = pl_stop (rc_pool (snd cs))"
  by (simp add: conn_step_def conn_frame_def conn_others_def Let_def)

lemma http_loop_runs:
  assumes K: "kernel_ok os ep reg mu"
  shows "conn_ok ep reg me cs \<Longrightarrow> http_inv (cn_http (fst cs)) \<Longrightarrow> (pl_stop (rc_pool (snd cs)) \<Longrightarrow> stopped) \<Longrightarrow>
    runs (event_faults stopped) (http_loop os me cs) (conn_post ep reg mu me cs)"
proof (induction "readable (cn_readBuffer (fst cs))" arbitrary: cs rule: less_induct)
  case less
  show ?case
  proof (cases "live cs")
    case False
    then show ?thesis
      using less.prems by (subst http_loop.simps) (simp add: conn_post_def input_ok_def)
  next
    case True
    show ?thesis
    proof (cases "parse (cn_http (fst cs)) (cn_readBuffer (fst cs))")
      case (Inl e)
      then show ?thesis
        using True parse_fault_allowed[OF _ Inl] conn_ok_parts[OF less.prems(1)] by (subst http_loop.simps) simp
    next
      case (Inr x)
      then obtain r h b where p: "parse (cn_http (fst cs)) (cn_readBuffer (fst cs)) = Inr (r, h, b)"
        by (metis prod_cases3)
      let ?cs = "\<lambda>h'. ((fst cs)\<lparr>cn_http := h', cn_readBuffer := b\<rparr>, snd cs)"
      have step: "conn_step ep reg mu me cs (?cs h')" for h'
        using parse_step(1)[OF less.prems(1,2) p] .
      then have ok: "conn_ok ep reg me (?cs h')" for h'
        by (simp add: conn_step_def)
      show ?thesis
      proof (cases r)
        case kNeedMore
        then show ?thesis
          using step parse_step(2)[OF less.prems(1,2) p] http_loop_round[OF True p, of os me]
          by (simp add: conn_post_def input_ok_def)
      next
        case kLineTooLong
        then show ?thesis
          using runs_mono[OF conn_event_faults[OF too_long_runs[OF K ok]] conn_post_trans[OF step]] http_loop_round[OF True p, of os me]
          by simp
      next
        case kError
        then show ?thesis
          using True runs_mono[OF conn_event_faults[OF bad_request_runs[OF K ok]] conn_post_trans[OF step]] http_loop_round[OF True p, of os me]
          by simp
      next
        case kComplete
        let ?h = "snd (releaseRequest h)" and ?req = "fst (releaseRequest h)"
        have lt: "readable b < readable (cn_readBuffer (fst cs))"
          using parse_step(3)[OF less.prems(1,2) p] kComplete by blast
        have rec: "runs (event_faults stopped) (http_loop os me cs2) (conn_post ep reg mu me cs)"
          if "conn_step ep reg mu me (?cs ?h) cs2" "cn_readBuffer (fst cs2) = b" "cn_http (fst cs2) = ?h" for cs2
        proof -
          have "conn_step ep reg mu me cs cs2"
            using step that(1) by (rule conn_step_trans)
          then have "runs (event_faults stopped) (http_loop os me cs2) (conn_post ep reg mu me cs2)"
              "conn_step ep reg mu me cs cs2"
            using that(2,3) lt less.hyps[of cs2] less.prems(3) by (simp_all add: conn_step_def conn_step_pool)
          then show ?thesis
            by (auto elim!: runs_mono intro: conn_post_trans)
        qed
        note body = http_loop_round[OF True p, of os me, unfolded kComplete Let_def, simplified]
        show ?thesis
        proof (cases "cn_useThreadPool (fst (?cs ?h))")
          case True
          have "runs (event_faults stopped) (rbind (Some (submit_job me ?req (?cs ?h))) (\<lambda>cs'. http_loop os me cs')) (conn_post ep reg mu me cs)"
            by (rule runs_bindI[OF submit_job_runs[where mu = mu, OF ok]], simp add: less.prems(3)) (rule rec, simp_all)
          then show ?thesis
            using True body by simp
        next
          case False
          have live: "live (?cs ?h)"
            using \<open>live cs\<close> by simp
          have "runs (event_faults stopped) (rbind (rbind (sendHttpOnLoop os me (buildResponse ?req) (rq_keepAlive ?req) (?cs ?h))
               (\<lambda>cs1. Some (checkEmptyReadAfterEof os me cs1))) (\<lambda>cs2. http_loop os me cs2)) (conn_post ep reg mu me cs)"
            by (rule runs_bindI[OF conn_event_faults[OF respond_runs[OF K ok live]]]) (rule rec, simp_all add: send_post_def same_in_def)
          then show ?thesis
            using False body by simp
        qed
      qed
    qed
  qed
qed

subsection \<open>The callbacks\<close>

lemma onHttp_runs:
  assumes K: "kernel_ok os ep reg mu" and C: "conn_ok ep reg me cs" "live cs" and h: "http_inv (cn_http (fst cs))"
    and stop: "pl_stop (rc_pool (snd cs)) \<Longrightarrow> stopped"
  shows "runs (event_faults stopped) (onHttp os me cs) (conn_post ep reg mu me cs)"
  unfolding onHttp_def
proof (rule runs_bindI[OF conn_event_faults[OF readFromSck_runs[OF K C]]])
  fix cs1
  assume 1: "conn_step ep reg mu me cs cs1 \<and> same_out cs cs1"
  then have step: "conn_step ep reg mu me cs cs1" and ok: "conn_ok ep reg me cs1" "http_inv (cn_http (fst cs1))" "input_ok cs1"
    using h by (simp_all add: conn_step_def same_out_def input_ok_def)
  have "runs (event_faults stopped) (Some (checkEmptyReadAfterEof os me cs1)) (conn_post ep reg mu me cs)"
    using ok by (intro runs_mono[OF conn_event_faults[OF checkEmpty_send[OF K ok(1)]]]) (auto intro: conn_post_trans[OF step] send_post_conn_post)
  then show "runs (event_faults stopped) (if readable (cn_readBuffer (fst cs1)) = 0 then Some (checkEmptyReadAfterEof os me cs1)
      else http_loop os me cs1) (conn_post ep reg mu me cs)"
    using runs_mono[OF http_loop_runs[OF K ok(1,2)] conn_post_trans[OF step]] stop conn_step_pool[OF step] by simp
qed

lemma handleReadCallBack_runs:
  assumes K: "kernel_ok os ep reg mu" and C: "conn_ok ep reg me cs" "live cs" and h: "http_inv (cn_http (fst cs))"
    and stop: "pl_stop (rc_pool (snd cs)) \<Longrightarrow> stopped"
  shows "runs (event_faults stopped) (handleReadCallBack os me cs) (conn_post ep reg mu me cs)"
  unfolding handleReadCallBack_def
proof (rule runs_bindI[OF conn_event_faults[OF refreshTimer_runs[OF K conn_ok_base[OF C(1)]]]])
  fix cs'
  assume 1: "conn_base ep reg me cs' \<and> conn_frame reg mu me cs cs' \<and> timer_only cs cs'"
  then have step: "conn_step ep reg mu me cs cs'" and ok: "conn_ok ep reg me cs'" "live cs'" "http_inv (cn_http (fst cs'))"
    using C h timer_only_conn[of cs cs'] by (auto simp: conn_ok_def conn_step_def)
  show "runs (event_faults stopped) (onHttp os me cs') (conn_post ep reg mu me cs)"
    by (rule runs_mono[OF onHttp_runs[OF K ok] conn_post_trans[OF step]]) (simp_all add: stop conn_step_pool[OF step])
qed

text \<open>
  What epoll reports is what is registered: the connection is not out of epoll, and \<open>EPOLLIN\<close> comes
  only while it is asked for.
\<close>

definition event_ok :: "32 word \<Rightarrow> ('k, 'z) cstate \<Rightarrow> bool" where
  "event_ok revents cs \<longleftrightarrow> live cs \<and> (revents AND EPOLLIN \<noteq> 0 \<longrightarrow> wants_input cs)"

lemma conn_event_runs:
  assumes K: "kernel_ok os ep reg mu" and C: "conn_ok ep reg me cs" "input_ok cs" and e: "event_ok revents cs"
    and stop: "pl_stop (rc_pool (snd cs)) \<Longrightarrow> stopped"
  shows "runs (event_faults stopped) (conn_event os me revents cs) (conn_post ep reg mu me cs)"
  unfolding conn_event_def channel_handle_def
proof (rule runs_bindI)
  show "runs (event_faults stopped) (if revents AND EPOLLIN \<noteq> 0 then handleReadCallBack os me cs else ret cs) (conn_post ep reg mu me cs)"
    using e C handleReadCallBack_runs[OF K C(1) _ _ stop] by (auto simp: event_ok_def input_ok_def conn_post_def)
next
  fix cs'
  assume 1: "conn_post ep reg mu me cs cs'"
  then have ok: "conn_ok ep reg me cs'" "input_ok cs'" and step: "conn_step ep reg mu me cs cs'"
    by (simp_all add: conn_post_def conn_step_def)
  have "runs (event_faults stopped) (handleWriteCallBack os me cs') (conn_post ep reg mu me cs)"
    by (rule runs_mono[OF conn_event_faults[OF handleWriteCallBack_runs[OF K ok(1)]] conn_post_trans[OF step send_post_conn_post[OF _ ok(2)]]])
  then show "runs (event_faults stopped) (if revents AND EPOLLOUT \<noteq> 0 then handleWriteCallBack os me cs' else ret cs')
      (conn_post ep reg mu me cs)"
    using 1 by simp
qed

lemma response_done_runs:
  assumes K: "kernel_ok os ep reg mu" and C: "conn_ok ep reg me cs" "input_ok cs"
  shows "runs conn_faults (response_done os me resp keepAlive cs) (conn_post ep reg mu me cs)"
proof -
  let ?cs = "((fst cs)\<lparr>cn_working := cn_working (fst cs) - 1\<rparr>, snd cs)"
  have "conn_step ep reg mu me cs ((fst cs)\<lparr>cn_working := cn_working (fst cs) - 1\<rparr>, (snd cs)\<lparr>kern := kern (snd cs)\<rparr>)"
    using conn_ok_parts[OF C(1)] by (intro data_step[OF C(1), where rb = "cn_readBuffer (fst cs)" and
        wb = "cn_writeBuffer (fst cs)" and h = "cn_http (fst cs)" and w = "cn_working (fst cs) - 1"]) auto
  then have step: "conn_step ep reg mu me cs ?cs" and ok: "conn_ok ep reg me ?cs" "input_ok ?cs"
    using C(2) by (simp_all add: conn_step_def input_ok_def wants_input_def)
  have "runs conn_faults (rbind (sendHttpOnLoop os me resp keepAlive ?cs) (\<lambda>cs1. Some (checkEmptyReadAfterEof os me cs1)))
      (conn_post ep reg mu me cs)" if "live ?cs"
    using runs_mono[OF respond_runs[OF K ok(1) that] conn_post_trans[OF step send_post_conn_post[OF _ ok(2)]]] .
  then show ?thesis
    using step ok by (simp add: response_done_def conn_post_def Let_def)
qed

lemma conn_stop_runs:
  assumes K: "kernel_ok os ep reg mu" and C: "conn_ok ep reg me cs"
  shows "runs conn_faults (Some (conn_stop os me cs)) (\<lambda>cs'. send_post ep reg mu me cs cs' \<and> \<not> live cs' \<and>
    lp_tasks (snd cs') = lp_tasks (snd cs))"
proof (cases "live cs")
  case True
  have "runs conn_faults (Some (conn_shut os me cs)) (\<lambda>cs'. send_post ep reg mu me cs cs' \<and> \<not> live cs' \<and>
      lp_tasks (snd cs') = lp_tasks (snd cs))"
    by (rule runs_mono[OF conn_shut_runs[OF K conn_ok_base[OF C]]])
      (simp add: send_post_def conn_step_def same_in_def same_data_def shut_ok, simp add: shut_def)
  then show ?thesis
    using True by (simp add: conn_stop_def)
qed (use C in \<open>simp add: conn_stop_def send_post_def\<close>)

subsection \<open>Starting\<close>

lemma startConnect_runs:
  assumes K: "kernel_ok os ep reg mu" and s: "epfd s = ep" "timers_wf (tq s)" "reg (kern s) (so_fd sock) = None"
    and none: "\<forall>x \<in> set (tq_timers (tq s)). tm_callBack (snd x) \<noteq> me"
  shows "runs conn_faults (Some (startConnect os me (Connection_new sock f, s))) (\<lambda>cs'. conn_ok ep reg me cs' \<and>
    input_ok cs' \<and> live cs' \<and> conn_others reg mu me (Connection_new sock f, s) cs')"
proof -
  let ?c = "Connection_new sock f"
  have base: "conn_base ep reg me (?c, s)"
    using s none by (auto simp: conn_base_def Connection_new_def Channel_new_def synced_def timers_wf_def)
  show ?thesis
    unfolding startConnect_def
  proof (rule runs_ebindI[OF on_channel_others[where f = enableReading, OF K base enableReading_def]])
    fix cs1
    assume 1: "ch_events (cn_channel (fst cs1)) = ch_events (cn_channel (fst (?c, s))) OR (EPOLLIN OR EPOLLET) \<and>
      conn_base ep reg me cs1 \<and> conn_others reg mu me (?c, s) cs1 \<and> channel_only (?c, s) cs1 \<and>
      ch_inEpoll (cn_channel (fst cs1))"
    obtain c s1 where cs1: "cs1 = (c, s1)" by fastforce
    have c: "conn_base ep reg me (c, s1)" "tq s1 = tq s" "cn_state c = connected" "cn_http c = HttpProcess_new"
        "ch_inEpoll (cn_channel c)"
      using 1 channel_only_conn[of "(?c, s)" cs1] by (simp_all add: cs1 Connection_new_def)
    then have "runs conn_faults (Some (addTimer os me s1)) (\<lambda>(i, s'). conn_base ep reg me (c\<lparr>cn_timerId := i\<rparr>, s') \<and>
        conn_frame reg mu me (c, s1) (c\<lparr>cn_timerId := i\<rparr>, s') \<and> (\<exists>q k. s' = s1\<lparr>tq := q, kern := k\<rparr>))"
      using addTimer_runs[OF K c(1)] none by simp
    then show "runs conn_faults (Some (case cs1 of (c, s) \<Rightarrow>
        ebind (addTimer os me s) (\<lambda>(i, s'). Inr (c\<lparr>cn_timerId := i\<rparr>, s'))))
        (\<lambda>cs'. conn_ok ep reg me cs' \<and> input_ok cs' \<and> live cs' \<and> conn_others reg mu me (?c, s) cs')"
      unfolding cs1 split using c 1 conn_others_trans
      by (elim runs_ebindI) (fastforce simp: conn_ok_def input_ok_def conn_frame_def cs1)
  qed
qed

subsection \<open>Properties\<close>

text \<open>A loop with a scripted kernel, and a connection that has been started on it.\<close>

definition demo_reactor :: "skern \<Rightarrow> skern reactor" where
  "demo_reactor k =
     \<lparr>kern = k, epfd = 4, tq = \<lparr>tq_timerId = 0, tq_timeFd = 5, tq_chan = Channel_new 5, tq_timers = []\<rparr>,
      lp_tasks = [], lp_stop = False, lp_fd = 3, lp_chan = Channel_new 3, lp_signal = False, rc_pool = pool_new\<rparr>"

definition demo_socket :: socket where
  "demo_socket = \<lparr>so_fd = 7, so_port = 8888, so_peerAddr = ''peer''\<rparr>"

definition demo_cs :: "bool \<Rightarrow> skern \<Rightarrow> (skern, unit) cstate" where
  "demo_cs f k = projr (startConnect sos 1 (Connection_new demo_socket f, demo_reactor k))"

lemma demo_cs:
  assumes "sk_interest k = []" and "sk_clock k = []"
  shows "startConnect sos 1 (Connection_new demo_socket f, demo_reactor k) = Inr (demo_cs f k)"
    "conn_ok 4 sk_reg 1 (demo_cs f k)" "input_ok (demo_cs f k)" "live (demo_cs f k)" "wants_input (demo_cs f k)"
proof -
  have run: "runs conn_faults (Some (startConnect sos 1 (Connection_new demo_socket f, demo_reactor k)))
      (\<lambda>cs'. conn_ok 4 sk_reg 1 cs' \<and> input_ok cs' \<and> live cs' \<and>
        conn_others sk_reg sk_supply 1 (Connection_new demo_socket f, demo_reactor k) cs')"
    by (rule startConnect_runs[OF sos_kernel_ok])
      (use assms in \<open>simp_all add: demo_reactor_def sk_reg_def timers_wf_def map_wf_def INT_MAX_def\<close>)
  show start: "startConnect sos 1 (Connection_new demo_socket f, demo_reactor k) = Inr (demo_cs f k)"
    "wants_input (demo_cs f k)"
    using assms
    by (simp_all add: demo_cs_def startConnect_def on_channel_def enableReading_def epoll_updateChannel_def Connection_new_def
        demo_reactor_def demo_socket_def Channel_new_def sk_epoll_ctl_def addTimer_def timerq_addTimer_def now_def
        sk_now_def INT_MAX_def refreshClock_def Let_def wants_input_def EPOLLIN_def EPOLLET_def)
  show "conn_ok 4 sk_reg 1 (demo_cs f k)" "input_ok (demo_cs f k)" "live (demo_cs f k)"
    using run unfolding start(1) by simp_all
qed

lemma demo_cs_fields:
  assumes "sk_interest k = []" and "sk_clock k = []"
    and "demo_cs f k = (c, s)"
  shows "cn_useThreadPool c = f" "cn_sck c = demo_socket" "cn_working c = 0" "cn_http c = HttpProcess_new"
    "cn_readBuffer c = Buffer_new" "cn_writeBuffer c = Buffer_new" "cn_state c = connected"
    "sk_reads (kern s) = sk_reads k" "sk_writes (kern s) = sk_writes k" "sk_sent (kern s) = sk_sent k"
    "lp_tasks s = []" "lp_stop s = False" "rc_pool s = pool_new"
  using assms
  by (auto simp: demo_cs_def startConnect_def on_channel_def enableReading_def epoll_updateChannel_def
      Connection_new_def demo_reactor_def demo_socket_def Channel_new_def sk_epoll_ctl_def addTimer_def timerq_addTimer_def
      now_def sk_now_def INT_MAX_def refreshClock_def Let_def)

lemma skern0_fields [simp]: "sk_interest skern0 = []" "sk_clock skern0 = []"
  by (simp_all add: skern0_def)

text \<open>
  C30. A new connection that \<open>startConnect\<close> has started is consistent: it is in epoll with its own
  descriptor, exactly its own timer points to it, and nothing else on the loop has changed; the
  start itself returns and can only fail for the clock or the timerfd.
\<close>

theorem connection_starts:
  assumes "kernel_ok os ep reg mu" and "epfd s = ep" and "timers_wf (tq s)" and "reg (kern s) (so_fd sock) = None"
    and "\<forall>x \<in> set (tq_timers (tq s)). tm_callBack (snd x) \<noteq> me"
  shows "runs conn_faults (Some (startConnect os me (Connection_new sock f, s))) (\<lambda>cs'. conn_ok ep reg me cs' \<and>
    input_ok cs' \<and> live cs' \<and> conn_others reg mu me (Connection_new sock f, s) cs')"
  by (rule startConnect_runs[OF assms])

theorem connection_starts_witness:
  "\<exists>cs. startConnect sos 1 (Connection_new demo_socket False, demo_reactor skern0) = Inr cs \<and> conn_ok 4 sk_reg 1 cs \<and> live cs"
proof -
  have "runs conn_faults (Some (startConnect sos 1 (Connection_new demo_socket False, demo_reactor skern0))) (\<lambda>cs'. conn_ok 4 sk_reg 1 cs' \<and>
    input_ok cs' \<and> live cs' \<and> conn_others sk_reg sk_supply 1 (Connection_new demo_socket False, demo_reactor skern0) cs')"
    by (rule connection_starts[OF sos_kernel_ok])
      (simp_all add: demo_reactor_def sk_reg_def skern0_def timers_wf_def map_wf_def INT_MAX_def)
  then show ?thesis
    using demo_cs(1)[of skern0 False] by simp
qed

text \<open>
  C6. Whatever epoll reports for a live connection, and whenever a worker's response comes back,
  the handler returns (the kernel does not feed or interrupt it for ever); the process stops only
  for the listed faults, never in an exit of Epoll or Buffer, and by the exception of the pool only
  when the pool has been stopped; and afterwards the connection is consistent again: a dead
  connection, and only a dead one, is out of epoll and has no timer.
  Other connections' timers, descriptors and tasks are untouched; all that is added to the loop
  are removals of this connection, and to the pool jobs of this connection.
\<close>

theorem connection_handlers:
  assumes "kernel_ok os ep reg mu" and "conn_ok ep reg me cs" and "input_ok cs"
  shows "(event_ok revents cs \<longrightarrow> runs (event_faults (pl_stop (rc_pool (snd cs)))) (conn_event os me revents cs)
        (\<lambda>cs'. conn_ok ep reg me cs' \<and> input_ok cs' \<and> conn_others reg mu me cs cs')) \<and>
     runs conn_faults (response_done os me resp keepAlive cs)
        (\<lambda>cs'. conn_ok ep reg me cs' \<and> input_ok cs' \<and> conn_others reg mu me cs cs')"
proof -
  have "conn_ok ep reg me cs' \<and> input_ok cs' \<and> conn_others reg mu me cs cs'" if "conn_post ep reg mu me cs cs'" for cs'
    using that by (simp add: conn_post_def conn_step_def conn_frame_def)
  then show ?thesis
    using runs_mono[OF conn_event_runs[OF assms, of revents "pl_stop (rc_pool (snd cs))"]] runs_mono[OF response_done_runs[OF assms]] by simp
qed

theorem connection_handlers_witness:
  "\<exists>cs :: (skern, unit) cstate. live cs \<and> runs (event_faults (pl_stop (rc_pool (snd cs)))) (conn_event sos 1 (EPOLLIN OR EPOLLOUT) cs) (\<lambda>cs'. conn_ok 4 sk_reg 1 cs') \<and>
     runs conn_faults (response_done sos 1 ''abc'' True cs) (\<lambda>cs'. conn_ok 4 sk_reg 1 cs')"
proof -
  note cs = demo_cs[OF skern0_fields, of False]
  have "event_ok (EPOLLIN OR EPOLLOUT) (demo_cs False skern0)"
    using cs by (simp add: event_ok_def)
  then show ?thesis
    using connection_handlers[OF sos_kernel_ok cs(2,3), where revents = "EPOLLIN OR EPOLLOUT" and resp = "''abc''" and keepAlive = True] cs(4)
    by (intro exI[of _ "demo_cs False skern0"]) (auto elim!: runs_mono)
qed

text \<open>
  C13. Closing is final and idempotent: after \<open>handleDead\<close> or \<open>stop\<close> the connection is dead, its
  descriptor is out of the interest list, no timer points to it, and a further \<open>handleDead\<close> or
  \<open>stop\<close> changes nothing. \<open>handleDead\<close> of a live connection queues its removal once, \<open>stop\<close> queues
  nothing.
\<close>

lemma handleDead_tasks:
  "handleDead os me cs = Inr cs' \<Longrightarrow> live cs \<Longrightarrow> \<not> lp_stop (snd cs) \<Longrightarrow>
   lp_tasks (snd cs') = lp_tasks (snd cs) @ [TRemoveConnection me]"
  by (cases cs) (auto simp: handleDead_def conn_shut_def deleteTimer_def enqueueTask_def wakeup_write_def push_task_def
      ebind_eq_Inr split: prod.splits)

lemma dead_out: "conn_ok ep reg me cs \<Longrightarrow> \<not> live cs \<Longrightarrow>
   reg (kern (snd cs)) (so_fd (cn_sck (fst cs))) = None \<and> (\<forall>x \<in> set (tq_timers (tq (snd cs))). tm_callBack (snd x) \<noteq> me) \<and>
   handleDead os me cs = Inr cs \<and> conn_stop os me cs = Inr cs"
  by (auto simp: conn_ok_def conn_base_def Let_def synced_def handleDead_def conn_stop_def)

theorem closing_is_final:
  assumes "kernel_ok os ep reg mu" and "conn_ok ep reg me cs"
  shows "runs conn_faults (Some (handleDead os me cs)) (\<lambda>cs'. cn_state (fst cs') = dead \<and>
        reg (kern (snd cs')) (so_fd (cn_sck (fst cs))) = None \<and> (\<forall>x \<in> set (tq_timers (tq (snd cs'))). tm_callBack (snd x) \<noteq> me) \<and>
        handleDead os me cs' = Inr cs' \<and> conn_stop os me cs' = Inr cs' \<and>
        (live cs \<and> \<not> lp_stop (snd cs) \<longrightarrow> lp_tasks (snd cs') = lp_tasks (snd cs) @ [TRemoveConnection me])) \<and>
     runs conn_faults (Some (conn_stop os me cs)) (\<lambda>cs'. cn_state (fst cs') = dead \<and>
        reg (kern (snd cs')) (so_fd (cn_sck (fst cs))) = None \<and> (\<forall>x \<in> set (tq_timers (tq (snd cs'))). tm_callBack (snd x) \<noteq> me) \<and>
        handleDead os me cs' = Inr cs' \<and> conn_stop os me cs' = Inr cs' \<and> lp_tasks (snd cs') = lp_tasks (snd cs))"
proof -
  have out: "cn_state (fst cs') = dead \<and> reg (kern (snd cs')) (so_fd (cn_sck (fst cs))) = None \<and>
      (\<forall>x \<in> set (tq_timers (tq (snd cs'))). tm_callBack (snd x) \<noteq> me) \<and> handleDead os me cs' = Inr cs' \<and> conn_stop os me cs' = Inr cs'"
    if "conn_step ep reg mu me cs cs'" "\<not> live cs'" for cs'
    using dead_out[of ep reg me cs' os] that by (auto simp: conn_step_def conn_frame_def conn_others_def Let_def)
  have "runs conn_faults (Some (conn_stop os me cs)) (\<lambda>cs'. cn_state (fst cs') = dead \<and>
        reg (kern (snd cs')) (so_fd (cn_sck (fst cs))) = None \<and> (\<forall>x \<in> set (tq_timers (tq (snd cs'))). tm_callBack (snd x) \<noteq> me) \<and>
        handleDead os me cs' = Inr cs' \<and> conn_stop os me cs' = Inr cs' \<and> lp_tasks (snd cs') = lp_tasks (snd cs))"
    by (rule runs_mono[OF conn_stop_runs[OF assms]]) (unfold send_post_def, use out in blast)
  moreover have "runs conn_faults (Some (handleDead os me cs)) (\<lambda>cs'. cn_state (fst cs') = dead \<and>
        reg (kern (snd cs')) (so_fd (cn_sck (fst cs))) = None \<and> (\<forall>x \<in> set (tq_timers (tq (snd cs'))). tm_callBack (snd x) \<noteq> me) \<and>
        handleDead os me cs' = Inr cs' \<and> conn_stop os me cs' = Inr cs' \<and>
        (live cs \<and> \<not> lp_stop (snd cs) \<longrightarrow> lp_tasks (snd cs') = lp_tasks (snd cs) @ [TRemoveConnection me]))"
    using handleDead_runs[OF assms] out handleDead_tasks[of os me cs] by (elim runs_cases) auto
  ultimately show ?thesis
    by (rule conjI[rotated])
qed

theorem closing_is_final_witness:
  "\<exists>cs :: (skern, unit) cstate. live cs \<and> runs conn_faults (Some (handleDead sos 1 cs)) (\<lambda>cs'. cn_state (fst cs') = dead \<and>
     sk_reg (kern (snd cs')) 7 = None \<and> lp_tasks (snd cs') = [TRemoveConnection 1])"
proof -
  obtain c s where cs: "demo_cs False skern0 = (c, s)" by fastforce
  show ?thesis
    using closing_is_final[OF sos_kernel_ok demo_cs(2)[OF skern0_fields, of False]] demo_cs(4)[OF skern0_fields, of False]
      demo_cs_fields[OF skern0_fields cs]
    by (intro exI[of _ "(c, s)"]) (auto simp: demo_socket_def cs elim!: runs_mono)
qed

end
