(* ===== verification/Serve.thy ===== *)
theory Serve
  imports HttpProcess
begin

section \<open>The specification of the server on one connection\<close>

text \<open>
  A function from the bytes received to the list of responses. ConnStream.thy shows that the request
  loop of a connection refines it; ClientProps.thy uses it as the client's view of the server.
\<close>

subsection \<open>The specification: what a byte string asks for\<close>

text \<open>
  \<open>serve h s\<close>: the replies to the bytes \<open>s\<close> read by a parser in state \<open>h\<close>, and how it ends:
  waiting for more with a parser state and an unparsed rest, having rejected the input, or in an
  exception. A request with \<open>Connection: close\<close> does not end it, as in the code.
\<close>

datatype serve_end = Waiting http string | Rejected | Failed fault

function serve :: "http \<Rightarrow> string \<Rightarrow> string list \<times> serve_end" where
  "serve h s =
     (case parse_str h s of
        Inl e \<Rightarrow> ([], Failed e)
      | Inr (r, h', s') \<Rightarrow>
          (case r of
             kNeedMore \<Rightarrow> ([], Waiting h' s')
           | kLineTooLong \<Rightarrow> ([], Rejected)
           | kError \<Rightarrow> ([build400], Rejected)
           | kComplete \<Rightarrow>
               if length s' < length s then
                 (case serve (snd (releaseRequest h')) s' of
                    (rs, e) \<Rightarrow> (buildResponse (fst (releaseRequest h')) # rs, e))
               else ([], Rejected)))"
  by pat_completeness auto
termination
  by (relation "measure (\<lambda>(h, s). length s)") auto

declare serve.simps [simp del]

lemma serve_complete:
  assumes "parse_str h s = Inr (kComplete, h', s')" and "http_inv h"
  shows "serve h s = (buildResponse (fst (releaseRequest h')) # fst (serve (snd (releaseRequest h')) s'),
    snd (serve (snd (releaseRequest h')) s'))"
  using parse_str_result[OF assms] assms(1) by (subst serve.simps) (simp split: prod.split)

lemma serve_stop:
  "parse_str h s = Inr (kNeedMore, h', s') \<Longrightarrow> serve h s = ([], Waiting h' s')"
  "parse_str h s = Inr (kLineTooLong, h', s') \<Longrightarrow> serve h s = ([], Rejected)"
  "parse_str h s = Inr (kError, h', s') \<Longrightarrow> serve h s = ([build400], Rejected)"
  "parse_str h s = Inl e \<Longrightarrow> serve h s = ([], Failed e)"
  by (subst serve.simps; simp)+

lemma serve_Nil [simp]: "serve h [] = ([], Waiting h [])"
  by (rule serve_stop(1)) (simp add: parse_str_def line_str_def headers_str.simps[of h "[]"] split: PState.split)

lemma serve_cong:
  assumes "parse_str h s = parse_str h' s'" and "http_inv h" and "http_inv h'"
  shows "serve h s = serve h' s'"
proof (cases "parse_str h s")
  case (Inl e)
  then show ?thesis
    using assms(1) by (simp add: serve_stop)
next
  case (Inr x)
  then obtain r h1 s1 where p: "parse_str h s = Inr (r, h1, s1)"
    by (metis prod_cases3)
  then have p': "parse_str h' s' = Inr (r, h1, s1)"
    using assms(1) by simp
  show ?thesis
    using p p' serve_complete[of h s h1 s1] serve_complete[of h' s' h1 s1] assms(2,3)
    by (cases r) (simp_all add: serve_stop)
qed

text \<open>Serving a string in two parts: when the first part ends waiting, nothing is lost at the cut.\<close>

lemma serve_append:
  "http_inv h \<Longrightarrow> snd (serve h s) = Waiting h' s' \<Longrightarrow>
   serve h (s @ t) = (fst (serve h s) @ fst (serve h' (s' @ t)), snd (serve h' (s' @ t)))"
proof (induction h s rule: serve.induct)
  case (1 h s)
  show ?case
  proof (cases "parse_str h s")
    case (Inl e)
    then show ?thesis
      using 1(3) by (simp add: serve_stop)
  next
    case (Inr x)
    then obtain r h1 s1 where p: "parse_str h s = Inr (r, h1, s1)"
      by (metis prod_cases3)
    show ?thesis
    proof (cases r)
      case kNeedMore
      then have "h' = h1" "s' = s1"
        using 1(3) p by (simp_all add: serve_stop)
      then have "parse_str h (s @ t) = parse_str h' (s' @ t)"
        using parse_str_resume p kNeedMore by blast
      moreover have "http_inv h'"
        using parse_str_result[OF p 1(2)] kNeedMore \<open>h' = h1\<close> by simp
      ultimately have "serve h (s @ t) = serve h' (s' @ t)"
        using serve_cong 1(2) by blast
      then show ?thesis
        using p kNeedMore by (simp add: serve_stop)
    next
      case kComplete
      then have p': "parse_str h s = Inr (kComplete, h1, s1)" and lt: "length s1 < length s"
        using p parse_str_result[OF p 1(2)] by simp_all
      have "parse_str h (s @ t) = Inr (kComplete, h1, s1 @ t)"
        using parse_str_extend[OF p'] by simp
      then show ?thesis
        using 1 p' lt serve_complete[OF p' 1(2)] serve_complete[of h "s @ t" h1 "s1 @ t"] by simp
    qed (use 1(3) p in \<open>simp_all add: serve_stop\<close>)
  qed
qed

end
