(* ===== verification/ConnStream.thy ===== *)
theory ConnStream
  imports ConnHandlers Serve
begin

section \<open>What a connection sends\<close>

text \<open>
  The bytes: whatever the sizes of the reads and writes, the bytes that have left through the
  socket followed by those in the write buffer are the responses to the requests, in order. The
  specification \<open>serve\<close> of Serve.thy reads a string and lists the responses; the request loop of Connection.thy
  refines it. Then the ways in which the code falls short of its comments.
\<close>

subsection \<open>The bytes on the wire\<close>

text \<open>
  \<open>sent k fd\<close> and \<open>recvd k fd\<close> are the bytes the kernel has taken from and delivered to the program
  on a descriptor. No other call changes them.
\<close>

type_synonym 'k wire = "'k \<Rightarrow> int \<Rightarrow> string"

definition wire_spec :: "'k os \<Rightarrow> 'k wire \<Rightarrow> 'k wire \<Rightarrow> bool" where
  "wire_spec os sent recvd \<longleftrightarrow>
     (\<forall>fd s k r k'. os_write os fd s k = (r, k') \<longrightarrow> recvd k' = recvd k \<and>
        sent k' fd = sent k fd @ (case r of Inr n \<Rightarrow> take n s | Inl e \<Rightarrow> [])) \<and>
     (\<forall>fd n k r k'. os_readv os fd n k = (r, k') \<longrightarrow> sent k' = sent k \<and>
        recvd k' fd = recvd k fd @ (case r of Inr d \<Rightarrow> d | Inl e \<Rightarrow> [])) \<and>
     (\<forall>fd k. sent (snd (os_write8 os fd k)) = sent k \<and> recvd (snd (os_write8 os fd k)) = recvd k) \<and>
     (\<forall>ep op fd ev k. sent (snd (os_epoll_ctl os ep op fd ev k)) = sent k \<and> recvd (snd (os_epoll_ctl os ep op fd ev k)) = recvd k) \<and>
     (\<forall>fd t k. sent (snd (os_settime os fd t k)) = sent k \<and> recvd (snd (os_settime os fd t k)) = recvd k) \<and>
     (\<forall>k. sent (snd (os_now os k)) = sent k \<and> recvd (snd (os_now os k)) = recvd k)"

lemma sos_wire_spec: "wire_spec sos (\<lambda>k fd. sk_sent k) (\<lambda>k fd. sk_recvd k)"
  by (auto simp: wire_spec_def sk_write_def sk_readv_def sk_epoll_ctl_def sk_now_def Let_def min_def
      split: list.splits sum.splits ctl_op.splits if_splits)

lemma wire_specD:
  assumes "wire_spec os sent recvd"
  shows "os_write os fd s k = (r, k') \<Longrightarrow> sent k' fd = sent k fd @ (case r of Inr n \<Rightarrow> take n s | Inl e \<Rightarrow> []) \<and> recvd k' = recvd k"
    and "os_readv os fd n k = (q, k') \<Longrightarrow> recvd k' fd = recvd k fd @ (case q of Inr d \<Rightarrow> d | Inl e \<Rightarrow> []) \<and> sent k' = sent k"
    and "os_write8 os fd k = (r1, k') \<Longrightarrow> sent k' = sent k \<and> recvd k' = recvd k"
    and "os_epoll_ctl os e op fd ev k = (r2, k') \<Longrightarrow> sent k' = sent k \<and> recvd k' = recvd k"
    and "os_settime os fd t k = (r3, k') \<Longrightarrow> sent k' = sent k \<and> recvd k' = recvd k"
    and "os_now os k = (r4, k') \<Longrightarrow> sent k' = sent k \<and> recvd k' = recvd k"
  using assms unfolding wire_spec_def by (metis snd_conv)+

text \<open>What has gone out or is about to, and what has come in but is not yet parsed.\<close>

definition outgoing :: "'k wire \<Rightarrow> ('k, 'z) cstate \<Rightarrow> string" where
  "outgoing sent cs = sent (kern (snd cs)) (so_fd (cn_sck (fst cs))) @ peek (cn_writeBuffer (fst cs))"

text \<open>Operations that move no byte: the wire, both buffers and the descriptor stay.\<close>

definition quiet :: "'k wire \<Rightarrow> 'k wire \<Rightarrow> ('k, 'z) cstate \<Rightarrow> ('k, 'z) cstate \<Rightarrow> bool" where
  "quiet sent recvd cs cs' \<longleftrightarrow>
     sent (kern (snd cs')) = sent (kern (snd cs)) \<and> recvd (kern (snd cs')) = recvd (kern (snd cs)) \<and>
     cn_sck (fst cs') = cn_sck (fst cs) \<and> cn_writeBuffer (fst cs') = cn_writeBuffer (fst cs) \<and>
     cn_readBuffer (fst cs') = cn_readBuffer (fst cs) \<and> cn_http (fst cs') = cn_http (fst cs) \<and>
     cn_useThreadPool (fst cs') = cn_useThreadPool (fst cs)"

lemma quiet_refl [simp]: "quiet sent recvd cs cs"
  by (simp add: quiet_def)

lemma quiet_trans: "quiet sent recvd a b \<Longrightarrow> quiet sent recvd b c \<Longrightarrow> quiet sent recvd a c"
  by (simp add: quiet_def)

lemma quiet_outgoing: "quiet sent recvd cs cs' \<Longrightarrow> outgoing sent cs' = outgoing sent cs"
  by (simp add: quiet_def outgoing_def)

lemma updateChannel_wire:
  "wire_spec os sent recvd \<Longrightarrow> epoll_updateChannel os ep p c k = Inr (c', k') \<Longrightarrow> sent k' = sent k \<and> recvd k' = recvd k"
  by (cases "ch_inEpoll c") (auto simp: epoll_updateChannel_def ebind_eq_Inr dest: wire_specD(4) split: prod.splits)

lemma removeChannel_wire:
  "wire_spec os sent recvd \<Longrightarrow> epoll_removeChannel os ep c k = Inr (c', k') \<Longrightarrow> sent k' = sent k \<and> recvd k' = recvd k"
  by (auto simp: epoll_removeChannel_def ebind_eq_Inr dest: wire_specD(4) split: prod.splits if_splits)

lemma refreshClock_wire:
  "wire_spec os sent recvd \<Longrightarrow> refreshClock os q k = Inr k' \<Longrightarrow> sent k' = sent k \<and> recvd k' = recvd k"
  unfolding refreshClock_ok by (rule wire_specD(5))

lemma on_channel_quiet:
  assumes "wire_spec os sent recvd" and "on_channel f os me cs = Inr cs'"
    and "\<And>c k c' k'. f os (epfd (snd cs)) (ConnChan me) c k = Inr (c', k') \<Longrightarrow> sent k' = sent k \<and> recvd k' = recvd k"
  shows "quiet sent recvd cs cs'"
  using assms(2,3) by (cases cs) (auto simp: on_channel_def quiet_def ebind_eq_Inr)

lemma channel_ops_quiet:
  assumes "wire_spec os sent recvd"
  shows "on_channel disableReading os me cs = Inr cs' \<Longrightarrow> quiet sent recvd cs cs'"
    and "on_channel enableWriting os me cs = Inr cs' \<Longrightarrow> quiet sent recvd cs cs'"
    and "on_channel disableWriting os me cs = Inr cs' \<Longrightarrow> quiet sent recvd cs cs'"
  by (erule on_channel_quiet[OF assms], simp add: channel_defs, erule updateChannel_wire[OF assms])+

lemma deleteTimer_wire:
  "wire_spec os sent recvd \<Longrightarrow> deleteTimer os i s = Inr s' \<Longrightarrow> sent (kern s') = sent (kern s) \<and> recvd (kern s') = recvd (kern s)"
  by (auto simp: deleteTimer_def timerq_deleteTimer_def ebind_eq_Inr Let_def dest: refreshClock_wire split: if_splits)

lemma addTimer_wire:
  assumes W: "wire_spec os sent recvd"
  shows "addTimer os i s = Inr (j, s') \<Longrightarrow> sent (kern s') = sent (kern s) \<and> recvd (kern s') = recvd (kern s)"
  by (auto simp: addTimer_def timerq_addTimer_def ebind_eq_Inr Let_def now_ok
      dest!: refreshClock_wire[OF W] wire_specD(6)[OF W] split: if_splits)

lemma enqueueTask_wire:
  "wire_spec os sent recvd \<Longrightarrow> enqueueTask os t s = Inr s' \<Longrightarrow> sent (kern s') = sent (kern s) \<and> recvd (kern s') = recvd (kern s)"
  by (auto simp: enqueueTask_def wakeup_write_def push_task_def ebind_eq_Inr dest: wire_specD(3) split: if_splits prod.splits)

lemma handleDead_quiet:
  assumes W: "wire_spec os sent recvd"
  shows "handleDead os me cs = Inr cs' \<Longrightarrow> quiet sent recvd cs cs'"
  by (cases cs) (auto simp: handleDead_def conn_shut_def channel_remove_def quiet_def ebind_eq_Inr
      dest!: removeChannel_wire[OF W] deleteTimer_wire[OF W] enqueueTask_wire[OF W] split: if_splits prod.splits)

lemma checkEmpty_quiet:
  "wire_spec os sent recvd \<Longrightarrow> checkEmptyReadAfterEof os me cs = Inr cs' \<Longrightarrow> quiet sent recvd cs cs'"
  by (auto simp: checkEmptyReadAfterEof_def Let_def split: if_splits intro: handleDead_quiet)

lemma refreshTimer_quiet:
  assumes W: "wire_spec os sent recvd"
  shows "refreshTimer os me cs = Inr cs' \<Longrightarrow> quiet sent recvd cs cs'"
  by (cases cs) (auto simp: refreshTimer_def quiet_def ebind_eq_Inr dest!: deleteTimer_wire[OF W] addTimer_wire[OF W])

lemma write_drained_quiet:
  assumes W: "wire_spec os sent recvd" and "write_drained os me cs = Inr cs'"
  shows "quiet sent recvd cs cs'"
proof -
  obtain cs1 where 1: "on_channel disableWriting os me cs = Inr cs1" and
    2: "(if cn_state (fst cs1) = peerClose \<and> cn_working (fst cs1) = 0 then handleDead os me cs1 else Inr cs1) = Inr cs'"
    using assms(2) unfolding write_drained_def ebind_eq_Inr by blast
  from 2 have "quiet sent recvd cs1 cs'"
    by (auto split: if_splits intro: handleDead_quiet[OF W])
  with channel_ops_quiet(3)[OF W 1] show ?thesis
    by (rule quiet_trans)
qed

subsection \<open>The write side only moves bytes along\<close>

text \<open>
  \<open>emitted w\<close>: the outgoing bytes have grown by \<open>w\<close>, wherever they are by now, and the input side is
  as before. \<open>forwarded\<close> is the case of no new byte.
\<close>

definition emitted :: "'k wire \<Rightarrow> 'k wire \<Rightarrow> string \<Rightarrow> ('k, 'z) cstate \<Rightarrow> ('k, 'z) cstate \<Rightarrow> bool" where
  "emitted sent recvd w cs cs' \<longleftrightarrow>
     buffer_inv (cn_writeBuffer (fst cs')) \<and> outgoing sent cs' = outgoing sent cs @ w \<and>
     recvd (kern (snd cs')) = recvd (kern (snd cs)) \<and> cn_sck (fst cs') = cn_sck (fst cs) \<and>
     cn_readBuffer (fst cs') = cn_readBuffer (fst cs) \<and> cn_http (fst cs') = cn_http (fst cs) \<and>
     cn_useThreadPool (fst cs') = cn_useThreadPool (fst cs)"

abbreviation forwarded :: "'k wire \<Rightarrow> 'k wire \<Rightarrow> ('k, 'z) cstate \<Rightarrow> ('k, 'z) cstate \<Rightarrow> bool" where
  "forwarded sent recvd \<equiv> emitted sent recvd []"

lemma emitted_trans: "emitted sent recvd u a b \<Longrightarrow> emitted sent recvd v b c \<Longrightarrow> emitted sent recvd (u @ v) a c"
  by (simp add: emitted_def)

lemma forwarded_trans: "forwarded sent recvd a b \<Longrightarrow> forwarded sent recvd b c \<Longrightarrow> forwarded sent recvd a c"
  using emitted_trans[of sent recvd "[]"] by simp

lemma quiet_forwarded: "quiet sent recvd a b \<Longrightarrow> buffer_inv (cn_writeBuffer (fst a)) \<Longrightarrow> forwarded sent recvd a b"
  by (simp add: quiet_def emitted_def outgoing_def)

lemma send_once_forwards:
  assumes W: "wire_spec os sent recvd" "write_bounded os" and b: "buffer_inv (cn_writeBuffer (fst cs))"
    and s: "send_once os cs = Inr (r, cs')"
  shows "forwarded sent recvd cs cs'"
proof -
  obtain c s where cs: "cs = (c, s)" by fastforce
  let ?w = "cn_writeBuffer c" and ?fd = "so_fd (cn_sck c)"
  have take: "take (readable ?w) (drop (b_readIdx ?w) (b_buf ?w)) = peek ?w"
    by (simp add: peek_def)
  obtain q k where w: "os_write os ?fd (peek ?w) (kern s) = (q, k)" by fastforce
  have n: "n \<le> readable ?w" if "q = Inr n" for n
    using write_boundedD[OF W(2), of ?fd "peek ?w"] w that b by (fastforce simp: cs)
  note wire = wire_specD(1)[OF W(1) w]
  show ?thesis
  proof (cases q)
    case (Inl e)
    then show ?thesis
      using s wire b w by (simp add: send_once_def cs bufferToSck_def take emitted_def outgoing_def) auto
  next
    case (Inr m)
    then have "cs' = (c\<lparr>cn_writeBuffer := consume m ?w\<rparr>, s\<lparr>kern := k\<rparr>)"
      using s w by (simp add: send_once_def cs bufferToSck_def take)
    then show ?thesis
      using wire consume_props[of ?w m] b n[OF Inr] Inr by (simp add: cs emitted_def outgoing_def)
  qed
qed

definition forwards :: "'k os \<Rightarrow> 'k wire \<Rightarrow> 'k wire \<Rightarrow> ('k, 'z) cstate \<Rightarrow> ('k, 'z) cstate outcome \<Rightarrow> bool" where
  "forwards os sent recvd cs x \<longleftrightarrow>
     (wire_spec os sent recvd \<and> write_bounded os \<and> buffer_inv (cn_writeBuffer (fst cs)) \<longrightarrow>
      (\<forall>cs'. x = Inr cs' \<longrightarrow> forwarded sent recvd cs cs'))"

lemma forwards_after_send:
  assumes "send_once os cs = Inr (r, cs1)" and "forwards os sent recvd cs1 x"
  shows "forwards os sent recvd cs x"
  unfolding forwards_def
proof (intro impI allI)
  fix cs'
  assume W: "wire_spec os sent recvd \<and> write_bounded os \<and> buffer_inv (cn_writeBuffer (fst cs))" and x: "x = Inr cs'"
  then have "forwarded sent recvd cs cs1"
    using send_once_forwards[OF _ _ _ assms(1)] by blast
  moreover from this have "forwarded sent recvd cs1 cs'"
    using assms(2) W x by (simp add: forwards_def emitted_def)
  ultimately show "forwarded sent recvd cs cs'"
    by (rule forwarded_trans)
qed

lemma quiet_forwards:
  "(\<And>cs'. wire_spec os sent recvd \<Longrightarrow> x = Inr cs' \<Longrightarrow> quiet sent recvd cs cs') \<Longrightarrow> forwards os sent recvd cs x"
  by (simp add: forwards_def quiet_forwarded)

lemma forwards_simps [simp]: "forwards os sent recvd cs (Inl e)" "forwards os sent recvd cs (Inr cs)"
  by (simp_all add: forwards_def emitted_def)

lemma ops_forward:
  "forwards os sent recvd cs (handleDead os me cs)"
  "forwards os sent recvd cs (on_channel enableWriting os me cs)"
  "forwards os sent recvd cs (on_channel disableWriting os me cs)"
  "forwards os sent recvd cs (on_channel disableReading os me cs)"
  "forwards os sent recvd cs (write_drained os me cs)"
  "forwards os sent recvd cs (checkEmptyReadAfterEof os me cs)"
  "forwards os sent recvd cs (refreshTimer os me cs)"
  by (rule quiet_forwards; erule (1) handleDead_quiet channel_ops_quiet write_drained_quiet checkEmpty_quiet refreshTimer_quiet)+

lemma trySendToSck_forwards: "trySendToSck os me cs = Some x \<Longrightarrow> forwards os sent recvd cs x"
proof (erule trySendToSck.raw_induct[rotated], goal_cases)
  case (1 f os me cs x)
  show ?case
  proof (cases "readable (cn_writeBuffer (fst cs)) = 0 \<or> (\<exists>e. send_once os cs = Inl e)")
    case True
    then show ?thesis
      using 1(2) by (auto split: if_splits)
  next
    case False
    then obtain r cs1 where s: "send_once os cs = Inr (r, cs1)"
      by (metis obj_sumE old.prod.exhaust)
    have "forwards os sent recvd cs1 x"
      using 1 False s by (auto simp: Let_def ops_forward split: sum.splits if_splits)
    then show ?thesis
      by (rule forwards_after_send[OF s])
  qed
qed

lemma write_loop_forwards: "write_loop os me cs = Some x \<Longrightarrow> forwards os sent recvd cs x"
proof (erule write_loop.raw_induct[rotated], goal_cases)
  case (1 f os me cs x)
  show ?case
  proof (cases "readable (cn_writeBuffer (fst cs)) = 0 \<or> (\<exists>e. send_once os cs = Inl e)")
    case True
    then show ?thesis
      using 1(2) by (auto split: if_splits)
  next
    case False
    then obtain r cs1 where s: "send_once os cs = Inr (r, cs1)"
      by (metis obj_sumE old.prod.exhaust)
    have "forwards os sent recvd cs1 x"
      using 1 False s
      by (auto simp: ops_forward split: sum.splits if_splits)
    then show ?thesis
      by (rule forwards_after_send[OF s])
  qed
qed

lemma forwardsD:
  "forwards os sent recvd cs (Inr cs') \<Longrightarrow> wire_spec os sent recvd \<Longrightarrow> write_bounded os \<Longrightarrow>
   buffer_inv (cn_writeBuffer (fst cs)) \<Longrightarrow> forwarded sent recvd cs cs'"
  by (simp add: forwards_def)

lemma sendHttpOnLoop_emits:
  assumes W: "wire_spec os sent recvd" "write_bounded os" and b: "buffer_inv (cn_writeBuffer (fst cs))"
    and s: "sendHttpOnLoop os me resp keepAlive cs = ret cs'"
  shows "emitted sent recvd resp cs cs'"
proof -
  let ?cs = "((fst cs)\<lparr>cn_writeBuffer := dataIn resp (cn_writeBuffer (fst cs))\<rparr>, snd cs)"
  obtain cs1 where t: "trySendToSck os me ?cs = ret cs1" and
    r: "(if keepAlive then ret cs1 else rbind (Some (on_channel disableReading os me cs1)) (\<lambda>(c, s). ret (c\<lparr>cn_state := peerClose\<rparr>, s))) = ret cs'"
    using s by (auto simp: sendHttpOnLoop_def rbind_eq_ret)
  have "emitted sent recvd resp cs ?cs"
    using b by (simp add: emitted_def outgoing_def)
  moreover have 1: "forwarded sent recvd ?cs cs1"
    using forwardsD[OF trySendToSck_forwards[OF t] W] b by simp
  moreover have "forwarded sent recvd cs1 cs'"
  proof (cases keepAlive)
    case True
    then show ?thesis
      using r 1 by (simp add: emitted_def)
  next
    case False
    then obtain c s where 2: "on_channel disableReading os me cs1 = Inr (c, s)" "cs' = (c\<lparr>cn_state := peerClose\<rparr>, s)"
      using r by (auto simp: rbind_eq_ret)
    then have "forwarded sent recvd cs1 (c, s)"
      using forwardsD[OF _ W, of cs1 "(c, s)"] ops_forward(4)[of os sent recvd cs1 me] 1 by (simp add: emitted_def)
    then show ?thesis
      by (auto simp: 2(2) emitted_def outgoing_def)
  qed
  ultimately show ?thesis
    using emitted_trans[of sent recvd resp cs ?cs "[]" cs1] emitted_trans[of sent recvd resp cs cs1 "[]" cs'] by simp
qed

lemma checkEmpty_emits:
  "wire_spec os sent recvd \<Longrightarrow> write_bounded os \<Longrightarrow> buffer_inv (cn_writeBuffer (fst cs)) \<Longrightarrow>
   checkEmptyReadAfterEof os me cs = Inr cs' \<Longrightarrow> forwarded sent recvd cs cs'"
  using forwardsD[OF _ _ _, of os sent recvd cs cs'] ops_forward(6)[of os sent recvd cs me] by simp

subsection \<open>The request loop refines the specification\<close>

lemma disableReading_no_input: "on_channel disableReading os me cs = Inr cs' \<Longrightarrow> \<not> wants_input cs'"
  by (cases cs) (auto simp: on_channel_def disableReading_def epoll_updateChannel_def ebind_eq_Inr wants_input_def Let_def
      split: if_splits prod.splits)

lemma handleDead_input: "handleDead os me cs = Inr cs' \<Longrightarrow> wants_input cs' \<longleftrightarrow> wants_input cs"
  by (cases cs) (auto simp: handleDead_def conn_shut_def channel_remove_def epoll_removeChannel_def ebind_eq_Inr wants_input_def
      split: if_splits prod.splits)

lemma checkEmpty_input: "checkEmptyReadAfterEof os me cs = Inr cs' \<Longrightarrow> wants_input cs' \<longleftrightarrow> wants_input cs"
  by (auto simp: checkEmptyReadAfterEof_def Let_def handleDead_input split: if_splits)

lemma sendHttpOnLoop_no_input: "sendHttpOnLoop os me resp False cs = ret cs' \<Longrightarrow> \<not> wants_input cs'"
  by (auto simp: sendHttpOnLoop_def rbind_eq_ret dest!: disableReading_no_input) (simp add: wants_input_def)

text \<open>
  \<open>served h s\<close>: of the replies that \<open>s\<close> calls for, a prefix has gone out; all of them, unless the
  connection died under way. While it still asks for input, the parser and the read buffer are
  where the specification waits.
\<close>

definition served ::
  "'k wire \<Rightarrow> 'k wire \<Rightarrow> http \<Rightarrow> string \<Rightarrow> ('k, 'z) cstate \<Rightarrow> ('k, 'z) cstate \<Rightarrow> bool" where
  "served sent recvd h s cs cs' \<longleftrightarrow>
     cn_sck (fst cs') = cn_sck (fst cs) \<and> cn_useThreadPool (fst cs') = cn_useThreadPool (fst cs) \<and>
     recvd (kern (snd cs')) = recvd (kern (snd cs)) \<and>
     (\<exists>n. outgoing sent cs' = outgoing sent cs @ concat (take n (fst (serve h s))) \<and>
        (live cs' \<longrightarrow> length (fst (serve h s)) \<le> n) \<and>
        (live cs' \<and> wants_input cs' \<longrightarrow> snd (serve h s) = Waiting (cn_http (fst cs')) (peek (cn_readBuffer (fst cs')))))"

lemma servedI:
  assumes "emitted sent recvd (concat (fst (serve h s))) cs cs'"
    and "live cs' \<Longrightarrow> wants_input cs' \<Longrightarrow> snd (serve h s) = Waiting (cn_http (fst cs')) (peek (cn_readBuffer (fst cs')))"
  shows "served sent recvd h s cs cs'"
  using assms by (auto simp: served_def emitted_def intro!: exI[of _ "length (fst (serve h s))"])

lemma served_same_start:
  "served sent recvd h s (c\<lparr>cn_http := h', cn_readBuffer := b\<rparr>, t) cs' \<Longrightarrow> served sent recvd h s (c, t) cs'"
proof -
  have "outgoing sent (c\<lparr>cn_http := h', cn_readBuffer := b\<rparr>, t) = outgoing sent (c, t)"
    by (simp add: outgoing_def)
  then show "served sent recvd h s (c\<lparr>cn_http := h', cn_readBuffer := b\<rparr>, t) cs' \<Longrightarrow> served sent recvd h s (c, t) cs'"
    by (simp add: served_def)
qed

lemma served_Cons:
  assumes "emitted sent recvd r cs cs1" and "served sent recvd h1 s1 cs1 cs'"
    and "serve h s = (r # fst (serve h1 s1), snd (serve h1 s1))"
  shows "served sent recvd h s cs cs'"
proof -
  obtain n where n: "outgoing sent cs' = outgoing sent cs1 @ concat (take n (fst (serve h1 s1)))"
      "live cs' \<longrightarrow> length (fst (serve h1 s1)) \<le> n"
    using assms(2) by (auto simp: served_def)
  then show ?thesis
    using assms by (auto simp: served_def emitted_def intro!: exI[of _ "Suc n"])
qed

lemma served_dead:
  assumes "emitted sent recvd r cs cs'" and "\<not> live cs'" and "fst (serve h s) = r # rs"
  shows "served sent recvd h s cs cs'"
  using assms by (auto simp: served_def emitted_def intro!: exI[of _ 1])

lemma http_loop_serves:
  assumes W: "wire_spec os sent recvd" "write_bounded os"
  shows "http_loop os me cs = ret cs' \<Longrightarrow> buffer_inv (cn_readBuffer (fst cs)) \<Longrightarrow> buffer_inv (cn_writeBuffer (fst cs)) \<Longrightarrow>
    http_inv (cn_http (fst cs)) \<Longrightarrow> \<not> cn_useThreadPool (fst cs) \<Longrightarrow> live cs \<Longrightarrow>
    served sent recvd (cn_http (fst cs)) (peek (cn_readBuffer (fst cs))) cs cs'"
proof (induction "readable (cn_readBuffer (fst cs))" arbitrary: cs rule: less_induct)
  case less
  let ?h = "cn_http (fst cs)" and ?b = "cn_readBuffer (fst cs)"
  have "\<exists>x. parse ?h ?b = Inr x"
    using less.prems(1,6) by (subst (asm) http_loop.simps) (auto simp: rbind_eq_ret)
  then obtain r h b where p: "parse ?h ?b = Inr (r, h, b)"
    by auto
  note str = parse_to_str[OF less.prems(2) p]
  let ?n = "\<lambda>h'. ((fst cs)\<lparr>cn_http := h', cn_readBuffer := b\<rparr>, snd cs)"
  note round = http_loop_round[OF less.prems(6) p, of os me]
  have start: "served sent recvd ?h (peek ?b) cs cs'" if "served sent recvd ?h (peek ?b) (?n h') cs'" for h'
    using served_same_start[where c = "fst cs" and t = "snd cs"] that by simp
  have w: "buffer_inv (cn_writeBuffer (fst (?n h')))" for h'
    using less.prems(3) by simp
  show ?case
  proof (cases r)
    case kNeedMore
    then have "cs' = ?n h" "serve ?h (peek ?b) = ([], Waiting h (peek b))"
      using less.prems(1) round str by (simp_all add: serve_stop)
    then have "served sent recvd ?h (peek ?b) (?n h) cs'"
      using less.prems(3) by (intro servedI) (simp_all add: emitted_def)
    then show ?thesis
      by (rule start)
  next
    case kLineTooLong
    then obtain c1 s1 where 1: "on_channel disableReading os me (?n h) = Inr (c1, s1)"
        "checkEmptyReadAfterEof os me (c1\<lparr>cn_state := peerClose\<rparr>, s1) = Inr cs'"
      using less.prems(1) round by (auto simp: rbind_eq_ret)
    have "forwarded sent recvd (?n h) (c1, s1)"
      using channel_ops_quiet(1)[OF W(1) 1(1)] w by (rule quiet_forwarded)
    then have f: "forwarded sent recvd (?n h) (c1\<lparr>cn_state := peerClose\<rparr>, s1)"
      by (auto simp: emitted_def outgoing_def)
    then have "forwarded sent recvd (?n h) cs'"
      using checkEmpty_emits[OF W _ 1(2)] forwarded_trans by (fastforce simp: emitted_def)
    moreover have "\<not> wants_input cs'"
      using checkEmpty_input[OF 1(2)] disableReading_no_input[OF 1(1)] by (simp add: wants_input_def)
    ultimately have "served sent recvd ?h (peek ?b) (?n h) cs'"
      using kLineTooLong str by (intro servedI) (simp_all add: serve_stop)
    then show ?thesis
      by (rule start)
  next
    case kError
    then obtain c1 s1 where 1: "sendHttpOnLoop os me build400 False (?n h) = ret (c1, s1)"
        "checkEmptyReadAfterEof os me (c1\<lparr>cn_http := reset (cn_http c1)\<rparr>, s1) = Inr cs'"
      using less.prems(1) round by (auto simp: rbind_eq_ret)
    have e: "emitted sent recvd build400 (?n h) (c1, s1)"
      using sendHttpOnLoop_emits[OF W w 1(1)] .
    have "forwarded sent recvd (c1\<lparr>cn_http := reset (cn_http c1)\<rparr>, s1) cs'"
      using checkEmpty_emits[OF W _ 1(2)] e by (simp add: emitted_def)
    then have "outgoing sent cs' = outgoing sent (?n h) @ build400" "recvd (kern (snd cs')) = recvd (kern (snd cs))"
        "cn_sck (fst cs') = cn_sck (fst cs)" "cn_useThreadPool (fst cs') = cn_useThreadPool (fst cs)"
      using e by (auto simp: emitted_def outgoing_def)
    moreover have "\<not> wants_input cs'"
      using checkEmpty_input[OF 1(2)] sendHttpOnLoop_no_input[OF 1(1)] by (simp add: wants_input_def)
    ultimately have "served sent recvd ?h (peek ?b) (?n h) cs'"
      using kError str by (auto simp: served_def serve_stop intro!: exI[of _ 1])
    then show ?thesis
      by (rule start)
  next
    case kComplete
    let ?h' = "snd (releaseRequest h)" and ?req = "fst (releaseRequest h)"
    obtain cs1 cs2 where 1: "sendHttpOnLoop os me (buildResponse ?req) (rq_keepAlive ?req) (?n ?h') = ret cs1"
        "checkEmptyReadAfterEof os me cs1 = Inr cs2" "http_loop os me cs2 = ret cs'"
      using less.prems(1,5) round kComplete by (auto simp: rbind_eq_ret Let_def)
    have e1: "emitted sent recvd (buildResponse ?req) (?n ?h') cs1"
      using sendHttpOnLoop_emits[OF W w 1(1)] .
    then have "forwarded sent recvd cs1 cs2"
      using checkEmpty_emits[OF W _ 1(2)] by (simp add: emitted_def)
    with e1 have e: "emitted sent recvd (buildResponse ?req) (?n ?h') cs2"
      using emitted_trans[of sent recvd "buildResponse ?req" _ cs1 "[]"] by simp
    have sv: "serve ?h (peek ?b) = (buildResponse ?req # fst (serve ?h' (peek b)), snd (serve ?h' (peek b)))"
      using serve_complete[of ?h "peek ?b" h "peek b"] str kComplete less.prems(4) by blast
    show ?thesis
    proof (cases "live cs2")
      case False
      then have "cs' = cs2"
        using 1(3) by (subst (asm) http_loop.simps) simp
      then have "served sent recvd ?h (peek ?b) (?n ?h') cs'"
        using e False sv by (intro served_dead) simp_all
      then show ?thesis
        by (rule start)
    next
      case True
      have cs2: "cn_readBuffer (fst cs2) = b" "cn_http (fst cs2) = ?h'" "buffer_inv (cn_writeBuffer (fst cs2))"
          "\<not> cn_useThreadPool (fst cs2)"
        using e less.prems(5) by (simp_all add: emitted_def)
      have "readable b < readable ?b"
        using parse_complete_shrinks[OF less.prems(2,4)] p kComplete by blast
      then have "served sent recvd ?h' (peek b) cs2 cs'"
        using less.hyps[of cs2] 1(3) cs2 str True by simp
      with e have "served sent recvd ?h (peek ?b) (?n ?h') cs'"
        using sv by (rule served_Cons)
      then show ?thesis
        by (rule start)
    qed
  qed
qed

subsection \<open>Reading\<close>

text \<open>\<open>pulled\<close>: bytes went from the wire to the end of the read buffer, and nothing else changed.\<close>

definition pulled :: "'k wire \<Rightarrow> 'k wire \<Rightarrow> ('k, 'z) cstate \<Rightarrow> ('k, 'z) cstate \<Rightarrow> bool" where
  "pulled sent recvd cs cs' \<longleftrightarrow>
     buffer_inv (cn_readBuffer (fst cs')) \<and> sent (kern (snd cs')) = sent (kern (snd cs)) \<and>
     cn_sck (fst cs') = cn_sck (fst cs) \<and> cn_writeBuffer (fst cs') = cn_writeBuffer (fst cs) \<and>
     cn_http (fst cs') = cn_http (fst cs) \<and> cn_useThreadPool (fst cs') = cn_useThreadPool (fst cs) \<and>
     (\<exists>d. recvd (kern (snd cs')) (so_fd (cn_sck (fst cs))) = recvd (kern (snd cs)) (so_fd (cn_sck (fst cs))) @ d \<and>
        peek (cn_readBuffer (fst cs')) = peek (cn_readBuffer (fst cs)) @ d)"

lemma pulled_trans: "pulled sent recvd a b \<Longrightarrow> pulled sent recvd b c \<Longrightarrow> pulled sent recvd a c"
  by (auto simp: pulled_def)

lemma quiet_pulled: "quiet sent recvd a b \<Longrightarrow> buffer_inv (cn_readBuffer (fst a)) \<Longrightarrow> pulled sent recvd a b"
  by (simp add: quiet_def pulled_def)

definition pulls :: "'k os \<Rightarrow> 'k wire \<Rightarrow> 'k wire \<Rightarrow> ('k, 'z) cstate \<Rightarrow> ('k, 'z) cstate outcome \<Rightarrow> bool" where
  "pulls os sent recvd cs x \<longleftrightarrow>
     (wire_spec os sent recvd \<and> buffer_inv (cn_readBuffer (fst cs)) \<longrightarrow> (\<forall>cs'. x = Inr cs' \<longrightarrow> pulled sent recvd cs cs'))"

lemma quiet_pulls:
  "(\<And>cs'. wire_spec os sent recvd \<Longrightarrow> x = Inr cs' \<Longrightarrow> quiet sent recvd cs cs') \<Longrightarrow> pulls os sent recvd cs x"
  by (simp add: pulls_def quiet_pulled)

lemma pulls_trans:
  assumes "wire_spec os sent recvd \<Longrightarrow> buffer_inv (cn_readBuffer (fst cs)) \<Longrightarrow> pulled sent recvd cs cs1"
    and "pulls os sent recvd cs1 x"
  shows "pulls os sent recvd cs x"
  unfolding pulls_def
proof (intro impI allI)
  fix cs'
  assume W: "wire_spec os sent recvd \<and> buffer_inv (cn_readBuffer (fst cs))" and x: "x = Inr cs'"
  then have 1: "pulled sent recvd cs cs1"
    using assms(1) by blast
  then have "pulled sent recvd cs1 cs'"
    using assms(2) W x by (simp add: pulls_def pulled_def)
  with 1 show "pulled sent recvd cs cs'"
    by (rule pulled_trans)
qed

lemma sckToBuffer_pulls:
  assumes W: "wire_spec os sent recvd" and b: "buffer_inv (cn_readBuffer (fst cs))"
    and r: "sckToBuffer os (so_fd (cn_sck (fst cs))) (cn_readBuffer (fst cs)) (kern (snd cs)) = (r, b, k)"
  shows "pulled sent recvd cs ((fst cs)\<lparr>cn_readBuffer := b\<rparr>, (snd cs)\<lparr>kern := k\<rparr>)"
  using r b wire_specD(2)[OF W] sckToBuffer_store_props[OF b]
  by (auto simp: sckToBuffer_def pulled_def split: prod.splits sum.splits)

lemma readFromSck_pulls: "readFromSck os me cs = Some x \<Longrightarrow> pulls os sent recvd cs x"
proof (erule readFromSck.raw_induct[rotated], goal_cases)
  case (1 f os me cs x)
  obtain r b k where s: "sckToBuffer os (so_fd (cn_sck (fst cs))) (cn_readBuffer (fst cs)) (kern (snd cs)) = (r, b, k)"
    by (metis prod_cases3)
  let ?cs = "((fst cs)\<lparr>cn_readBuffer := b\<rparr>, (snd cs)\<lparr>kern := k\<rparr>)"
  have "pulls os sent recvd ?cs (handleDead os me ?cs)"
    by (rule quiet_pulls) (erule (1) handleDead_quiet)
  moreover have "pulls os sent recvd ?cs (Inr ?cs)" "pulls os sent recvd ?cs (Inr ((fst ?cs)\<lparr>cn_state := peerClose\<rparr>, snd ?cs))"
    by (auto simp: pulls_def pulled_def)
  ultimately have "pulls os sent recvd ?cs x"
    using 1 s by (auto simp: Let_def split: sum.splits if_splits)
  then show ?case
    by (rule pulls_trans[rotated]) (rule sckToBuffer_pulls[OF _ _ s])
qed

subsection \<open>A whole read event\<close>

text \<open>
  \<open>answered\<close>: some bytes \<open>d\<close> came in, and the replies to what was unparsed followed by \<open>d\<close> went out.
\<close>

definition answered :: "'k wire \<Rightarrow> 'k wire \<Rightarrow> ('k, 'z) cstate \<Rightarrow> ('k, 'z) cstate \<Rightarrow> bool" where
  "answered sent recvd cs cs' \<longleftrightarrow>
     cn_sck (fst cs') = cn_sck (fst cs) \<and> cn_useThreadPool (fst cs') = cn_useThreadPool (fst cs) \<and>
     (\<exists>d n. let fd = so_fd (cn_sck (fst cs)); sv = serve (cn_http (fst cs)) (peek (cn_readBuffer (fst cs)) @ d) in
        recvd (kern (snd cs')) fd = recvd (kern (snd cs)) fd @ d \<and>
        outgoing sent cs' = outgoing sent cs @ concat (take n (fst sv)) \<and>
        (live cs' \<longrightarrow> length (fst sv) \<le> n) \<and>
        (live cs' \<and> wants_input cs' \<longrightarrow> snd sv = Waiting (cn_http (fst cs')) (peek (cn_readBuffer (fst cs')))))"

lemma answeredI:
  assumes "pulled sent recvd cs cs1"
    and "served sent recvd (cn_http (fst cs1)) (peek (cn_readBuffer (fst cs1))) cs1 cs'"
  shows "answered sent recvd cs cs'"
proof -
  obtain d where d: "recvd (kern (snd cs1)) (so_fd (cn_sck (fst cs))) = recvd (kern (snd cs)) (so_fd (cn_sck (fst cs))) @ d"
      "peek (cn_readBuffer (fst cs1)) = peek (cn_readBuffer (fst cs)) @ d"
    using assms(1) unfolding pulled_def by blast
  have "outgoing sent cs1 = outgoing sent cs"
    using assms(1) by (simp add: pulled_def outgoing_def)
  then show ?thesis
    using assms d unfolding answered_def served_def pulled_def Let_def by (intro conjI exI[of _ d]) auto
qed

lemma onHttp_answers:
  assumes W: "wire_spec os sent recvd" "write_bounded os"
    and inv: "buffer_inv (cn_readBuffer (fst cs))" "buffer_inv (cn_writeBuffer (fst cs))" "http_inv (cn_http (fst cs))"
      "\<not> cn_useThreadPool (fst cs)"
    and r: "onHttp os me cs = ret cs'"
  shows "answered sent recvd cs cs'"
proof -
  obtain cs1 where 1: "readFromSck os me cs = ret cs1"
      "(if readable (cn_readBuffer (fst cs1)) = 0 then Some (checkEmptyReadAfterEof os me cs1) else http_loop os me cs1) = ret cs'"
    using r by (auto simp: onHttp_def rbind_eq_ret)
  have p: "pulled sent recvd cs cs1"
    using readFromSck_pulls[OF 1(1)] W(1) inv(1) by (simp add: pulls_def)
  then have cs1: "buffer_inv (cn_readBuffer (fst cs1))" "buffer_inv (cn_writeBuffer (fst cs1))" "http_inv (cn_http (fst cs1))"
      "\<not> cn_useThreadPool (fst cs1)"
    using inv by (simp_all add: pulled_def)
  have "served sent recvd (cn_http (fst cs1)) (peek (cn_readBuffer (fst cs1))) cs1 cs'"
  proof (cases "readable (cn_readBuffer (fst cs1)) = 0 \<or> \<not> live cs1")
    case True
    have "checkEmptyReadAfterEof os me cs1 = Inr cs' \<or> \<not> live cs1 \<and> cs' = cs1"
      using 1(2) True by (subst (asm) http_loop.simps) (auto split: if_splits)
    moreover have "forwarded sent recvd cs1 cs'" if "checkEmptyReadAfterEof os me cs1 = Inr cs'"
      using checkEmpty_emits[OF W cs1(2) that] .
    moreover have "forwarded sent recvd cs1 cs1"
      using cs1(2) by (simp add: emitted_def)
    moreover have "\<not> live cs1 \<Longrightarrow> checkEmptyReadAfterEof os me cs1 = Inr cs' \<Longrightarrow> \<not> live cs'"
      by (simp add: checkEmptyReadAfterEof_def)
    ultimately have "forwarded sent recvd cs1 cs'" "\<not> live cs1 \<Longrightarrow> \<not> live cs'" "live cs1 \<Longrightarrow> readable (cn_readBuffer (fst cs1)) = 0"
      using True by metis+
    then show ?thesis
      using readable_0_iff[OF cs1(1)] by (auto simp: served_def emitted_def intro!: exI[of _ 0])
  next
    case False
    then show ?thesis
      using http_loop_serves[OF W, of me cs1 cs'] 1(2) cs1 by simp
  qed
  with p show ?thesis
    by (rule answeredI)
qed

lemma handleReadCallBack_answers:
  assumes W: "wire_spec os sent recvd" "write_bounded os"
    and inv: "buffer_inv (cn_readBuffer (fst cs))" "buffer_inv (cn_writeBuffer (fst cs))" "http_inv (cn_http (fst cs))"
      "\<not> cn_useThreadPool (fst cs)"
    and r: "handleReadCallBack os me cs = ret cs'"
  shows "answered sent recvd cs cs'"
proof -
  obtain cs1 where 1: "refreshTimer os me cs = Inr cs1" "onHttp os me cs1 = ret cs'"
    using r by (auto simp: handleReadCallBack_def rbind_eq_ret)
  have q: "quiet sent recvd cs cs1"
    using refreshTimer_quiet[OF W(1) 1(1)] .
  then have "answered sent recvd cs1 cs'"
    using onHttp_answers[OF W _ _ _ _ 1(2)] inv by (simp add: quiet_def)
  moreover have "outgoing sent cs1 = outgoing sent cs"
    using q by (rule quiet_outgoing)
  ultimately show ?thesis
    using q by (simp add: answered_def quiet_def Let_def)
qed

lemma handleWriteCallBack_forwards:
  assumes W: "wire_spec os sent recvd" "write_bounded os" and b: "buffer_inv (cn_writeBuffer (fst cs))"
    and r: "handleWriteCallBack os me cs = ret cs'"
  shows "forwarded sent recvd cs cs'"
proof (cases "live cs")
  case False
  then show ?thesis
    using r b by (simp add: handleWriteCallBack_def emitted_def)
next
  case True
  then obtain cs1 where 1: "refreshTimer os me cs = Inr cs1"
      "(if readable (cn_writeBuffer (fst cs1)) = 0 then Some (on_channel disableWriting os me cs1) else write_loop os me cs1) = ret cs'"
    using r by (auto simp: handleWriteCallBack_def rbind_eq_ret)
  have f1: "forwarded sent recvd cs cs1"
    using refreshTimer_quiet[OF W(1) 1(1)] b by (rule quiet_forwarded)
  then have "buffer_inv (cn_writeBuffer (fst cs1))"
    by (simp add: emitted_def)
  then have "forwarded sent recvd cs1 cs'"
    using 1(2) ops_forward(3)[of os sent recvd cs1 me] write_loop_forwards[of os me cs1 "Inr cs'" sent recvd]
    by (auto intro: forwardsD[OF _ W] split: if_splits)
  with f1 show ?thesis
    by (rule forwarded_trans)
qed

text \<open>A write event and a dead connection's events never make input wanted again, nor a dead connection live.\<close>

lemma live_input_mono:
  assumes "kernel_ok os ep reg mu" and "conn_ok ep reg me cs" and "handleWriteCallBack os me cs = ret cs'"
  shows "(live cs' \<longrightarrow> live cs) \<and> (wants_input cs' \<longrightarrow> wants_input cs)"
proof -
  have "send_post ep reg mu me cs cs'"
    using handleWriteCallBack_runs[OF assms(1,2)] assms(3) by simp
  then have "wants_input cs' \<longrightarrow> wants_input cs"
    by (simp add: send_post_def conn_step_def conn_frame_def)
  moreover have "live cs" if "live cs'"
    using that assms(3) by (cases "live cs") (simp_all add: handleWriteCallBack_def)
  ultimately show ?thesis
    by blast
qed

subsection \<open>The life of a connection\<close>

text \<open>
  The histories of a connection that does not use the pool: started by the sub-reactor, then any
  sequence of epoll events, timer expiry (\<open>handleDead\<close>), \<open>stop\<close>, and whatever the rest of the
  process does to the loop in between, as long as it leaves this connection's bytes, timers and
  registration alone.
\<close>

inductive conn_hist ::
  "'k os \<Rightarrow> int \<Rightarrow> 'k registry \<Rightarrow> 'k wire \<Rightarrow> 'k wire \<Rightarrow> conn_id \<Rightarrow> socket \<Rightarrow> ('k, 'z) reactor_scheme \<Rightarrow> ('k, 'z) cstate \<Rightarrow> bool"
  for os ep reg sent recvd me sock s0 where
  start: "startConnect os me (Connection_new sock False, s0) = Inr cs \<Longrightarrow> conn_hist os ep reg sent recvd me sock s0 cs"
| event: "conn_hist os ep reg sent recvd me sock s0 cs \<Longrightarrow> event_ok revents cs \<Longrightarrow> conn_event os me revents cs = ret cs' \<Longrightarrow>
    conn_hist os ep reg sent recvd me sock s0 cs'"
| expire: "conn_hist os ep reg sent recvd me sock s0 cs \<Longrightarrow> handleDead os me cs = Inr cs' \<Longrightarrow>
    conn_hist os ep reg sent recvd me sock s0 cs'"
| stop: "conn_hist os ep reg sent recvd me sock s0 cs \<Longrightarrow> conn_stop os me cs = Inr cs' \<Longrightarrow>
    conn_hist os ep reg sent recvd me sock s0 cs'"
| other: "conn_hist os ep reg sent recvd me sock s0 (c, s) \<Longrightarrow> conn_ok ep reg me (c, s') \<Longrightarrow>
    sent (kern s') (so_fd sock) = sent (kern s) (so_fd sock) \<Longrightarrow> recvd (kern s') (so_fd sock) = recvd (kern s) (so_fd sock) \<Longrightarrow>
    conn_hist os ep reg sent recvd me sock s0 (c, s')"

text \<open>What holds after any such history: \<open>R\<close> is what has been received.\<close>

definition stream_inv ::
  "int \<Rightarrow> 'k registry \<Rightarrow> 'k wire \<Rightarrow> 'k wire \<Rightarrow> conn_id \<Rightarrow> socket \<Rightarrow> ('k, 'z) reactor_scheme \<Rightarrow> ('k, 'z) cstate \<Rightarrow> bool" where
  "stream_inv ep reg sent recvd me sock s0 cs \<longleftrightarrow>
     conn_ok ep reg me cs \<and> input_ok cs \<and> cn_sck (fst cs) = sock \<and> \<not> cn_useThreadPool (fst cs) \<and>
     (\<exists>R n. let sv = serve HttpProcess_new R in
        recvd (kern (snd cs)) (so_fd sock) = recvd (kern s0) (so_fd sock) @ R \<and>
        outgoing sent cs = sent (kern s0) (so_fd sock) @ concat (take n (fst sv)) \<and>
        (live cs \<longrightarrow> length (fst sv) \<le> n) \<and>
        (live cs \<and> wants_input cs \<longrightarrow> snd sv = Waiting (cn_http (fst cs)) (peek (cn_readBuffer (fst cs)))))"

lemma stream_inv_same:
  assumes "stream_inv ep reg sent recvd me sock s0 cs" and "conn_ok ep reg me cs'"
    and "forwarded sent recvd cs cs'" and "live cs' \<longrightarrow> live cs" and "wants_input cs' \<longrightarrow> wants_input cs"
  shows "stream_inv ep reg sent recvd me sock s0 cs'"
  using assms unfolding stream_inv_def emitted_def input_ok_def Let_def by auto

lemma stream_inv_answered:
  assumes inv: "stream_inv ep reg sent recvd me sock s0 cs" and ok: "conn_ok ep reg me cs'" "input_ok cs'"
    and a: "answered sent recvd cs cs'" and l: "live cs" "wants_input cs"
  shows "stream_inv ep reg sent recvd me sock s0 cs'"
proof -
  obtain R n where R: "recvd (kern (snd cs)) (so_fd sock) = recvd (kern s0) (so_fd sock) @ R"
      "outgoing sent cs = sent (kern s0) (so_fd sock) @ concat (take n (fst (serve HttpProcess_new R)))"
      "length (fst (serve HttpProcess_new R)) \<le> n"
      "snd (serve HttpProcess_new R) = Waiting (cn_http (fst cs)) (peek (cn_readBuffer (fst cs)))"
    and c: "cn_sck (fst cs) = sock" "\<not> cn_useThreadPool (fst cs)"
    using inv l by (auto simp: stream_inv_def Let_def)
  obtain d m where d: "recvd (kern (snd cs')) (so_fd sock) = recvd (kern (snd cs)) (so_fd sock) @ d"
      "outgoing sent cs' = outgoing sent cs @ concat (take m (fst (serve (cn_http (fst cs)) (peek (cn_readBuffer (fst cs)) @ d))))"
      "live cs' \<longrightarrow> length (fst (serve (cn_http (fst cs)) (peek (cn_readBuffer (fst cs)) @ d))) \<le> m"
      "live cs' \<and> wants_input cs' \<longrightarrow> snd (serve (cn_http (fst cs)) (peek (cn_readBuffer (fst cs)) @ d)) =
         Waiting (cn_http (fst cs')) (peek (cn_readBuffer (fst cs')))"
    and c': "cn_sck (fst cs') = sock" "\<not> cn_useThreadPool (fst cs')"
    using a c by (auto simp: answered_def Let_def)
  let ?sv = "serve (cn_http (fst cs)) (peek (cn_readBuffer (fst cs)) @ d)" and ?l = "length (fst (serve HttpProcess_new R))"
  have app: "serve HttpProcess_new (R @ d) = (fst (serve HttpProcess_new R) @ fst ?sv, snd ?sv)"
    by (rule serve_append[OF http_inv_new R(4)])
  show ?thesis
    unfolding stream_inv_def Let_def
    using ok c' d R app by (intro conjI exI[of _ "R @ d"] exI[of _ "?l + m"]) auto
qed

lemma conn_stop_quiet:
  assumes W: "wire_spec os sent recvd"
  shows "conn_stop os me cs = Inr cs' \<Longrightarrow> quiet sent recvd cs cs'"
  by (cases cs) (auto simp: conn_stop_def conn_shut_def channel_remove_def quiet_def ebind_eq_Inr
      dest!: removeChannel_wire[OF W] deleteTimer_wire[OF W] split: if_splits prod.splits)

lemma startConnect_stream:
  assumes W: "wire_spec os sent recvd" and s: "startConnect os me (Connection_new sock False, s0) = Inr cs"
    and ok: "conn_ok ep reg me cs" "input_ok cs"
  shows "stream_inv ep reg sent recvd me sock s0 cs"
proof -
  obtain c1 s1 i s2 where 1: "on_channel enableReading os me (Connection_new sock False, s0) = Inr (c1, s1)"
      "addTimer os me s1 = Inr (i, s2)" "cs = (c1\<lparr>cn_timerId := i\<rparr>, s2)"
    using s by (auto simp: startConnect_def ebind_eq_Inr)
  have "quiet sent recvd (Connection_new sock False, s0) (c1, s1)"
    by (rule on_channel_quiet[OF W 1(1)]) (simp add: enableReading_def updateChannel_wire[OF W])
  then have "quiet sent recvd (Connection_new sock False, s0) cs"
    using addTimer_wire[OF W 1(2)] by (simp add: 1(3) quiet_def)
  then show ?thesis
    using ok unfolding stream_inv_def Let_def
    by (intro conjI exI[of _ "[]"] exI[of _ 0]) (auto simp: quiet_def outgoing_def Connection_new_def)
qed

lemma conn_hist_stream:
  assumes K: "kernel_ok os ep reg mu" and W: "wire_spec os sent recvd"
    and s0: "epfd s0 = ep" "timers_wf (tq s0)" "reg (kern s0) (so_fd sock) = None"
      "\<forall>x \<in> set (tq_timers (tq s0)). tm_callBack (snd x) \<noteq> me"
  shows "conn_hist os ep reg sent recvd me sock s0 cs \<Longrightarrow> stream_inv ep reg sent recvd me sock s0 cs"
proof (induction rule: conn_hist.induct)
  case (start cs)
  then show ?case
    using startConnect_runs[where f = False, OF K s0] startConnect_stream[OF W start] by simp
next
  case (event cs revents cs')
  note W' = W kernel_okD(1)[OF K]
  from event(3) obtain cs1 where
    1: "(if revents AND EPOLLIN \<noteq> 0 then handleReadCallBack os me cs else ret cs) = ret cs1" and
    2: "(if revents AND EPOLLOUT \<noteq> 0 then handleWriteCallBack os me cs1 else ret cs1) = ret cs'"
    by (auto simp: conn_event_def channel_handle_def rbind_eq_ret)
  have cs: "conn_ok ep reg me cs" "input_ok cs" "live cs"
    using event(4,2) by (simp_all add: stream_inv_def event_ok_def)
  have inv1: "stream_inv ep reg sent recvd me sock s0 cs1"
  proof (cases "revents AND EPOLLIN = 0")
    case True
    then show ?thesis
      using 1 event(4) by simp
  next
    case False
    then have r: "handleReadCallBack os me cs = ret cs1" and w: "wants_input cs"
      using 1 event(2) by (simp_all add: event_ok_def)
    then have h: "http_inv (cn_http (fst cs))"
      using cs by (simp add: input_ok_def)
    have "conn_post ep reg mu me cs cs1"
      using handleReadCallBack_runs[OF K cs(1,3) h TrueI] r by simp
    moreover have "answered sent recvd cs cs1"
      using handleReadCallBack_answers[OF W' _ _ h _ r] conn_ok_parts[OF cs(1)] event(4) by (simp add: stream_inv_def)
    ultimately show ?thesis
      using stream_inv_answered[OF event(4)] cs w by (simp add: conn_post_def conn_step_def)
  qed
  then have cs1: "conn_ok ep reg me cs1"
    by (simp add: stream_inv_def)
  show ?case
  proof (cases "revents AND EPOLLOUT = 0")
    case True
    then show ?thesis
      using 2 inv1 by simp
  next
    case False
    then have r: "handleWriteCallBack os me cs1 = ret cs'"
      using 2 by simp
    have "send_post ep reg mu me cs1 cs'"
      using handleWriteCallBack_runs[OF K cs1] r by simp
    then show ?thesis
      using stream_inv_same[OF inv1 _ handleWriteCallBack_forwards[OF W' _ r]] live_input_mono[OF K cs1 r]
        conn_ok_parts[OF cs1] by (simp add: send_post_def conn_step_def)
  qed
next
  case (expire cs cs')
  have ok: "conn_ok ep reg me cs"
    using expire(3) by (simp add: stream_inv_def)
  have "conn_step ep reg mu me cs cs'" "\<not> live cs'"
    using handleDead_runs[OF K ok] expire(2) by simp_all
  moreover have "forwarded sent recvd cs cs'"
    using handleDead_quiet[OF W expire(2)] conn_ok_parts[OF ok] by (simp add: quiet_forwarded)
  ultimately show ?case
    using stream_inv_same[OF expire(3)] by (simp add: conn_step_def conn_frame_def)
next
  case (stop cs cs')
  have ok: "conn_ok ep reg me cs"
    using stop(3) by (simp add: stream_inv_def)
  have "send_post ep reg mu me cs cs'" "\<not> live cs'"
    using conn_stop_runs[OF K ok] stop(2) by simp_all
  moreover have "forwarded sent recvd cs cs'"
    using conn_stop_quiet[OF W stop(2)] conn_ok_parts[OF ok] by (simp add: quiet_forwarded)
  ultimately show ?case
    using stream_inv_same[OF stop(3)] by (simp add: send_post_def conn_step_def conn_frame_def)
next
  case (other c s s')
  then have "outgoing sent (c, s') = outgoing sent (c, s)" "wants_input (c, s') \<longleftrightarrow> wants_input (c, s)"
    by (auto simp: stream_inv_def outgoing_def wants_input_def)
  then show ?case
    using other by (simp add: stream_inv_def input_ok_def)
qed

text \<open>
  C2. In any history of a connection without worker pool, the bytes sent on its socket followed
  by those in its write buffer are the responses that the specification \<open>serve\<close> gives for the bytes
  received, in request order, up to some point; and all of them as long as the connection lives.
  No response is lost, repeated, reordered or torn apart by partial reads and writes, and while
  input is wanted the parser stands exactly where the specification waits.
\<close>

theorem responses_in_order:
  assumes "kernel_ok os ep reg mu" and "wire_spec os sent recvd"
    and "epfd s0 = ep" and "timers_wf (tq s0)" and "reg (kern s0) (so_fd sock) = None"
    and "\<forall>x \<in> set (tq_timers (tq s0)). tm_callBack (snd x) \<noteq> me"
    and "conn_hist os ep reg sent recvd me sock s0 (c, s)"
  shows "\<exists>R n. recvd (kern s) (so_fd sock) = recvd (kern s0) (so_fd sock) @ R \<and>
     sent (kern s) (so_fd sock) @ peek (cn_writeBuffer c) =
       sent (kern s0) (so_fd sock) @ concat (take n (fst (serve HttpProcess_new R))) \<and>
     (cn_state c \<noteq> dead \<longrightarrow> length (fst (serve HttpProcess_new R)) \<le> n) \<and>
     (cn_state c \<noteq> dead \<and> wants_input (c, s) \<longrightarrow>
        snd (serve HttpProcess_new R) = Waiting (cn_http c) (peek (cn_readBuffer c)))"
  using conn_hist_stream[OF assms] by (auto simp: stream_inv_def outgoing_def Let_def)

text \<open>A run on the scripted kernel: one read event that brings the first byte of a request.\<close>

definition demo_kernel :: skern where
  "demo_kernel = skern0\<lparr>sk_reads := [Inr ''G'']\<rparr>"

lemma demo_refresh:
  fixes cs :: "(skern, unit) cstate"
  assumes "timers_wf (tq (snd cs))" and "tq_timerId (tq (snd cs)) \<noteq> INT_MAX" and "sk_clock (kern (snd cs)) = []"
  shows "\<exists>i q t. refreshTimer sos 1 cs = Inr ((fst cs)\<lparr>cn_timerId := i\<rparr>, (snd cs)\<lparr>tq := q, kern := (kern (snd cs))\<lparr>sk_armed := t\<rparr>\<rparr>)"
proof (cases "map_of (tq_timers (tq (snd cs))) (cn_timerId (fst cs)) = None")
  case True
  then show ?thesis
    using assms
    by (cases cs) (auto simp: refreshTimer_def deleteTimer_def timerq_deleteTimer_def addTimer_def timerq_addTimer_def now_def
        sk_now_def refreshClock_def Let_def)
next
  case False
  then show ?thesis
    using assms
    by (cases cs) (auto simp: refreshTimer_def deleteTimer_def timerq_deleteTimer_def addTimer_def timerq_addTimer_def now_def
        sk_now_def refreshClock_def Let_def)
qed

lemma demo_event:
  obtains cs where "conn_event sos 1 EPOLLIN (demo_cs False demo_kernel) = ret cs" "sk_recvd (kern (snd cs)) = ''G''"
proof -
  have k: "sk_interest demo_kernel = []" "sk_clock demo_kernel = []"
    by (simp_all add: demo_kernel_def)
  obtain c s where cs: "demo_cs False demo_kernel = (c, s)" by fastforce
  note f = demo_cs_fields[OF k cs]
  have s: "timers_wf (tq s)" "tq_timerId (tq s) = 1" "sk_clock (kern s) = []" "sk_recvd (kern s) = []"
    using demo_cs(2)[OF k, of False] cs
    by (auto simp: conn_ok_def conn_base_def demo_cs_def startConnect_def on_channel_def enableReading_def
        epoll_updateChannel_def Connection_new_def demo_reactor_def demo_socket_def Channel_new_def sk_epoll_ctl_def
        addTimer_def timerq_addTimer_def now_def sk_now_def INT_MAX_def refreshClock_def Let_def demo_kernel_def skern0_def)
  obtain i q t where r: "refreshTimer sos 1 (c, s) = Inr (c\<lparr>cn_timerId := i\<rparr>, s\<lparr>tq := q, kern := (kern s)\<lparr>sk_armed := t\<rparr>\<rparr>)"
    using demo_refresh[of "(c, s)"] s by (auto simp: INT_MAX_def)
  let ?b = "sckToBuffer_store ''G'' Buffer_new"
  let ?c = "c\<lparr>cn_timerId := i, cn_readBuffer := ?b\<rparr>"
  let ?s = "s\<lparr>tq := q, kern := (kern s)\<lparr>sk_armed := t, sk_reads := [], sk_recvd := ''G''\<rparr>\<rparr>"
  have b: "buffer_inv ?b" "peek ?b = ''G''"
    using sckToBuffer_store_props[of Buffer_new "''G''"] by simp_all
  have eagain: "readFromSck sos 1 (?c, ?s) = ret (?c, ?s)"
    by (subst readFromSck.simps) (simp add: sckToBuffer_def sk_readv_def would_block_def)
  have read: "readFromSck sos 1 (c\<lparr>cn_timerId := i\<rparr>, s\<lparr>tq := q, kern := (kern s)\<lparr>sk_armed := t\<rparr>\<rparr>) = ret (?c, ?s)"
    by (subst readFromSck.simps)
      (use eagain f s in \<open>simp add: sckToBuffer_def sk_readv_def demo_kernel_def skern0_def\<close>)
  have "parse_str HttpProcess_new (peek ?b) = Inr (kNeedMore, HttpProcess_new, ''G'')"
    unfolding b(2) by (simp add: parse_str_def line_str_def HttpProcess_new_def)
  from parse_from_str[OF b(1) this] obtain b' where p: "parse HttpProcess_new ?b = Inr (kNeedMore, HttpProcess_new, b')"
    by blast
  have loop: "http_loop sos 1 (?c, ?s) = ret (?c\<lparr>cn_readBuffer := b'\<rparr>, ?s)"
    using http_loop_round[of "(?c, ?s)" kNeedMore HttpProcess_new b' sos 1] p f by simp
  have "readable ?b \<noteq> 0"
    using readable_0_iff[OF b(1)] b(2) by simp
  then have "conn_event sos 1 EPOLLIN (c, s) = ret (?c\<lparr>cn_readBuffer := b'\<rparr>, ?s)"
    using r read loop
    by (simp add: conn_event_def channel_handle_def handleReadCallBack_def onHttp_def EPOLLIN_def EPOLLOUT_def)
  then show ?thesis
    using that[of "(?c\<lparr>cn_readBuffer := b'\<rparr>, ?s)"] cs by simp
qed

theorem responses_in_order_witness:
  "\<exists>(c :: conn) (s :: skern reactor) n. sk_recvd (kern s) = ''G'' \<and>
     sk_sent (kern s) @ peek (cn_writeBuffer c) = concat (take n (fst (serve HttpProcess_new ''G''))) \<and>
     (cn_state c \<noteq> dead \<and> wants_input (c, s) \<longrightarrow>
        snd (serve HttpProcess_new ''G'') = Waiting (cn_http c) (peek (cn_readBuffer c)))"
proof -
  let ?s0 = "demo_reactor demo_kernel"
  have k: "sk_interest demo_kernel = []" "sk_clock demo_kernel = []"
    by (simp_all add: demo_kernel_def)
  obtain c s where ev: "conn_event sos 1 EPOLLIN (demo_cs False demo_kernel) = ret (c, s)" "sk_recvd (kern s) = ''G''"
    using demo_event by (metis prod.collapse snd_conv)
  have "conn_hist sos 4 sk_reg (\<lambda>k fd. sk_sent k) (\<lambda>k fd. sk_recvd k) 1 demo_socket ?s0 (demo_cs False demo_kernel)"
    by (rule conn_hist.start) (rule demo_cs(1)[OF k])
  then have h: "conn_hist sos 4 sk_reg (\<lambda>k fd. sk_sent k) (\<lambda>k fd. sk_recvd k) 1 demo_socket ?s0 (c, s)"
    by (rule conn_hist.event[OF _ _ ev(1)]) (simp add: event_ok_def demo_cs[OF k])
  have s0: "epfd ?s0 = 4" "timers_wf (tq ?s0)" "sk_reg (kern ?s0) (so_fd demo_socket) = None"
      "\<forall>x \<in> set (tq_timers (tq ?s0)). tm_callBack (snd x) \<noteq> 1" "sk_sent (kern ?s0) = []" "sk_recvd (kern ?s0) = []"
    by (simp_all add: demo_reactor_def demo_kernel_def sk_reg_def skern0_def timers_wf_def map_wf_def INT_MAX_def)
  show ?thesis
    using responses_in_order[OF sos_kernel_ok sos_wire_spec s0(1-4) h] ev(2) s0(5,6)
    by (intro exI[of _ c] exI[of _ s]) auto
qed

subsection \<open>Where the code falls short of its comments\<close>

lemma send_once_error:
  assumes "os_write os (so_fd (cn_sck c)) (peek (cn_writeBuffer c)) (kern s) = (Inl e, k)" and "buffer_inv (cn_writeBuffer c)"
  shows "send_once os (c, s) = Inr (Inl e, c, s\<lparr>kern := k\<rparr>)"
proof -
  have "take (readable (cn_writeBuffer c)) (drop (b_readIdx (cn_writeBuffer c)) (b_buf (cn_writeBuffer c))) = peek (cn_writeBuffer c)"
    by (simp add: peek_def)
  then show ?thesis
    using assms by (simp add: send_once_def bufferToSck_def)
qed

lemma send_once_all:
  assumes "os_write os (so_fd (cn_sck c)) (peek (cn_writeBuffer c)) (kern s) = (Inr (readable (cn_writeBuffer c)), k)"
  shows "send_once os (c, s) = Inr (Inr (readable (cn_writeBuffer c)),
    c\<lparr>cn_writeBuffer := consume (readable (cn_writeBuffer c)) (cn_writeBuffer c)\<rparr>, s\<lparr>kern := k\<rparr>)"
proof -
  have "take (readable (cn_writeBuffer c)) (drop (b_readIdx (cn_writeBuffer c)) (b_buf (cn_writeBuffer c))) = peek (cn_writeBuffer c)"
    by (simp add: peek_def)
  then show ?thesis
    using assms by (simp add: send_once_def bufferToSck_def)
qed

lemma fatal_write_kills:
  assumes K: "kernel_ok os ep reg mu" and C: "conn_ok ep reg me (c, s)" "live (c, s)" and "\<not> lp_stop s"
    and e: "os_write os (so_fd (cn_sck c)) (peek (cn_writeBuffer c)) (kern s) = (Inl e, k)" "\<not> would_block e" "e \<noteq> EINTR"
    and w: "readable (cn_writeBuffer c) \<noteq> 0"
  shows "runs conn_faults (trySendToSck os me (c, s)) (\<lambda>cs'. conn_step ep reg mu me (c, s) cs' \<and> \<not> live cs' \<and>
    lp_tasks (snd cs') = lp_tasks s @ [TRemoveConnection me] \<and> cn_writeBuffer (fst cs') = cn_writeBuffer c)"
proof -
  have b: "buffer_inv (cn_writeBuffer c)"
    using conn_ok_parts[OF C(1)] by simp
  have step: "conn_step ep reg mu me (c, s) (c, s\<lparr>kern := k\<rparr>)"
    using writeBuffer_step[OF C(1), of k mu "cn_writeBuffer c"] kernel_okD(5)[OF K e(1)] b by simp
  then have ok: "conn_ok ep reg me (c, s\<lparr>kern := k\<rparr>)"
    by (simp add: conn_step_def)
  have t: "trySendToSck os me (c, s) = Some (handleDead os me (c, s\<lparr>kern := k\<rparr>))"
    using w e send_once_error[OF e(1) b] by (subst trySendToSck.simps) simp
  show ?thesis
    unfolding t
  proof (cases "handleDead os me (c, s\<lparr>kern := k\<rparr>)")
    case (Inl x)
    then show "runs conn_faults (Some (handleDead os me (c, s\<lparr>kern := k\<rparr>))) (\<lambda>cs'. conn_step ep reg mu me (c, s) cs' \<and> \<not> live cs' \<and>
        lp_tasks (snd cs') = lp_tasks s @ [TRemoveConnection me] \<and> cn_writeBuffer (fst cs') = cn_writeBuffer c)"
      using handleDead_runs[OF K ok] by simp
  next
    case (Inr cs')
    then show "runs conn_faults (Some (handleDead os me (c, s\<lparr>kern := k\<rparr>))) (\<lambda>cs'. conn_step ep reg mu me (c, s) cs' \<and> \<not> live cs' \<and>
        lp_tasks (snd cs') = lp_tasks s @ [TRemoveConnection me] \<and> cn_writeBuffer (fst cs') = cn_writeBuffer c)"
      using handleDead_runs[OF K ok] handleDead_tasks[OF Inr] C(2) assms(4) conn_step_trans[OF step, of cs']
      by (simp add: same_data_def)
  qed
qed

text \<open>
  C32. A dead connection can be revived. When the response to a \<open>Connection: close\<close> request (or a
  400) meets a fatal write error, \<open>trySendToSck\<close> runs \<open>handleDead\<close>, and \<open>sendHttpOnLoop\<close> goes on: it
  registers the descriptor with epoll again and sets the state back to \<open>peerClose\<close>. The connection
  then is in epoll with unsent bytes and no idle timer while its removal is already queued, and
  the next failure will queue a second one.
\<close>

theorem fatal_write_revives_connection:
  assumes "kernel_ok os ep reg mu" and "conn_ok ep reg me (c, s)" and "cn_state c \<noteq> dead" and "\<not> lp_stop s" and "resp \<noteq> []"
    and "os_write os (so_fd (cn_sck c)) (peek (dataIn resp (cn_writeBuffer c))) (kern s) = (Inl e, k)"
    and "\<not> would_block e" and "e \<noteq> EINTR"
  shows "runs conn_faults (sendHttpOnLoop os me resp False (c, s)) (\<lambda>(c', s'). cn_state c' = peerClose \<and>
     reg (kern s') (so_fd (cn_sck c)) \<noteq> None \<and> lp_tasks s' = lp_tasks s @ [TRemoveConnection me] \<and>
     (\<forall>x \<in> set (tq_timers (tq s')). tm_callBack (snd x) \<noteq> me) \<and> readable (cn_writeBuffer c') \<noteq> 0)"
proof -
  let ?c = "c\<lparr>cn_writeBuffer := dataIn resp (cn_writeBuffer c)\<rparr>"
  have b: "buffer_inv (cn_writeBuffer c)"
    using conn_ok_parts[OF assms(2)] by simp
  have ok: "conn_ok ep reg me (?c, s)"
    using writeBuffer_step[OF assms(2), of "kern s" mu "dataIn resp (cn_writeBuffer c)"] b by (simp add: conn_step_def)
  have "readable (cn_writeBuffer ?c) \<noteq> 0"
    using readable_0_iff[of "cn_writeBuffer ?c"] b assms(5) by simp
  then have kill: "runs conn_faults (trySendToSck os me (?c, s)) (\<lambda>cs'. conn_step ep reg mu me (?c, s) cs' \<and> \<not> live cs' \<and>
      lp_tasks (snd cs') = lp_tasks s @ [TRemoveConnection me] \<and> cn_writeBuffer (fst cs') = dataIn resp (cn_writeBuffer c))"
    using fatal_write_kills[OF assms(1) ok, of e k] assms by simp
  have "runs conn_faults (rbind (trySendToSck os me (?c, s)) (\<lambda>cs1.
      rbind (Some (on_channel disableReading os me cs1)) (\<lambda>(c, s). ret (c\<lparr>cn_state := peerClose\<rparr>, s))))
    (\<lambda>(c', s'). cn_state c' = peerClose \<and>
     reg (kern s') (so_fd (cn_sck c)) \<noteq> None \<and> lp_tasks s' = lp_tasks s @ [TRemoveConnection me] \<and>
     (\<forall>x \<in> set (tq_timers (tq s')). tm_callBack (snd x) \<noteq> me) \<and> readable (cn_writeBuffer c') \<noteq> 0)"
  proof (rule runs_bindI[OF kill])
    fix cs1
    assume 1: "conn_step ep reg mu me (?c, s) cs1 \<and> \<not> live cs1 \<and>
      lp_tasks (snd cs1) = lp_tasks s @ [TRemoveConnection me] \<and> cn_writeBuffer (fst cs1) = dataIn resp (cn_writeBuffer c)"
    then have base: "conn_base ep reg me cs1" and sck: "cn_sck (fst cs1) = cn_sck c"
      by (simp_all add: conn_step_def conn_ok_def conn_frame_def conn_others_def Let_def)
    have gone: "\<forall>x \<in> set (tq_timers (tq (snd cs1))). tm_callBack (snd x) \<noteq> me"
      using 1 by (simp add: conn_step_def conn_ok_def)
    show "runs conn_faults (rbind (Some (on_channel disableReading os me cs1)) (\<lambda>(c, s). ret (c\<lparr>cn_state := peerClose\<rparr>, s)))
      (\<lambda>(c', s'). cn_state c' = peerClose \<and>
       reg (kern s') (so_fd (cn_sck c)) \<noteq> None \<and> lp_tasks s' = lp_tasks s @ [TRemoveConnection me] \<and>
       (\<forall>x \<in> set (tq_timers (tq s')). tm_callBack (snd x) \<noteq> me) \<and> readable (cn_writeBuffer c') \<noteq> 0)"
    proof (rule runs_bindI[OF on_channel_others[where f = disableReading, OF assms(1) base disableReading_def]])
      fix cs2
      assume 2: "ch_events (cn_channel (fst cs2)) = ch_events (cn_channel (fst cs1)) AND NOT EPOLLIN \<and>
        conn_base ep reg me cs2 \<and> conn_others reg mu me cs1 cs2 \<and> channel_only cs1 cs2 \<and> ch_inEpoll (cn_channel (fst cs2))"
      have "reg (kern (snd cs2)) (so_fd (cn_sck c)) \<noteq> None"
        using 2 sck by (auto simp: conn_base_def conn_others_def synced_def Let_def)
      then show "runs conn_faults (case cs2 of (c, s) \<Rightarrow> ret (c\<lparr>cn_state := peerClose\<rparr>, s))
        (\<lambda>(c', s'). cn_state c' = peerClose \<and>
         reg (kern s') (so_fd (cn_sck c)) \<noteq> None \<and> lp_tasks s' = lp_tasks s @ [TRemoveConnection me] \<and>
         (\<forall>x \<in> set (tq_timers (tq s')). tm_callBack (snd x) \<noteq> me) \<and> readable (cn_writeBuffer c') \<noteq> 0)"
        using channel_only_conn[of cs1 cs2] 1 2 gone \<open>readable (cn_writeBuffer ?c) \<noteq> 0\<close> by (cases cs2) simp
    qed
  qed
  then show ?thesis
    by (simp add: sendHttpOnLoop_def)
qed

theorem fatal_write_revives_connection_witness:
  "\<exists>(c :: conn) (s :: skern reactor). cn_state c = connected \<and>
     runs conn_faults (sendHttpOnLoop sos 1 build400 False (c, s)) (\<lambda>(c', s'). cn_state c' = peerClose \<and>
       sk_reg (kern s') 7 \<noteq> None \<and> lp_tasks s' = [TRemoveConnection 1])"
proof -
  let ?k = "skern0\<lparr>sk_writes := [Inl (EOTHER 32)]\<rparr>"
  have k: "sk_interest ?k = []" "sk_clock ?k = []"
    by simp_all
  obtain c s where cs: "demo_cs False ?k = (c, s)" by fastforce
  note f = demo_cs_fields[OF k cs] and ok = demo_cs(2)[OF k, of False, unfolded cs]
  have "runs conn_faults (sendHttpOnLoop sos 1 build400 False (c, s)) (\<lambda>(c', s'). cn_state c' = peerClose \<and>
     sk_reg (kern s') (so_fd (cn_sck c)) \<noteq> None \<and> lp_tasks s' = lp_tasks s @ [TRemoveConnection 1] \<and>
     (\<forall>x \<in> set (tq_timers (tq s')). tm_callBack (snd x) \<noteq> 1) \<and> readable (cn_writeBuffer c') \<noteq> 0)"
    by (rule fatal_write_revives_connection[OF sos_kernel_ok ok, where e = "EOTHER 32" and k = "(kern s)\<lparr>sk_writes := []\<rparr>"])
      (use f in \<open>simp_all add: sk_write_def would_block_def build400_def\<close>)
  then show ?thesis
    using f by (intro exI[of _ c] exI[of _ s]) (auto simp: demo_socket_def elim!: runs_mono)
qed

lemma consume_all: "buffer_inv b \<Longrightarrow> readable (consume (readable b) b) = 0"
  by (simp add: consume_props(3))

lemma full_write_after_eof_kills:
  assumes K: "kernel_ok os ep reg mu" and C: "conn_ok ep reg me (c, s)"
    and st: "cn_state c = peerClose" "cn_working c = 0" and w: "readable (cn_writeBuffer c) \<noteq> 0"
    and e: "os_write os (so_fd (cn_sck c)) (peek (cn_writeBuffer c)) (kern s) = (Inr (readable (cn_writeBuffer c)), k)"
  shows "runs conn_faults (trySendToSck os me (c, s)) (\<lambda>cs'. conn_step ep reg mu me (c, s) cs' \<and> \<not> live cs' \<and>
    same_in (c, s) cs' \<and> readable (cn_writeBuffer (fst cs')) = 0)"
proof -
  let ?b = "consume (readable (cn_writeBuffer c)) (cn_writeBuffer c)"
  let ?cs = "(c\<lparr>cn_writeBuffer := ?b\<rparr>, s\<lparr>kern := k\<rparr>)"
  have b: "buffer_inv (cn_writeBuffer c)"
    using conn_ok_parts[OF C] by simp
  have step: "conn_step ep reg mu me (c, s) ?cs"
    using writeBuffer_step[OF C, of k mu ?b] kernel_okD(5)[OF K e] consume_props(1)[OF b] by simp
  then have ok: "conn_ok ep reg me ?cs" "live ?cs"
    using st by (simp_all add: conn_step_def)
  have t: "trySendToSck os me (c, s) = Some (write_drained os me ?cs)"
    using w send_once_all[OF e] consume_all[OF b] by (subst trySendToSck.simps) simp
  show ?thesis
    unfolding t write_drained_def
  proof (rule runs_ebindI[OF disableWriting_runs[OF K ok]])
    fix cs1
    assume 1: "conn_step ep reg mu me ?cs cs1 \<and> same_in ?cs cs1 \<and> cn_writeBuffer (fst cs1) = cn_writeBuffer (fst ?cs) \<and>
      cn_state (fst cs1) = cn_state (fst ?cs)"
    then have ok1: "conn_ok ep reg me cs1" and st1: "cn_state (fst cs1) = peerClose" "cn_working (fst cs1) = 0"
      and step1: "conn_step ep reg mu me (c, s) cs1"
      using st conn_step_trans[OF step, of cs1] by (auto simp: conn_step_def same_in_def)
    have "runs conn_faults (Some (handleDead os me cs1)) (\<lambda>cs'. conn_step ep reg mu me (c, s) cs' \<and> \<not> live cs' \<and>
        same_in (c, s) cs' \<and> readable (cn_writeBuffer (fst cs')) = 0)"
      by (rule runs_mono[OF handleDead_runs[OF K ok1]])
        (use 1 conn_step_trans[OF step1] consume_all[OF b] in \<open>auto simp: same_in_def same_data_def\<close>)
    then show "runs conn_faults (Some (if cn_state (fst cs1) = peerClose \<and> cn_working (fst cs1) = 0
        then handleDead os me cs1 else Inr cs1)) (\<lambda>cs'. conn_step ep reg mu me (c, s) cs' \<and> \<not> live cs' \<and>
        same_in (c, s) cs' \<and> readable (cn_writeBuffer (fst cs')) = 0)"
      using st1 by simp
  qed
qed

lemma respond_after_eof_kills:
  assumes K: "kernel_ok os ep reg mu" and C: "conn_ok ep reg me (c, s)"
    and st: "cn_state c = peerClose" "cn_working c = 0" and r: "resp \<noteq> []"
    and e: "os_write os (so_fd (cn_sck c)) (peek (cn_writeBuffer c) @ resp) (kern s) =
      (Inr (length (peek (cn_writeBuffer c) @ resp)), k)"
  shows "runs conn_faults (rbind (sendHttpOnLoop os me resp keepAlive (c, s)) (\<lambda>cs1. Some (checkEmptyReadAfterEof os me cs1)))
    (\<lambda>cs'. \<not> live cs' \<and> cn_readBuffer (fst cs') = cn_readBuffer c)"
proof -
  let ?c = "c\<lparr>cn_writeBuffer := dataIn resp (cn_writeBuffer c)\<rparr>"
  have b: "buffer_inv (cn_writeBuffer c)"
    using conn_ok_parts[OF C] by simp
  have ok: "conn_ok ep reg me (?c, s)"
    using writeBuffer_step[OF C, of "kern s" mu "dataIn resp (cn_writeBuffer c)"] b by (simp add: conn_step_def)
  have len: "readable (cn_writeBuffer ?c) = length (peek (cn_writeBuffer c) @ resp)"
    using length_peek[of "cn_writeBuffer ?c"] b by simp
  then have kill: "runs conn_faults (trySendToSck os me (?c, s)) (\<lambda>cs'. conn_step ep reg mu me (?c, s) cs' \<and> \<not> live cs' \<and>
      same_in (?c, s) cs' \<and> readable (cn_writeBuffer (fst cs')) = 0)"
    using full_write_after_eof_kills[OF K ok, of k] st r e b by simp
  have "runs conn_faults (rbind (trySendToSck os me (?c, s)) (\<lambda>cs1.
      rbind (if keepAlive then ret cs1
        else rbind (Some (on_channel disableReading os me cs1)) (\<lambda>(c, s). ret (c\<lparr>cn_state := peerClose\<rparr>, s)))
      (\<lambda>cs1. Some (checkEmptyReadAfterEof os me cs1)))) (\<lambda>cs'. \<not> live cs' \<and> cn_readBuffer (fst cs') = cn_readBuffer c)"
  proof (rule runs_bindI[OF kill])
    fix cs1
    assume 1: "conn_step ep reg mu me (?c, s) cs1 \<and> \<not> live cs1 \<and> same_in (?c, s) cs1 \<and> readable (cn_writeBuffer (fst cs1)) = 0"
    then have ok1: "conn_ok ep reg me cs1"
      by (simp add: conn_step_def)
    have "runs conn_faults (rbind (rbind (Some (on_channel disableReading os me cs1)) (\<lambda>(c, s). ret (c\<lparr>cn_state := peerClose\<rparr>, s)))
        (\<lambda>cs1. Some (checkEmptyReadAfterEof os me cs1))) (\<lambda>cs'. \<not> live cs' \<and> cn_readBuffer (fst cs') = cn_readBuffer c)"
      unfolding rbind_assoc
    proof (rule runs_bindI[OF disableReading_runs[OF K ok1]])
      fix cs2
      assume 2: "conn_step ep reg mu me cs1 ((fst cs2)\<lparr>cn_state := peerClose\<rparr>, snd cs2) \<and> same_in cs1 cs2 \<and>
        \<not> wants_input cs2 \<and> cn_writeBuffer (fst cs2) = cn_writeBuffer (fst cs1)"
      let ?cs = "((fst cs2)\<lparr>cn_state := peerClose\<rparr>, snd cs2)"
      have "conn_ok ep reg me ?cs"
        using 2 by (simp add: conn_step_def)
      then have "runs conn_faults (Some (handleDead os me ?cs)) (\<lambda>cs'. \<not> live cs' \<and> cn_readBuffer (fst cs') = cn_readBuffer c)"
        using 1 2 by (intro runs_mono[OF handleDead_runs[OF K]]) (auto simp: same_data_def same_in_def)
      moreover have "checkEmptyReadAfterEof os me ?cs = handleDead os me ?cs"
        using 1 2 st by (simp add: checkEmptyReadAfterEof_def same_in_def)
      ultimately show "runs conn_faults (rbind (case cs2 of (c, s) \<Rightarrow> ret (c\<lparr>cn_state := peerClose\<rparr>, s))
          (\<lambda>cs1. Some (checkEmptyReadAfterEof os me cs1))) (\<lambda>cs'. \<not> live cs' \<and> cn_readBuffer (fst cs') = cn_readBuffer c)"
        by (cases cs2) simp
    qed
    then show "runs conn_faults (rbind (if keepAlive then ret cs1
        else rbind (Some (on_channel disableReading os me cs1)) (\<lambda>(c, s). ret (c\<lparr>cn_state := peerClose\<rparr>, s)))
      (\<lambda>cs1. Some (checkEmptyReadAfterEof os me cs1))) (\<lambda>cs'. \<not> live cs' \<and> cn_readBuffer (fst cs') = cn_readBuffer c)"
      using 1 by (auto simp: checkEmptyReadAfterEof_def same_in_def)
  qed
  then show ?thesis
    by (simp add: sendHttpOnLoop_def rbind_assoc)
qed

text \<open>
  C33. After end of file, pipelined requests are dropped: Connection.h says that everything read
  before the end of file is processed, but without the pool, when the socket takes the whole first
  response, the connection is closed at once, and whatever follows the first request stays in the
  read buffer, parsed by nobody.
\<close>

theorem eof_drops_pipelined_requests:
  assumes "kernel_ok os ep reg mu" and "conn_ok ep reg me (c, s)" and "http_inv (cn_http c)" and "\<not> cn_useThreadPool c"
    and "cn_state c = peerClose" and "cn_working c = 0"
    and "parse (cn_http c) (cn_readBuffer c) = Inr (kComplete, h, b)"
    and "os_write os (so_fd (cn_sck c)) (peek (cn_writeBuffer c) @ buildResponse (fst (releaseRequest h))) (kern s) =
      (Inr (length (peek (cn_writeBuffer c) @ buildResponse (fst (releaseRequest h)))), k)"
  shows "runs conn_faults (http_loop os me (c, s)) (\<lambda>(c', s'). cn_state c' = dead \<and> cn_readBuffer c' = b)"
proof -
  let ?req = "fst (releaseRequest h)" and ?c = "c\<lparr>cn_http := snd (releaseRequest h), cn_readBuffer := b\<rparr>"
  have "conn_step ep reg mu me (c, s) (?c, s)"
    using parse_step(1)[OF assms(2), of kComplete h b] assms(3,7) by simp
  then have ok: "conn_ok ep reg me (?c, s)"
    by (simp add: conn_step_def)
  have "buildResponse ?req \<noteq> []"
    by (simp add: buildResponse_def)
  then have kill: "runs conn_faults (rbind (sendHttpOnLoop os me (buildResponse ?req) (rq_keepAlive ?req) (?c, s))
      (\<lambda>cs1. Some (checkEmptyReadAfterEof os me cs1))) (\<lambda>cs'. \<not> live cs' \<and> cn_readBuffer (fst cs') = b)"
    using respond_after_eof_kills[OF assms(1) ok, of "buildResponse ?req" k] assms(5,6,8) by simp
  have "runs conn_faults (rbind (rbind (sendHttpOnLoop os me (buildResponse ?req) (rq_keepAlive ?req) (?c, s))
      (\<lambda>cs1. Some (checkEmptyReadAfterEof os me cs1))) (http_loop os me)) (\<lambda>(c', s'). cn_state c' = dead \<and> cn_readBuffer c' = b)"
    by (rule runs_bindI[OF kill], subst http_loop.simps) auto
  then show ?thesis
    using http_loop_round[of "(c, s)" kComplete h b os me] assms(4,5,7) by (simp add: Let_def)
qed

theorem eof_drops_pipelined_requests_witness:
  "\<exists>(c :: conn) (s :: skern reactor). peek (cn_readBuffer c) = demo_request @ demo_request \<and> cn_state c = peerClose \<and>
     runs conn_faults (http_loop sos 1 (c, s)) (\<lambda>(c', s'). cn_state c' = dead \<and> peek (cn_readBuffer c') = demo_request)"
proof -
  obtain c0 s where cs: "demo_cs False skern0 = (c0, s)" by fastforce
  note f = demo_cs_fields[OF skern0_fields cs] and ok0 = demo_cs(2)[OF skern0_fields, of False, unfolded cs]
  let ?b = "dataIn (demo_request @ demo_request) Buffer_new"
  let ?c = "c0\<lparr>cn_state := peerClose, cn_readBuffer := ?b\<rparr>"
  have "conn_step 4 sk_reg sk_supply 1 (c0, s) (c0\<lparr>cn_state := peerClose\<rparr>, s)"
    using state_step[OF ok0, of peerClose] f by simp
  then have "conn_ok 4 sk_reg 1 (c0\<lparr>cn_state := peerClose\<rparr>, s)"
    by (simp add: conn_step_def)
  from readBuffer_step[OF this, of "kern s" sk_supply ?b] have ok: "conn_ok 4 sk_reg 1 (?c, s)"
    by (simp add: conn_step_def)
  have "case parse_str HttpProcess_new demo_request of Inl e \<Rightarrow> False | Inr (p, h', s) \<Rightarrow> p = kComplete \<and> s = []"
    by code_simp
  then obtain h where "parse_str HttpProcess_new demo_request = Inr (kComplete, h, [])"
    by (auto split: sum.splits)
  from parse_str_extend[OF this, of demo_request] have "parse_str HttpProcess_new (peek ?b) = Inr (kComplete, h, demo_request)"
    by simp
  then obtain b where b: "parse HttpProcess_new ?b = Inr (kComplete, h, b)" "peek b = demo_request"
    using parse_from_str[of ?b HttpProcess_new kComplete h demo_request] by auto
  have "runs conn_faults (http_loop sos 1 (?c, s)) (\<lambda>(c', s'). cn_state c' = dead \<and> cn_readBuffer c' = b)"
    by (rule eof_drops_pipelined_requests[OF sos_kernel_ok ok, where h = h])
      (use f b in \<open>simp_all add: sk_write_def skern0_def\<close>)
  then show ?thesis
    using b(2) by (intro exI[of _ ?c] exI[of _ s]) (auto elim!: runs_mono)
qed

end
