(* ===== verification/SubReactor.thy ===== *)
theory SubReactor
  imports LoopSteps ConnHandlers
begin

section \<open>SubReactor: a loop full of connections\<close>

text \<open>
  Models \<open>class SubReactor\<close> (include/SubReactor.h, src/server/SubReactor.cpp): the event loop whose
  channels, timers and tasks belong to connections, the table \<open>Connections\<close>, and the ownership of
  the \<open>Connection\<close> objects by shared pointers.
\<close>

subsection \<open>State\<close>

text \<open>
  \<open>sr_heap\<close> holds the \<open>Connection\<close> objects that exist, under the address of their \<open>Socket\<close>.
  \<open>sr_conns\<close> are the keys of \<open>Connections\<close>. \<open>sr_selfptr\<close> lists the objects whose
  \<open>addTimerCallBack\<close> holds a shared pointer to the object itself, as the lambda
  \<open>[this, conn]\<close> of \<open>addConnection\<close> does.
\<close>

record 'k subr = "'k reactor" +
  sr_useThreadPool :: bool
  sr_heap :: "conn_id \<Rightarrow> conn option"
  sr_conns :: "conn_id list"
  sr_selfptr :: "conn_id list"

text \<open>The shared pointers to a connection that are stored somewhere.\<close>

fun task_holds :: "conn_id \<Rightarrow> sub_task \<Rightarrow> bool" where
  "task_holds me (TAddConnection i sock) = False"
| "task_holds me (TRemoveConnection i) = (i = me)"
| "task_holds me (TSendResponse i resp ka) = (i = me)"
| "task_holds me TStop = False"

definition use_count :: "conn_id \<Rightarrow> ('k, 'z) subr_scheme \<Rightarrow> nat" where
  "use_count me s =
     (if me \<in> set (sr_conns s) then 1 else 0) +
     (if me \<in> set (sr_selfptr s) then 1 else 0) +
     length (filter (\<lambda>x. tm_callBack (snd x) = me) (tq_timers (tq s))) +
     length (filter (task_holds me) (lp_tasks s)) +
     length (filter (\<lambda>j. fst j = me) (pl_tasks (rc_pool s)))"

text \<open>
  The destructor runs when the last pointer goes; through \<open>unique_ptr\<close> it closes the socket. The
  model looks at the count when a handler has returned.
\<close>

definition sub_release :: "'k os \<Rightarrow> conn_id \<Rightarrow> ('k, 'z) subr_scheme \<Rightarrow> ('k, 'z) subr_scheme" where
  "sub_release os me s =
     (case sr_heap s me of
        None \<Rightarrow> s
      | Some c \<Rightarrow>
          if use_count me s = 0
          then s\<lparr>sr_heap := (sr_heap s)(me := None), kern := snd (Socket_delete os (cn_sck c) (kern s))\<rparr>
          else s)"

subsection \<open>Running the code of a connection\<close>

definition on_conn ::
  "conn_id \<Rightarrow> (conn \<times> ('k, 'z) subr_scheme \<Rightarrow> (conn \<times> ('k, 'z) subr_scheme) res) \<Rightarrow>
   ('k, 'z) subr_scheme \<Rightarrow> ('k, 'z) subr_scheme res" where
  "on_conn me f s =
     (case sr_heap s me of
        None \<Rightarrow> fail (Undefined ''use after free'')
      | Some c \<Rightarrow> rbind (f (c, s)) (\<lambda>(c', s'). ret (s'\<lparr>sr_heap := (sr_heap s')(me \<mapsto> c')\<rparr>)))"

definition then_release ::
  "'k os \<Rightarrow> conn_id \<Rightarrow> (conn \<times> ('k, 'z) subr_scheme \<Rightarrow> (conn \<times> ('k, 'z) subr_scheme) res) \<Rightarrow>
   ('k, 'z) subr_scheme \<Rightarrow> ('k, 'z) subr_scheme res" where
  "then_release os me f s = rbind (on_conn me f s) (\<lambda>s'. ret (sub_release os me s'))"

subsection \<open>The tasks and callbacks\<close>

definition sub_addConnection ::
  "'k os \<Rightarrow> conn_id \<Rightarrow> socket \<Rightarrow> ('k, 'z) subr_scheme \<Rightarrow> ('k, 'z) subr_scheme res" where
  "sub_addConnection os me sock s =
     on_conn me (\<lambda>cs. Some (startConnect os me cs))
       (s\<lparr>sr_heap := (sr_heap s)(me \<mapsto> Connection_new sock (sr_useThreadPool s)),
         sr_selfptr := me # sr_selfptr s,
         sr_conns := (if me \<in> set (sr_conns s) then sr_conns s else sr_conns s @ [me])\<rparr>)"

definition sub_removeConnection :: "'k os \<Rightarrow> conn_id \<Rightarrow> ('k, 'z) subr_scheme \<Rightarrow> ('k, 'z) subr_scheme" where
  "sub_removeConnection os me s = sub_release os me (s\<lparr>sr_conns := filter (\<lambda>i. i \<noteq> me) (sr_conns s)\<rparr>)"

text \<open>\<open>it\<close> is the iteration order of the \<open>unordered_map\<close>.\<close>

definition sub_stop ::
  "'k os \<Rightarrow> (conn_id list \<Rightarrow> conn_id list) \<Rightarrow> ('k, 'z) subr_scheme \<Rightarrow> ('k, 'z) subr_scheme res" where
  "sub_stop os it s =
     rbind (run_all (\<lambda>me. on_conn me (\<lambda>cs. Some (conn_stop os me cs))) (it (sr_conns s)) s) (\<lambda>s1.
       Some (stopLoop os s1))"

definition sub_task_run ::
  "'k os \<Rightarrow> (conn_id list \<Rightarrow> conn_id list) \<Rightarrow> sub_task \<Rightarrow> ('k, 'z) subr_scheme \<Rightarrow> ('k, 'z) subr_scheme res" where
  "sub_task_run os it t s =
     (case t of
        TAddConnection me sock \<Rightarrow> sub_addConnection os me sock s
      | TRemoveConnection me \<Rightarrow> ret (sub_removeConnection os me s)
      | TSendResponse me resp ka \<Rightarrow> then_release os me (response_done os me resp ka) s
      | TStop \<Rightarrow> sub_stop os it s)"

definition sub_timer :: "'k os \<Rightarrow> conn_id \<Rightarrow> ('k, 'z) subr_scheme \<Rightarrow> ('k, 'z) subr_scheme res" where
  "sub_timer os me s = then_release os me (\<lambda>cs. Some (handleDead os me cs)) s"

definition sub_channel ::
  "'k os \<Rightarrow> chan_id \<Rightarrow> 32 word \<Rightarrow> ('k, 'z) subr_scheme \<Rightarrow> ('k, 'z) subr_scheme res" where
  "sub_channel os p revents s =
     (case p of
        ConnChan me \<Rightarrow> then_release os me (conn_event os me revents) s
      | _ \<Rightarrow> fail (Undefined ''unknown channel''))"

definition sub_owner ::
  "'k os \<Rightarrow> (conn_id list \<Rightarrow> conn_id list) \<Rightarrow> (conn_id, sub_task, ('k, 'z) subr_scheme) owner" where
  "sub_owner os it = \<lparr>ow_channel = sub_channel os, ow_timer = sub_timer os, ow_task = sub_task_run os it\<rparr>"

subsection \<open>The interface for the other threads\<close>

definition SubReactor_new :: "'k os \<Rightarrow> bool \<Rightarrow> 'k \<Rightarrow> 'k subr outcome" where
  "SubReactor_new os f k =
     ebind (EventLoop_new os k) (\<lambda>l.
       Inr \<lparr>kern = kern l, epfd = epfd l, tq = tq l, lp_tasks = lp_tasks l, lp_stop = lp_stop l, lp_fd = lp_fd l,
            lp_chan = lp_chan l, lp_signal = lp_signal l, rc_pool = pool_new, sr_useThreadPool = f,
            sr_heap = (\<lambda>_. None), sr_conns = [], sr_selfptr = []\<rparr>)"

definition SubReactor_addConnection ::
  "'k os \<Rightarrow> conn_id \<Rightarrow> socket \<Rightarrow> ('k, 'z) subr_scheme \<Rightarrow> ('k, 'z) subr_scheme outcome" where
  "SubReactor_addConnection os me sock s = enqueueTask os (TAddConnection me sock) s"

definition SubReactor_stop :: "'k os \<Rightarrow> ('k, 'z) subr_scheme \<Rightarrow> ('k, 'z) subr_scheme outcome" where
  "SubReactor_stop os s = enqueueTask os TStop s"

text \<open>The thread that \<open>start\<close> creates and \<open>stop\<close> joins.\<close>

definition sub_thread ::
  "'k os \<Rightarrow> (conn_id list \<Rightarrow> conn_id list) \<Rightarrow> ('k, 'z) subr_scheme \<Rightarrow> ('k, 'z) subr_scheme res" where
  "sub_thread os it s = loop os (sub_owner os it) s"

end
