(* ===== verification/SubInv.thy ===== *)
theory SubInv
  imports SubReactor
begin

section \<open>The invariant of a sub-reactor\<close>

text \<open>
  Every handler of a sub-reactor runs on an object that exists, keeps every connection consistent
  with epoll and the timers, and leaves no reference behind that points to nothing. The laws of
  \<open>loop_client\<close> are proved one by one, and the interpretation at the end gives the reachable
  states, with the other threads in between.
\<close>

subsection \<open>Faults\<close>

text \<open>\<open>sub_faults False\<close> are those of a reactor whose pool has not been stopped.\<close>

definition sub_faults :: "bool \<Rightarrow> fault set" where
  "sub_faults stopped = event_faults stopped \<union> {Exit ''epoll wait error'', Exit ''eloopFd read error''}"

lemma sub_faults_simps [simp]:
  "Exit ''epoll wait error'' \<in> sub_faults b" "Exit ''eloopFd read error'' \<in> sub_faults b"
  "Exit ''time get error'' \<in> sub_faults b" "Exit ''timeFd refresh error'' \<in> sub_faults b"
  "e \<in> conn_faults \<Longrightarrow> e \<in> sub_faults b"
  by (simp_all add: sub_faults_def)

lemma event_sub_faults: "runs (event_faults b) m P \<Longrightarrow> runs (sub_faults b) m P"
  by (erule runs_mono_faults) (auto simp: sub_faults_def)

lemma conn_sub_faults: "runs conn_faults m P \<Longrightarrow> runs (sub_faults b) m P"
  by (rule event_sub_faults[OF conn_event_faults])

lemma loop_sub_faults: "runs loop_faults m P \<Longrightarrow> runs (sub_faults b) m P"
  by (erule runs_mono_faults) (auto simp: loop_faults_def)

subsection \<open>The invariant\<close>

text \<open>The descriptors: each has one owner, and epoll knows no other.\<close>

definition fd_of :: "('k, 'z) subr_scheme \<Rightarrow> conn_id \<Rightarrow> int \<Rightarrow> bool" where
  "fd_of s me fd \<longleftrightarrow> (\<exists>c. sr_heap s me = Some c \<and> so_fd (cn_sck c) = fd)"

definition fds_inv :: "'k registry \<Rightarrow> ('k, 'z) subr_scheme \<Rightarrow> bool" where
  "fds_inv reg s \<longleftrightarrow>
     (\<forall>me fd. fd_of s me fd \<longrightarrow> fd \<noteq> lp_fd s \<and> fd \<noteq> tq_timeFd (tq s)) \<and>
     (\<forall>me me' fd. fd_of s me fd \<and> fd_of s me' fd \<longrightarrow> me = me') \<and>
     (\<forall>fd. reg (kern s) fd \<noteq> None \<longrightarrow> fd = lp_fd s \<or> fd = tq_timeFd (tq s) \<or> (\<exists>me. fd_of s me fd))"

definition conns_inv :: "int \<Rightarrow> 'k registry \<Rightarrow> ('k, 'z) subr_scheme \<Rightarrow> bool" where
  "conns_inv ep reg s \<longleftrightarrow> (\<forall>me c. sr_heap s me = Some c \<longrightarrow> conn_ok ep reg me (c, s) \<and> input_ok (c, s))"

text \<open>Whatever refers to a connection refers to an object that exists.\<close>

definition refs_inv :: "sub_task list \<Rightarrow> ('k, 'z) subr_scheme \<Rightarrow> bool" where
  "refs_inv ts s \<longleftrightarrow>
     (\<forall>x \<in> set (tq_timers (tq s)). sr_heap s (tm_callBack (snd x)) \<noteq> None) \<and>
     (\<forall>t \<in> set (ts @ lp_tasks s). \<forall>me. task_holds me t \<longrightarrow> sr_heap s me \<noteq> None) \<and>
     (\<forall>j \<in> set (pl_tasks (rc_pool s)). sr_heap s (fst j) \<noteq> None) \<and>
     (\<forall>me \<in> set (sr_conns s). sr_heap s me \<noteq> None) \<and>
     (\<forall>me. sr_heap s me \<noteq> None \<longrightarrow> me \<in> set (sr_selfptr s))"

text \<open>The accepted sockets that wait in the queue are new.\<close>

fun new_conns :: "sub_task list \<Rightarrow> (conn_id \<times> socket) list" where
  "new_conns [] = []"
| "new_conns (TAddConnection me sock # ts) = (me, sock) # new_conns ts"
| "new_conns (_ # ts) = new_conns ts"

definition new_inv :: "sub_task list \<Rightarrow> ('k, 'z) subr_scheme \<Rightarrow> bool" where
  "new_inv ts s \<longleftrightarrow> (let new = new_conns (ts @ lp_tasks s) in
     distinct (map fst new) \<and> distinct (map (\<lambda>x. so_fd (snd x)) new) \<and>
     (\<forall>x \<in> set new. sr_heap s (fst x) = None \<and> so_fd (snd x) \<noteq> lp_fd s \<and> so_fd (snd x) \<noteq> tq_timeFd (tq s) \<and>
        (\<forall>me. \<not> fd_of s me (so_fd (snd x)))))"

definition sub_inv :: "int \<Rightarrow> 'k registry \<Rightarrow> sub_task list \<Rightarrow> ('k, 'z) subr_scheme \<Rightarrow> bool" where
  "sub_inv ep reg ts s \<longleftrightarrow> loop_inv ep reg s \<and> fds_inv reg s \<and> conns_inv ep reg s \<and> refs_inv ts s \<and> new_inv ts s"

lemma new_conns_append [simp]: "new_conns (xs @ ys) = new_conns xs @ new_conns ys"
  by (induction xs rule: new_conns.induct) simp_all

lemma new_conns_removals [simp]: "new_conns (replicate n (TRemoveConnection me)) = []"
  by (induction n) simp_all

lemma more_fields:
  fixes s s' :: "('k, 'z) subr_scheme"
  assumes "reactor.more s' = reactor.more s"
  shows "sr_heap s' = sr_heap s" "sr_conns s' = sr_conns s" "sr_selfptr s' = sr_selfptr s"
    "sr_useThreadPool s' = sr_useThreadPool s"
  using assms by (cases s; cases s'; simp)+

subsection \<open>Running one connection\<close>

lemma conn_ok_cong:
  "epfd s = epfd s' \<Longrightarrow> tq s = tq s' \<Longrightarrow> kern s = kern s' \<Longrightarrow> conn_ok ep reg me (c, s) = conn_ok ep reg me (c, s')"
  by (simp add: conn_ok_def conn_base_def)

lemma input_ok_cong: "input_ok (c, s) = input_ok (c, s')"
  by (simp add: input_ok_def wants_input_def)

text \<open>A handler of \<open>me\<close> keeps every other connection consistent.\<close>

lemma conn_ok_other:
  assumes "conn_ok ep reg me' (d, s)" and "conn_others reg mu me (c, s) (c', s')" and "conn_ok ep reg me (c', s')"
    and "me' \<noteq> me" and "so_fd (cn_sck d) \<noteq> so_fd (cn_sck c)"
  shows "conn_ok ep reg me' (d, s')"
proof -
  have "set (filter (\<lambda>x. tm_callBack (snd x) \<noteq> me) (tq_timers (tq s'))) =
      set (filter (\<lambda>x. tm_callBack (snd x) \<noteq> me) (tq_timers (tq s)))"
    using assms(2) by (simp add: conn_others_def)
  then have same: "x \<in> set (tq_timers (tq s')) \<longleftrightarrow> x \<in> set (tq_timers (tq s))" if "tm_callBack (snd x) \<noteq> me" for x
    using that by auto
  have old: "x \<in> set (tq_timers (tq s)) \<or> cn_timerId d < fst x" if "x \<in> set (tq_timers (tq s'))" for x
    using that assms(1,2) by (fastforce simp: conn_others_def timers_newer_def conn_ok_def conn_base_def Let_def)
  have "tm_callBack (snd x) = me' \<longleftrightarrow> fst x = cn_timerId d" if x: "x \<in> set (tq_timers (tq s'))" for x
  proof (cases "tm_callBack (snd x) = me")
    case True
    then have "fst x \<noteq> cn_timerId d"
      using old[OF x] assms(1,4) by (auto simp: conn_ok_def conn_base_def)
    then show ?thesis
      using True assms(4) by simp
  next
    case False
    then have "x \<in> set (tq_timers (tq s))"
      using same x by blast
    then show ?thesis
      using assms(1) by (simp add: conn_ok_def conn_base_def)
  qed
  moreover have "cn_timerId d \<le> tq_timerId (tq s')" "timers_wf (tq s')" "epfd s' = epfd s"
      "reg (kern s') (so_fd (cn_sck d)) = reg (kern s) (so_fd (cn_sck d))"
    using assms(1,2,3,5) by (auto simp: conn_others_def timers_newer_def conn_ok_def conn_base_def Let_def)
  moreover have "cn_state d = dead \<Longrightarrow> \<forall>x \<in> set (tq_timers (tq s')). tm_callBack (snd x) \<noteq> me'"
    using assms(1,4) same by (fastforce simp: conn_ok_def)
  ultimately show ?thesis
    using assms(1) by (auto simp: conn_ok_def conn_base_def synced_def split: if_splits)
qed

text \<open>
  What no handler changes: the table, the sockets of the objects, the loop's descriptors and the pool's
  stop flag; jobs are only added, and tasks too, which only take connections out of the table; the
  kernel's supply shrinks.
\<close>

definition keeps :: "('k \<Rightarrow> nat) \<Rightarrow> ('k, 'z) subr_scheme \<Rightarrow> ('k, 'z) subr_scheme \<Rightarrow> bool" where
  "keeps mu s s' \<longleftrightarrow> mu (kern s') \<le> mu (kern s) \<and> sr_conns s' = sr_conns s \<and>
     (\<exists>rs. lp_tasks s' = lp_tasks s @ map TRemoveConnection rs) \<and>
     (\<forall>i. map_option cn_sck (sr_heap s' i) = map_option cn_sck (sr_heap s i)) \<and>
     lp_fd s' = lp_fd s \<and> tq_timeFd (tq s') = tq_timeFd (tq s) \<and> (lp_stop s \<longrightarrow> lp_stop s') \<and>
     pl_stop (rc_pool s') = pl_stop (rc_pool s) \<and> (\<exists>js. pl_tasks (rc_pool s') = pl_tasks (rc_pool s) @ js)"

lemma keeps_conns: "keeps mu s s' \<Longrightarrow> sr_conns s' = sr_conns s"
  by (simp add: keeps_def)

lemma removes_exist: "\<exists>rs. replicate n (TRemoveConnection me) = map TRemoveConnection rs"
  by (rule exI[of _ "replicate n me"]) simp

lemma keeps_refl [simp]: "keeps mu s s"
  by (simp add: keeps_def)

lemma keeps_trans:
  assumes "keeps mu a b" and "keeps mu b c"
  shows "keeps mu a c"
proof -
  obtain js js' where "pl_tasks (rc_pool b) = pl_tasks (rc_pool a) @ js" "pl_tasks (rc_pool c) = pl_tasks (rc_pool b) @ js'"
    using assms unfolding keeps_def by blast
  then have "\<exists>js. pl_tasks (rc_pool c) = pl_tasks (rc_pool a) @ js"
    by simp
  moreover obtain rs rs' where "lp_tasks b = lp_tasks a @ map TRemoveConnection rs" "lp_tasks c = lp_tasks b @ map TRemoveConnection rs'"
    using assms unfolding keeps_def by blast
  then have "lp_tasks c = lp_tasks a @ map TRemoveConnection (rs @ rs')"
    by simp
  then have "\<exists>rs. lp_tasks c = lp_tasks a @ map TRemoveConnection rs" ..
  moreover have "mu (kern c) \<le> mu (kern a)"
    using assms order_trans unfolding keeps_def by blast
  ultimately show ?thesis
    using assms unfolding keeps_def by simp
qed

lemma keeps_kern: "mu k \<le> mu (kern s) \<Longrightarrow> keeps mu s (s\<lparr>kern := k\<rparr>)"
  by (simp add: keeps_def)

lemma keeps_kern2: "keeps mu s s' \<Longrightarrow> mu k \<le> mu (kern s') \<Longrightarrow> keeps mu s (s'\<lparr>kern := k\<rparr>)"
  by (rule keeps_trans[OF _ keeps_kern])

lemma keeps_heap: "keeps mu s s' \<Longrightarrow> sr_heap s' i = None \<longleftrightarrow> sr_heap s i = None"
  unfolding keeps_def by (metis option.map_disc_iff)

lemma keeps_dom: "keeps mu s s' \<Longrightarrow> sr_heap s i = Some c \<Longrightarrow> \<exists>c'. sr_heap s' i = Some c'"
  using keeps_heap[of mu s s' i] by auto

text \<open>
  The same for a step that takes a task from the front of the turn: a connection that waited in the
  queue becomes an object with the same socket. \<open>sockets\<close> are those of the objects and of the queue.
\<close>

definition sockets :: "sub_task list \<Rightarrow> ('k, 'z) subr_scheme \<Rightarrow> (conn_id \<times> socket) set" where
  "sockets ts s = {(i, sck). map_option cn_sck (sr_heap s i) = Some sck} \<union> set (new_conns (ts @ lp_tasks s))"

definition moved ::
  "('k \<Rightarrow> nat) \<Rightarrow> sub_task list \<Rightarrow> ('k, 'z) subr_scheme \<Rightarrow> sub_task list \<Rightarrow> ('k, 'z) subr_scheme \<Rightarrow> bool" where
  "moved mu ts s ts' s' \<longleftrightarrow> mu (kern s') \<le> mu (kern s) \<and> sockets ts' s' = sockets ts s \<and>
     set (lp_tasks s) \<subseteq> set (lp_tasks s') \<and> (lp_stop s \<longrightarrow> lp_stop s') \<and> lp_fd s' = lp_fd s \<and> tq_timeFd (tq s') = tq_timeFd (tq s) \<and>
     pl_stop (rc_pool s') = pl_stop (rc_pool s) \<and> (\<exists>js. pl_tasks (rc_pool s') = pl_tasks (rc_pool s) @ js)"

lemma moved_trans:
  assumes "moved mu ts s ts' s'" and "moved mu ts' s' ts'' s''"
  shows "moved mu ts s ts'' s''"
proof -
  obtain js js' where "pl_tasks (rc_pool s') = pl_tasks (rc_pool s) @ js" "pl_tasks (rc_pool s'') = pl_tasks (rc_pool s') @ js'"
    using assms unfolding moved_def by blast
  then have "\<exists>js. pl_tasks (rc_pool s'') = pl_tasks (rc_pool s) @ js"
    by simp
  with assms show ?thesis
    unfolding moved_def by simp (meson order_trans)
qed

lemma new_conns_removes [simp]: "new_conns (map TRemoveConnection rs) = []"
  by (induction rs) simp_all

lemma keeps_moved: "keeps mu s s' \<Longrightarrow> new_conns ts = new_conns ts' \<Longrightarrow> moved mu ts s ts' s'"
  by (auto simp: keeps_def moved_def sockets_def)

text \<open>
  \<open>ran me s s'\<close>: what running \<open>me\<close> may change in the sub-reactor.
\<close>

definition ran :: "('k \<Rightarrow> nat) \<Rightarrow> conn_id \<Rightarrow> ('k, 'z) subr_scheme \<Rightarrow> ('k, 'z) subr_scheme \<Rightarrow> bool" where
  "ran mu me s s' \<longleftrightarrow> keeps mu s s' \<and> rung s s' \<and> (\<forall>i. i \<noteq> me \<longrightarrow> sr_heap s' i = sr_heap s i) \<and> sr_heap s' me \<noteq> None \<and>
     lp_stop s' = lp_stop s \<and>
     filter (\<lambda>x. tm_callBack (snd x) \<noteq> me) (tq_timers (tq s')) = filter (\<lambda>x. tm_callBack (snd x) \<noteq> me) (tq_timers (tq s))"

text \<open>The invariant while \<open>me\<close> itself is being set up.\<close>

definition sub_inv_but :: "int \<Rightarrow> 'k registry \<Rightarrow> conn_id \<Rightarrow> sub_task list \<Rightarrow> ('k, 'z) subr_scheme \<Rightarrow> bool" where
  "sub_inv_but ep reg me ts s \<longleftrightarrow> loop_inv ep reg s \<and> fds_inv reg s \<and> refs_inv ts s \<and> new_inv ts s \<and>
     (\<forall>i d. i \<noteq> me \<longrightarrow> sr_heap s i = Some d \<longrightarrow> conn_ok ep reg i (d, s) \<and> input_ok (d, s))"

lemma sub_inv_but: "sub_inv ep reg ts s \<Longrightarrow> sub_inv_but ep reg me ts s"
  by (simp add: sub_inv_def sub_inv_but_def conns_inv_def)

lemma sub_inv_ran:
  assumes I: "sub_inv_but ep reg me ts s" and c: "sr_heap s me = Some c"
    and post: "conn_ok ep reg me (c', s')" "input_ok (c', s')" "conn_others reg mu me (c, s) (c', s')"
  shows "sub_inv ep reg ts (s'\<lparr>sr_heap := (sr_heap s')(me \<mapsto> c')\<rparr>)" (is "sub_inv _ _ _ ?s")
    and "ran mu me s (s'\<lparr>sr_heap := (sr_heap s')(me \<mapsto> c')\<rparr>)"
proof -
  note I' = I[unfolded sub_inv_but_def]
  have o: "cn_sck c' = cn_sck c" "\<forall>fd. fd \<noteq> so_fd (cn_sck c) \<longrightarrow> reg (kern s') fd = reg (kern s) fd"
    "tq_timeFd (tq s') = tq_timeFd (tq s)" "tq_chan (tq s') = tq_chan (tq s)" "epfd s' = epfd s" "lp_fd s' = lp_fd s"
    "lp_chan s' = lp_chan s" "lp_stop s' = lp_stop s" "rung s s'"
    and more: "reactor.more s' = reactor.more s"
    using post(3) by (simp_all add: conn_others_def)
  obtain n where n: "lp_tasks s' = lp_tasks s @ replicate n (TRemoveConnection me)"
    using post(3) by (auto simp: conn_others_def)
  obtain reqs where reqs: "pl_tasks (rc_pool s') = pl_tasks (rc_pool s) @ map (Pair me) reqs"
    using post(3) by (auto simp: conn_others_def)
  note heap = more_fields[OF more]
  have mine: "fd_of s me (so_fd (cn_sck c))"
    using c by (simp add: fd_of_def)
  have fds: "fd_of ?s i fd \<longleftrightarrow> fd_of s i fd" for i fd
    using c by (auto simp: fd_of_def heap o(1))
  have own: "so_fd (cn_sck c) \<noteq> lp_fd s" "so_fd (cn_sck c) \<noteq> tq_timeFd (tq s)"
    using I' mine by (auto simp: fds_inv_def)
  have some: "sr_heap ?s i \<noteq> None \<longleftrightarrow> sr_heap s i \<noteq> None" for i
    using c by (auto simp: heap)
  have li: "loop_inv ep reg s" and wf: "timers_wf (tq s')"
    using I' post(1) by (simp_all add: conn_ok_def conn_base_def)
  then have "synced reg EloopChan (lp_chan s) (kern s') \<longleftrightarrow> synced reg EloopChan (lp_chan s) (kern s)"
      "synced reg TimeChan (tq_chan (tq s)) (kern s') \<longleftrightarrow> synced reg TimeChan (tq_chan (tq s)) (kern s)"
    using o(2) own by (intro synced_cong, simp add: loop_inv_def)+
  then have "loop_inv ep reg ?s"
    using li wf o by (simp add: loop_inv_def)
  moreover have "fds_inv reg ?s"
  proof -
    have "fds_inv reg s"
      using I' by simp
    moreover have "reg (kern s) fd \<noteq> None \<or> fd = so_fd (cn_sck c)" if "reg (kern s') fd \<noteq> None" for fd
      using that o(2) by metis
    ultimately show ?thesis
      using mine unfolding fds_inv_def fds by (simp add: o(3,6)) blast
  qed
  moreover have "conn_ok ep reg i (d, s') \<and> input_ok (d, s')" if d: "sr_heap s i = Some d" "i \<noteq> me" for i d
  proof -
    have "fd_of s i (so_fd (cn_sck d))"
      using d by (simp add: fd_of_def)
    then have "so_fd (cn_sck d) \<noteq> so_fd (cn_sck c)"
      using I' mine d(2) unfolding fds_inv_def by metis
    then show ?thesis
      using conn_ok_other[OF _ post(3,1) d(2)] I' d input_ok_cong[of d s' s] by simp
  qed
  then have "conns_inv ep reg ?s"
    using post conn_ok_cong[of ?s s'] input_ok_cong[of _ ?s s'] by (auto simp: conns_inv_def heap)
  moreover have "refs_inv ts ?s"
  proof -
    have "set (filter (\<lambda>x. tm_callBack (snd x) \<noteq> me) (tq_timers (tq s'))) \<subseteq> set (tq_timers (tq s))"
      using post(3) by (auto simp: conn_others_def)
    then have "\<forall>x \<in> set (tq_timers (tq s')). tm_callBack (snd x) = me \<or> x \<in> set (tq_timers (tq s))"
      by auto
    then have "\<forall>x \<in> set (tq_timers (tq ?s)). sr_heap ?s (tm_callBack (snd x)) \<noteq> None"
      using I' by (auto simp: refs_inv_def heap)
    moreover have "\<forall>t \<in> set (ts @ lp_tasks ?s). \<forall>i. task_holds i t \<longrightarrow> sr_heap ?s i \<noteq> None"
      using I' c by (auto simp: refs_inv_def heap n)
    moreover have "\<forall>j \<in> set (pl_tasks (rc_pool ?s)). sr_heap ?s (fst j) \<noteq> None"
      using I' by (auto simp: refs_inv_def heap reqs)
    ultimately show ?thesis
      using I' c by (auto simp: refs_inv_def heap)
  qed
  moreover have "new_inv ts ?s"
  proof -
    have new: "new_conns (ts @ lp_tasks ?s) = new_conns (ts @ lp_tasks s)"
      by (simp add: n)
    have "sr_heap ?s i = None \<longleftrightarrow> sr_heap s i = None" for i
      using some[of i] by blast
    then show ?thesis
      using I' unfolding new_inv_def new fds by (simp add: o(3,6))
  qed
  ultimately show "sub_inv ep reg ts ?s"
    by (simp add: sub_inv_def)
  show "ran mu me s ?s"
    using post(3) c rung_heap[OF o(9), of ?s] removes_exist by (auto simp: ran_def keeps_def heap conn_others_def)
qed

lemma on_conn_runs:
  assumes I: "sub_inv_but ep reg me ts s" and c: "sr_heap s me = Some c"
    and f: "runs (event_faults b) (f (c, s)) (\<lambda>cs'. conn_ok ep reg me cs' \<and> input_ok cs' \<and> conn_others reg mu me (c, s) cs' \<and> Q (fst cs'))"
  shows "runs (sub_faults b) (on_conn me f s) (\<lambda>s'. sub_inv ep reg ts s' \<and> ran mu me s s' \<and>
    (\<exists>c'. sr_heap s' me = Some c' \<and> Q c'))"
proof -
  have "runs (sub_faults b) (rbind (f (c, s)) (\<lambda>(c', s'). ret (s'\<lparr>sr_heap := (sr_heap s')(me \<mapsto> c')\<rparr>)))
      (\<lambda>s'. sub_inv ep reg ts s' \<and> ran mu me s s' \<and> (\<exists>c'. sr_heap s' me = Some c' \<and> Q c'))"
    by (rule runs_bindI[OF event_sub_faults[OF f]]) (use sub_inv_ran[OF I c] in \<open>auto\<close>)
  then show ?thesis
    by (simp add: on_conn_def c)
qed

text \<open>
  Since every object holds a pointer to itself, its count never reaches zero and the destructor never
  runs.
\<close>

lemma use_count_positive: "sub_inv ep reg ts s \<Longrightarrow> sr_heap s me \<noteq> None \<Longrightarrow> 0 < use_count me s"
  by (simp add: sub_inv_def refs_inv_def use_count_def)

lemma release_nothing: "sub_inv ep reg ts s \<Longrightarrow> sub_release os me s = s"
  using use_count_positive[of ep reg ts s me] by (auto simp: sub_release_def split: option.split)

lemma then_release_runs:
  assumes "sub_inv ep reg ts s" and "sr_heap s me = Some c"
    and "runs (event_faults b) (f (c, s)) (\<lambda>cs'. conn_ok ep reg me cs' \<and> input_ok cs' \<and> conn_others reg mu me (c, s) cs' \<and> Q (fst cs'))"
  shows "runs (sub_faults b) (then_release os me f s) (\<lambda>s'. sub_inv ep reg ts s' \<and> ran mu me s s' \<and>
    (\<exists>c'. sr_heap s' me = Some c' \<and> Q c'))"
  unfolding then_release_def
  by (rule runs_bindI[OF on_conn_runs[where f = f, OF sub_inv_but[OF assms(1)] assms(2,3)]]) (auto simp: release_nothing)

lemma conn_post_parts:
  "conn_post ep reg mu me cs cs' \<Longrightarrow> conn_ok ep reg me cs' \<and> input_ok cs' \<and> conn_others reg mu me cs cs'"
  by (simp add: conn_post_def conn_step_def conn_frame_def)

lemma send_post_parts:
  "send_post ep reg mu me cs cs' \<Longrightarrow> input_ok cs \<Longrightarrow> conn_ok ep reg me cs' \<and> input_ok cs' \<and> conn_others reg mu me cs cs'"
  using send_post_conn_post conn_post_parts by blast

lemma inv_conn: "sub_inv ep reg ts s \<Longrightarrow> sr_heap s me = Some c \<Longrightarrow> conn_ok ep reg me (c, s) \<and> input_ok (c, s)"
  by (simp add: sub_inv_def conns_inv_def)

subsection \<open>The handlers\<close>

lemma sub_channel_runs:
  assumes K: "kernel_ok os ep reg mu" and I: "sub_inv ep reg ts s"
    and c: "sr_heap s me = Some c" and e: "event_ok revents (c, s)"
    and stop: "pl_stop (rc_pool s) \<Longrightarrow> b"
  shows "runs (sub_faults b) (sub_channel os (ConnChan me) revents s) (\<lambda>s'. sub_inv ep reg ts s' \<and> ran mu me s s')"
proof -
  note ok = inv_conn[OF I c]
  have "runs (event_faults b) (conn_event os me revents (c, s))
      (\<lambda>cs'. conn_ok ep reg me cs' \<and> input_ok cs' \<and> conn_others reg mu me (c, s) cs' \<and> True)"
    by (rule runs_mono[OF conn_event_runs[OF K conjunct1[OF ok] conjunct2[OF ok] e]]) (simp add: stop, use conn_post_parts in blast)
  from then_release_runs[where os = os and f = "conn_event os me revents" and Q = "\<lambda>_. True", OF I c this] show ?thesis
    by (auto simp: sub_channel_def elim!: runs_mono)
qed

lemma sub_response_runs:
  assumes K: "kernel_ok os ep reg mu" and I: "sub_inv ep reg ts s" and c: "sr_heap s me = Some c"
  shows "runs (sub_faults b) (then_release os me (response_done os me resp ka) s) (\<lambda>s'. sub_inv ep reg ts s' \<and> ran mu me s s')"
proof -
  note ok = inv_conn[OF I c]
  have "runs conn_faults (response_done os me resp ka (c, s))
      (\<lambda>cs'. conn_ok ep reg me cs' \<and> input_ok cs' \<and> conn_others reg mu me (c, s) cs' \<and> True)"
    by (rule runs_mono[OF response_done_runs[OF K conjunct1[OF ok] conjunct2[OF ok]]]) (use conn_post_parts in blast)
  from then_release_runs[where os = os and f = "response_done os me resp ka" and Q = "\<lambda>_. True", OF I c conn_event_faults[OF this]] show ?thesis
    by (rule runs_mono) simp
qed

text \<open>\<open>handleDead\<close> from a timer: the connection ends dead, without timer.\<close>

definition conn_dead :: "'k registry \<Rightarrow> conn_id \<Rightarrow> ('k, 'z) subr_scheme \<Rightarrow> bool" where
  "conn_dead reg me s \<longleftrightarrow> (\<exists>c. sr_heap s me = Some c \<and> cn_state c = dead \<and> reg (kern s) (so_fd (cn_sck c)) = None) \<and>
     (\<forall>x \<in> set (tq_timers (tq s)). tm_callBack (snd x) \<noteq> me)"

lemma dead_conn:
  assumes "sub_inv ep reg ts s" and "sr_heap s me = Some c" and "cn_state c = dead"
  shows "conn_dead reg me s"
  using inv_conn[OF assms(1,2)] assms(2,3) by (auto simp: conn_dead_def conn_ok_def conn_base_def synced_def)

lemma sub_timer_runs:
  assumes K: "kernel_ok os ep reg mu" and I: "sub_inv ep reg ts s" and c: "sr_heap s me = Some c"
  shows "runs (sub_faults b) (sub_timer os me s) (\<lambda>s'. sub_inv ep reg ts s' \<and> ran mu me s s' \<and> conn_dead reg me s')"
proof -
  note ok = inv_conn[OF I c]
  have "runs conn_faults (Some (handleDead os me (c, s)))
      (\<lambda>cs'. conn_ok ep reg me cs' \<and> input_ok cs' \<and> conn_others reg mu me (c, s) cs' \<and> cn_state (fst cs') = dead)"
    by (rule runs_mono[OF runs_conj[OF handleDead_runs[OF K conjunct1[OF ok]] handleDead_send[OF K conjunct1[OF ok]]]])
      (use send_post_parts ok in blast)
  from then_release_runs[where os = os and f = "\<lambda>cs. Some (handleDead os me cs)" and Q = "\<lambda>c. cn_state c = dead", OF I c conn_event_faults[OF this]] show ?thesis
    unfolding sub_timer_def by (rule runs_mono) (auto intro: dead_conn)
qed

subsection \<open>Changes outside the connections\<close>

lemma sub_inv_transfer:
  assumes I: "sub_inv ep reg ts s"
    and same: "epfd s' = epfd s" "tq s' = tq s" "lp_fd s' = lp_fd s" "lp_chan s' = lp_chan s" "sr_heap s' = sr_heap s"
      "sr_selfptr s' = sr_selfptr s" "reg (kern s') = reg (kern s)"
    and conns: "set (sr_conns s') \<subseteq> set (sr_conns s)"
    and jobs: "\<And>j. j \<in> set (pl_tasks (rc_pool s')) \<Longrightarrow> sr_heap s (fst j) \<noteq> None"
    and tasks: "\<And>t me. t \<in> set (ts' @ lp_tasks s') \<Longrightarrow> task_holds me t \<Longrightarrow> sr_heap s me \<noteq> None"
    and new: "new_inv ts' s'"
  shows "sub_inv ep reg ts' s'"
proof -
  note I' = I[unfolded sub_inv_def]
  have fds: "fd_of s' = fd_of s"
    by (simp add: fd_of_def same fun_eq_iff)
  have sync: "synced reg p c (kern s') \<longleftrightarrow> synced reg p c (kern s)" for p c
    by (simp add: synced_def same)
  have "loop_inv ep reg s'"
    using I' by (simp add: loop_inv_def same sync)
  moreover have "fds_inv reg s'"
    using I' by (simp add: fds_inv_def same fds)
  moreover have "conn_ok ep reg me (c, s') \<longleftrightarrow> conn_ok ep reg me (c, s)" for me c
    by (simp add: conn_ok_def conn_base_def same sync)
  then have "conns_inv ep reg s'"
    using I' input_ok_cong[of _ s' s] by (simp add: conns_inv_def same)
  moreover have "refs_inv ts' s'"
    using I' jobs tasks conns unfolding refs_inv_def same by blast
  ultimately show ?thesis
    using new by (simp add: sub_inv_def)
qed

lemma inv_tasks: "sub_inv ep reg ts s \<Longrightarrow> t \<in> set (ts @ lp_tasks s) \<Longrightarrow> task_holds me t \<Longrightarrow> sr_heap s me \<noteq> None"
  unfolding sub_inv_def refs_inv_def by blast

lemma inv_jobs: "sub_inv ep reg ts s \<Longrightarrow> j \<in> set (pl_tasks (rc_pool s)) \<Longrightarrow> sr_heap s (fst j) \<noteq> None"
  unfolding sub_inv_def refs_inv_def by blast

lemma inv_new: "sub_inv ep reg ts s \<Longrightarrow> new_inv ts s"
  by (simp add: sub_inv_def)

lemma sub_inv_kern:
  assumes "sub_inv ep reg ts s" and "reg k = reg (kern s)"
  shows "sub_inv ep reg ts (s\<lparr>kern := k\<rparr>)"
  by (rule sub_inv_transfer[OF assms(1)])
    (use assms inv_tasks[OF assms(1)] inv_jobs[OF assms(1)] inv_new[OF assms(1)] in \<open>auto simp: new_inv_def fd_of_def\<close>)

lemma sub_inv_signal: "sub_inv ep reg ts s \<Longrightarrow> sub_inv ep reg ts (s\<lparr>lp_signal := b\<rparr>)"
  by (rule sub_inv_transfer[of ep reg ts s])
    (use inv_tasks[of ep reg ts s] inv_jobs[of ep reg ts s] inv_new[of ep reg ts s] in \<open>auto simp: new_inv_def fd_of_def\<close>)

lemma sub_inv_conns:
  assumes "sub_inv ep reg ts s" and "set xs \<subseteq> set (sr_conns s)"
  shows "sub_inv ep reg ts (s\<lparr>sr_conns := xs\<rparr>)"
  by (rule sub_inv_transfer[OF assms(1)])
    (use assms inv_tasks[OF assms(1)] inv_jobs[OF assms(1)] inv_new[OF assms(1)] in \<open>auto simp: new_inv_def fd_of_def\<close>)

text \<open>A task can leave the front of the turn, unless it brings a connection.\<close>

lemma sub_inv_drop:
  assumes "sub_inv ep reg (t # ts) s"
  shows "sub_inv ep reg ts s"
  by (rule sub_inv_transfer[OF assms])
    (use inv_tasks[OF assms] inv_jobs[OF assms] inv_new[OF assms] in \<open>cases t; auto simp: new_inv_def Let_def\<close>)+

lemma swap_inv: "sub_inv ep reg [] s \<Longrightarrow> sub_inv ep reg (lp_tasks s) (s\<lparr>lp_tasks := []\<rparr>)"
  by (rule sub_inv_transfer[of ep reg "[]" s])
    (use inv_tasks[of ep reg "[]" s] inv_jobs[of ep reg "[]" s] inv_new[of ep reg "[]" s] in \<open>auto simp: new_inv_def fd_of_def\<close>)

subsection \<open>The loop's own channels\<close>

lemma eloop_channel_runs:
  assumes K: "kernel_ok os ep reg mu" and I: "sub_inv ep reg ts s" and e: "revents AND EPOLLOUT = 0"
  shows "runs (sub_faults b) (handle_channel os ow (EloopChan, revents) s) (\<lambda>s'. sub_inv ep reg ts s' \<and> sr_heap s' = sr_heap s \<and>
    keeps mu s s')"
  by (rule runs_mono[OF loop_sub_faults[OF eloop_event[OF K e]]])
    (use sub_inv_signal[OF sub_inv_kern[OF I]] in \<open>auto simp: keeps_def\<close>)

text \<open>
  When the timer with id \<open>i\<close> fires, the callback closes its connection and thereby erases this very
  timer; no other timer goes, so the next id is still there when its turn comes.
\<close>

lemma timer_fires:
  assumes K: "kernel_ok os ep reg mu" and I: "sub_inv ep reg ts s"
    and i: "map_of (tq_timers (tq s)) i = Some tm"
  shows "runs (sub_faults b) (sub_timer os (tm_callBack tm) s) (\<lambda>s'. sub_inv ep reg ts s' \<and> ran mu (tm_callBack tm) s s' \<and>
    conn_dead reg (tm_callBack tm) s' \<and> tq_timers (tq s') = map_erase i (tq_timers (tq s)) \<and>
    s'\<lparr>tq := (tq s')\<lparr>tq_timers := map_erase i (tq_timers (tq s'))\<rparr>\<rparr> = s')"
proof -
  let ?me = "tm_callBack tm"
  have x: "(i, tm) \<in> set (tq_timers (tq s))"
    using i by (rule map_of_SomeD)
  then obtain c where c: "sr_heap s ?me = Some c"
    using I by (fastforce simp: sub_inv_def refs_inv_def)
  have "\<forall>y \<in> set (tq_timers (tq s)). tm_callBack (snd y) = ?me \<longleftrightarrow> fst y = cn_timerId c"
    using inv_conn[OF I c] by (simp add: conn_ok_def conn_base_def)
  with x have mine: "tm_callBack (snd y) = ?me \<longleftrightarrow> fst y = i" if "y \<in> set (tq_timers (tq s))" for y
    using that by (metis fst_conv snd_conv)
  have erased: "tq_timers (tq s') = map_erase i (tq_timers (tq s))" "map_erase i (tq_timers (tq s')) = tq_timers (tq s')"
    if "ran mu ?me s s'" "conn_dead reg ?me s'" for s'
  proof -
    have "tq_timers (tq s') = filter (\<lambda>x. tm_callBack (snd x) \<noteq> ?me) (tq_timers (tq s'))"
      using that(2) by (simp add: conn_dead_def)
    also have "\<dots> = filter (\<lambda>x. tm_callBack (snd x) \<noteq> ?me) (tq_timers (tq s))"
      using that(1) by (simp add: ran_def)
    also have "\<dots> = map_erase i (tq_timers (tq s))"
      unfolding map_erase_def using mine by (intro filter_cong) auto
    finally show e: "tq_timers (tq s') = map_erase i (tq_timers (tq s))" .
    then show "map_erase i (tq_timers (tq s')) = tq_timers (tq s')"
      by (simp add: map_erase_def)
  qed
  show ?thesis
  proof (rule runs_mono[OF sub_timer_runs[OF K I c]], elim conjE, intro conjI)
    fix s'
    assume 1: "ran mu ?me s s'" "conn_dead reg ?me s'"
    show "tq_timers (tq s') = map_erase i (tq_timers (tq s))"
      by (rule erased(1)[OF 1])
    show "s'\<lparr>tq := (tq s')\<lparr>tq_timers := map_erase i (tq_timers (tq s'))\<rparr>\<rparr> = s'"
      unfolding erased(2)[OF 1] by simp
  qed
qed

definition is_dead :: "conn_id \<Rightarrow> ('k, 'z) subr_scheme \<Rightarrow> bool" where
  "is_dead me s \<longleftrightarrow> (\<exists>c. sr_heap s me = Some c \<and> cn_state c = dead)"

lemma ran_keeps: "ran mu me s s' \<Longrightarrow> keeps mu s s'"
  by (simp add: ran_def)

lemma fire_runs:
  assumes K: "kernel_ok os ep reg mu"
  shows "sub_inv ep reg ts s \<Longrightarrow> distinct is \<Longrightarrow> \<forall>i \<in> set is. map_of (tq_timers (tq s)) i \<noteq> None \<Longrightarrow>
    runs (sub_faults b) (fire_timers (sub_timer os) is s) (\<lambda>s'. sub_inv ep reg ts s' \<and>
      tq_timers (tq s') = filter (\<lambda>x. fst x \<notin> set is) (tq_timers (tq s)) \<and> lp_stop s' = lp_stop s \<and>
      keeps mu s s' \<and>
      (\<forall>me. is_dead me s \<longrightarrow> is_dead me s') \<and>
      (\<forall>i \<in> set is. is_dead (tm_callBack (the (map_of (tq_timers (tq s)) i))) s') \<and>
      (\<forall>me. (\<forall>i \<in> set is. tm_callBack (the (map_of (tq_timers (tq s)) i)) \<noteq> me) \<longrightarrow> sr_heap s' me = sr_heap s me))"
proof (induction "is" arbitrary: s)
  case (Cons i "is")
  obtain tm where tm: "map_of (tq_timers (tq s)) i = Some tm"
    using Cons.prems(3) by auto
  let ?me = "tm_callBack tm"
  let ?P = "\<lambda>s s' is. sub_inv ep reg ts s' \<and>
      tq_timers (tq s') = filter (\<lambda>x. fst x \<notin> set is) (tq_timers (tq s)) \<and> lp_stop s' = lp_stop s \<and>
      keeps mu s s' \<and>
      (\<forall>me. is_dead me s \<longrightarrow> is_dead me s') \<and>
      (\<forall>i \<in> set is. is_dead (tm_callBack (the (map_of (tq_timers (tq s)) i))) s') \<and>
      (\<forall>me. (\<forall>i \<in> set is. tm_callBack (the (map_of (tq_timers (tq s)) i)) \<noteq> me) \<longrightarrow> sr_heap s' me = sr_heap s me)"
  have "runs (sub_faults b) (rbind (sub_timer os ?me s) (\<lambda>s1.
      fire_timers (sub_timer os) is (s1\<lparr>tq := (tq s1)\<lparr>tq_timers := map_erase i (tq_timers (tq s1))\<rparr>\<rparr>))) (\<lambda>s'. ?P s s' (i # is))"
  proof (rule runs_bindI[OF timer_fires[OF K Cons.prems(1) tm]], elim conjE)
    fix s1
    assume inv: "sub_inv ep reg ts s1" and ran: "ran mu ?me s s1" and dead: "conn_dead reg ?me s1"
      and tms: "tq_timers (tq s1) = map_erase i (tq_timers (tq s))"
      and noop: "s1\<lparr>tq := (tq s1)\<lparr>tq_timers := map_erase i (tq_timers (tq s1))\<rparr>\<rparr> = s1"
    have other: "map_of (tq_timers (tq s1)) j = map_of (tq_timers (tq s)) j" if "j \<in> set is" for j
      using that Cons.prems(2) by (auto simp: tms map_erase_def map_of_filter_neq)
    have "runs (sub_faults b) (fire_timers (sub_timer os) is s1) (\<lambda>s'. ?P s1 s' is)"
      by (rule Cons.IH[OF inv]) (use Cons.prems other in auto)
    then have "runs (sub_faults b) (fire_timers (sub_timer os) is s1) (\<lambda>s'. ?P s s' (i # is))"
    proof (rule runs_mono, elim conjE, intro conjI)
      fix s'
      assume 1: "\<forall>me. is_dead me s1 \<longrightarrow> is_dead me s'" "tq_timers (tq s') = filter (\<lambda>x. fst x \<notin> set is) (tq_timers (tq s1))"
        "\<forall>i \<in> set is. is_dead (tm_callBack (the (map_of (tq_timers (tq s1)) i))) s'" "lp_stop s' = lp_stop s1" "keeps mu s1 s'"
        "\<forall>me. (\<forall>i \<in> set is. tm_callBack (the (map_of (tq_timers (tq s1)) i)) \<noteq> me) \<longrightarrow> sr_heap s' me = sr_heap s1 me"
      have me: "is_dead ?me s1"
        using dead by (auto simp: conn_dead_def is_dead_def)
      show "tq_timers (tq s') = filter (\<lambda>x. fst x \<notin> set (i # is)) (tq_timers (tq s))"
        by (simp add: 1(2) tms map_erase_def conj_commute)
      show "\<forall>me. is_dead me s \<longrightarrow> is_dead me s'"
        using me 1(1) ran by (metis is_dead_def ran_def)
      show "\<forall>i \<in> set (i # is). is_dead (tm_callBack (the (map_of (tq_timers (tq s)) i))) s'"
        using me 1(1,3) other tm by simp
      show "\<forall>me. (\<forall>i \<in> set (i # is). tm_callBack (the (map_of (tq_timers (tq s)) i)) \<noteq> me) \<longrightarrow> sr_heap s' me = sr_heap s me"
        using 1(6) other tm ran by (simp add: ran_def)
      show "lp_stop s' = lp_stop s"
        using 1(4) ran by (simp add: ran_def)
      show "keeps mu s s'"
        by (rule keeps_trans[OF ran_keeps[OF ran] 1(5)])
    qed
    then show "runs (sub_faults b) (fire_timers (sub_timer os) is
        (s1\<lparr>tq := (tq s1)\<lparr>tq_timers := map_erase i (tq_timers (tq s1))\<rparr>\<rparr>)) (\<lambda>s'. ?P s s' (i # is))"
      unfolding noop .
  qed
  then show ?case
    by (simp add: tm)
qed simp

lemma dying_ids:
  assumes "sub_inv ep reg ts s"
  shows "distinct (dyingTimers t (tq_timers (tq s)))"
    "i \<in> set (dyingTimers t (tq_timers (tq s))) \<Longrightarrow> map_of (tq_timers (tq s)) i \<noteq> None"
proof -
  have "distinct (map fst (tq_timers (tq s)))"
    using assms by (simp add: sub_inv_def loop_inv_def timers_wf_def map_wf_def strict_sorted_iff)
  then show "distinct (dyingTimers t (tq_timers (tq s)))"
    unfolding dyingTimers_def takeWhile_map[symmetric] by (metis distinct_map distinct_takeWhile inj_on_subset set_takeWhileD subsetI)
  show "i \<in> set (dyingTimers t (tq_timers (tq s))) \<Longrightarrow> map_of (tq_timers (tq s)) i \<noteq> None"
    unfolding map_of_eq_None_iff dyingTimers_def by (auto dest: set_takeWhileD)
qed

lemma handleRead_runs:
  assumes K: "kernel_ok os ep reg mu" and I: "sub_inv ep reg ts s"
  shows "runs (sub_faults b) (timerq_handleRead os (sub_timer os) s) (\<lambda>s'. sub_inv ep reg ts s' \<and> lp_stop s' = lp_stop s \<and> keeps mu s s' \<and>
    (\<forall>me. is_dead me s \<longrightarrow> is_dead me s'))"
  unfolding timerq_handleRead_def
proof (rule runs_bindI[OF loop_sub_faults[OF drain_runs[OF K]]], clarify)
  fix go k
  assume k: "reg k = reg (kern s)" and mk: "mu k \<le> mu (kern s)"
  have "runs (sub_faults b) (rbind (Some (now os k)) (\<lambda>(t, k1).
      rbind (fire_timers (sub_timer os) (dyingTimers t (tq_timers (tq s))) (s\<lparr>kern := k1\<rparr>)) (\<lambda>s'.
      rbind (Some (refreshClock os (tq s') (kern s'))) (\<lambda>k2. ret (s'\<lparr>kern := k2\<rparr>)))))
      (\<lambda>s'. sub_inv ep reg ts s' \<and> lp_stop s' = lp_stop s \<and> keeps mu s s' \<and> (\<forall>me. is_dead me s \<longrightarrow> is_dead me s'))"
  proof (rule runs_bindI[OF loop_sub_faults[OF now_runs[OF K]]], clarify)
    fix t k1
    assume k1: "reg k1 = reg k" "mu k1 \<le> mu k"
    then have I1: "sub_inv ep reg ts (s\<lparr>kern := k1\<rparr>)"
      using sub_inv_kern[OF I] k by simp
    note ids = dying_ids[OF I, where t = t]
    show "runs (sub_faults b) (rbind (fire_timers (sub_timer os) (dyingTimers t (tq_timers (tq s))) (s\<lparr>kern := k1\<rparr>)) (\<lambda>s'.
        rbind (Some (refreshClock os (tq s') (kern s'))) (\<lambda>k2. ret (s'\<lparr>kern := k2\<rparr>))))
        (\<lambda>s'. sub_inv ep reg ts s' \<and> lp_stop s' = lp_stop s \<and> keeps mu s s' \<and> (\<forall>me. is_dead me s \<longrightarrow> is_dead me s'))"
    proof (rule runs_bindI[OF fire_runs[OF K I1 ids(1)]], use ids(2) in simp, elim conjE)
      fix s'
      assume s': "sub_inv ep reg ts s'" "lp_stop s' = lp_stop (s\<lparr>kern := k1\<rparr>)"
        "keeps mu (s\<lparr>kern := k1\<rparr>) s'"
        "\<forall>me. is_dead me (s\<lparr>kern := k1\<rparr>) \<longrightarrow> is_dead me s'"
      have kept: "keeps mu s s'"
        using keeps_trans[OF keeps_kern s'(3)] k1(2) mk by simp
      show "runs (sub_faults b) (rbind (Some (refreshClock os (tq s') (kern s'))) (\<lambda>k2. ret (s'\<lparr>kern := k2\<rparr>)))
          (\<lambda>s'. sub_inv ep reg ts s' \<and> lp_stop s' = lp_stop s \<and> keeps mu s s' \<and> (\<forall>me. is_dead me s \<longrightarrow> is_dead me s'))"
        by (rule runs_bindI[OF refreshClock_runs[OF K]]) (use s' sub_inv_kern[OF s'(1)] keeps_kern2[OF kept] in \<open>simp_all add: is_dead_def\<close>)
    qed
  qed
  then show "runs (sub_faults b) (if \<not> go then ret (s\<lparr>kern := k\<rparr>) else
      rbind (Some (now os k)) (\<lambda>(t, k1).
      rbind (fire_timers (sub_timer os) (dyingTimers t (tq_timers (tq s))) (s\<lparr>kern := k1\<rparr>)) (\<lambda>s'.
      rbind (Some (refreshClock os (tq s') (kern s'))) (\<lambda>k2. ret (s'\<lparr>kern := k2\<rparr>)))))
      (\<lambda>s'. sub_inv ep reg ts s' \<and> lp_stop s' = lp_stop s \<and> keeps mu s s' \<and> (\<forall>me. is_dead me s \<longrightarrow> is_dead me s'))"
    using sub_inv_kern[OF I k] keeps_kern[of mu k s, OF mk] by (simp add: is_dead_def)
qed

lemma time_channel_runs:
  assumes K: "kernel_ok os ep reg mu" and I: "sub_inv ep reg ts s" and e: "revents AND EPOLLOUT = 0"
  shows "runs (sub_faults b) (handle_channel os (sub_owner os it) (TimeChan, revents) s) (\<lambda>s'. sub_inv ep reg ts s' \<and>
    lp_stop s' = lp_stop s \<and> keeps mu s s' \<and> (\<forall>me. is_dead me s \<longrightarrow> is_dead me s'))"
  using handleRead_runs[OF K I] I e
  by (auto simp: handle_channel_def channel_handle_def sub_owner_def intro!: runs_bind elim!: runs_mono)

subsection \<open>The tasks\<close>

lemma removeConnection_inv:
  assumes "sub_inv ep reg ts s"
  shows "sub_inv ep reg ts (sub_removeConnection os me s)" "sr_heap (sub_removeConnection os me s) = sr_heap s"
    "lp_stop (sub_removeConnection os me s) = lp_stop s" "new_conns ts' = new_conns ts \<Longrightarrow> moved mu ts' s ts (sub_removeConnection os me s)"
    "rung s (sub_removeConnection os me s)" "set (sr_conns (sub_removeConnection os me s)) = set (sr_conns s) - {me}"
proof -
  have "sub_inv ep reg ts (s\<lparr>sr_conns := filter (\<lambda>i. i \<noteq> me) (sr_conns s)\<rparr>)"
    by (rule sub_inv_conns[OF assms]) auto
  then show "sub_inv ep reg ts (sub_removeConnection os me s)" "sr_heap (sub_removeConnection os me s) = sr_heap s"
      "lp_stop (sub_removeConnection os me s) = lp_stop s" "new_conns ts' = new_conns ts \<Longrightarrow> moved mu ts' s ts (sub_removeConnection os me s)"
      "rung s (sub_removeConnection os me s)" "set (sr_conns (sub_removeConnection os me s)) = set (sr_conns s) - {me}"
    by (auto simp: sub_removeConnection_def release_nothing moved_def sockets_def)
qed

text \<open>A task that brings an accepted socket: its object is set up between two consistent states.\<close>

definition with_new :: "conn_id \<Rightarrow> socket \<Rightarrow> ('k, 'z) subr_scheme \<Rightarrow> ('k, 'z) subr_scheme" where
  "with_new me sock s =
     s\<lparr>sr_heap := (sr_heap s)(me \<mapsto> Connection_new sock (sr_useThreadPool s)),
       sr_selfptr := me # sr_selfptr s,
       sr_conns := (if me \<in> set (sr_conns s) then sr_conns s else sr_conns s @ [me])\<rparr>"

lemma with_new_but:
  assumes I: "sub_inv ep reg (TAddConnection me sock # ts) s"
  shows "sub_inv_but ep reg me ts (with_new me sock s)" "reg (kern s) (so_fd sock) = None"
    "\<forall>x \<in> set (tq_timers (tq s)). tm_callBack (snd x) \<noteq> me"
proof -
  let ?s = "with_new me sock s"
  note I' = I[unfolded sub_inv_def]
  have fresh: "sr_heap s me = None" "so_fd sock \<noteq> lp_fd s" "so_fd sock \<noteq> tq_timeFd (tq s)"
    and free: "\<And>i. \<not> fd_of s i (so_fd sock)"
    using I' by (simp_all add: new_inv_def Let_def)
  have fds: "fd_of ?s i fd \<longleftrightarrow> (if i = me then fd = so_fd sock else fd_of s i fd)" for i fd
    by (auto simp: fd_of_def with_new_def Connection_new_def)
  have none: "\<not> fd_of s me fd" for fd
    using fresh by (simp add: fd_of_def)
  have f: "fds_inv reg s"
    using I' by simp
  have same: "lp_fd ?s = lp_fd s" "tq ?s = tq s" "kern ?s = kern s"
    by (simp_all add: with_new_def)
  have "fds_inv reg ?s"
    unfolding fds_inv_def same
  proof (intro conjI allI impI; (elim conjE)?)
    show "fd \<noteq> lp_fd s" "fd \<noteq> tq_timeFd (tq s)" if "fd_of ?s i fd" for i fd
      using that f fresh unfolding fds fds_inv_def by (metis+)
    show "i = j" if "fd_of ?s i fd" "fd_of ?s j fd" for i j fd
      using that f free unfolding fds fds_inv_def by metis
    show "fd = lp_fd s \<or> fd = tq_timeFd (tq s) \<or> (\<exists>i. fd_of ?s i fd)" if "reg (kern s) fd \<noteq> None" for fd
      using that f none unfolding fds fds_inv_def by metis
  qed
  moreover have "loop_inv ep reg ?s"
    using I' by (simp add: loop_inv_def with_new_def)
  moreover have "refs_inv ts ?s"
    using I' by (auto simp: refs_inv_def with_new_def)
  moreover have "new_inv ts ?s"
    using I' unfolding new_inv_def fds by (auto simp: with_new_def Let_def image_iff)
  moreover have "conn_ok ep reg i (d, ?s) \<and> input_ok (d, ?s)" if "i \<noteq> me" "sr_heap ?s i = Some d" for i d
    using inv_conn[OF I, of i d] that conn_ok_cong[of ?s s ep reg i d] input_ok_cong[of d ?s s] by (simp add: with_new_def)
  ultimately show "sub_inv_but ep reg me ts ?s"
    by (simp add: sub_inv_but_def)
  show "reg (kern s) (so_fd sock) = None"
    using f fresh free unfolding fds_inv_def by blast
  show "\<forall>x \<in> set (tq_timers (tq s)). tm_callBack (snd x) \<noteq> me"
    using I' fresh(1) unfolding refs_inv_def by metis
qed

lemma addConnection_runs:
  assumes K: "kernel_ok os ep reg mu" and I: "sub_inv ep reg (TAddConnection me sock # ts) s"
  shows "runs (sub_faults b) (sub_addConnection os me sock s) (\<lambda>s'. sub_inv ep reg ts s' \<and> ran mu me (with_new me sock s) s' \<and>
    (\<exists>c. sr_heap s' me = Some c \<and> cn_state c \<noteq> dead))"
proof -
  let ?s = "with_new me sock s"
  note new = with_new_but[OF I]
  have "runs conn_faults (Some (startConnect os me (Connection_new sock (sr_useThreadPool s), ?s)))
      (\<lambda>cs'. conn_ok ep reg me cs' \<and> input_ok cs' \<and> conn_others reg mu me (Connection_new sock (sr_useThreadPool s), ?s) cs' \<and>
        cn_state (fst cs') \<noteq> dead)"
    by (rule runs_mono[OF startConnect_runs[OF K]])
      (use I new in \<open>auto simp: with_new_def sub_inv_def loop_inv_def\<close>)
  from on_conn_runs[where f = "\<lambda>cs. Some (startConnect os me cs)" and Q = "\<lambda>c. cn_state c \<noteq> dead", OF new(1) _ conn_event_faults[OF this]]
  show ?thesis
    by (simp add: sub_addConnection_def with_new_def)
qed

lemma stop_one_runs:
  assumes K: "kernel_ok os ep reg mu" and I: "sub_inv ep reg ts s" and c: "sr_heap s me = Some c"
  shows "runs (sub_faults b) (on_conn me (\<lambda>cs. Some (conn_stop os me cs)) s) (\<lambda>s'. sub_inv ep reg ts s' \<and> ran mu me s s' \<and> is_dead me s')"
proof -
  note ok = inv_conn[OF I c]
  have "runs conn_faults (Some (conn_stop os me (c, s)))
      (\<lambda>cs'. conn_ok ep reg me cs' \<and> input_ok cs' \<and> conn_others reg mu me (c, s) cs' \<and> cn_state (fst cs') = dead)"
    by (rule runs_mono[OF conn_stop_runs[OF K conjunct1[OF ok]]]) (use send_post_parts ok in blast)
  from on_conn_runs[where f = "\<lambda>cs. Some (conn_stop os me cs)" and Q = "\<lambda>c. cn_state c = dead",
      OF sub_inv_but[OF I] c conn_event_faults[OF this]]
  show ?thesis
    by (rule runs_mono) (auto simp: is_dead_def)
qed

lemma ran_dead: "ran mu me s s' \<Longrightarrow> is_dead me s' \<Longrightarrow> is_dead i s \<Longrightarrow> is_dead i s'"
  by (cases "i = me") (auto simp: ran_def is_dead_def)

lemma ran_dom: "ran mu me s s' \<Longrightarrow> sr_heap s i \<noteq> None \<Longrightarrow> sr_heap s' i \<noteq> None"
  by (cases "i = me") (auto simp: ran_def)

lemma ran_rung: "ran mu me s s' \<Longrightarrow> rung s s'"
  by (simp add: ran_def)

lemma ran_stop: "ran mu me s s' \<Longrightarrow> lp_stop s' = lp_stop s"
  by (simp add: ran_def)

lemma stop_all_runs:
  assumes K: "kernel_ok os ep reg mu"
  shows "sub_inv ep reg ts s \<Longrightarrow> \<forall>me \<in> set xs. sr_heap s me \<noteq> None \<Longrightarrow>
    runs (sub_faults b) (run_all (\<lambda>me. on_conn me (\<lambda>cs. Some (conn_stop os me cs))) xs s) (\<lambda>s'. sub_inv ep reg ts s' \<and>
      (\<forall>me \<in> set xs. is_dead me s') \<and> (\<forall>i. is_dead i s \<longrightarrow> is_dead i s') \<and> keeps mu s s')"
proof (induction xs arbitrary: s)
  case (Cons me xs)
  obtain c where c: "sr_heap s me = Some c"
    using Cons.prems(2) by auto
  show ?case
    unfolding run_all.simps
  proof (rule runs_bindI[OF stop_one_runs[OF K Cons.prems(1) c]], elim conjE)
    fix s1
    assume 1: "sub_inv ep reg ts s1" "ran mu me s s1" "is_dead me s1"
    have "\<forall>me \<in> set xs. sr_heap s1 me \<noteq> None"
      using Cons.prems(2) ran_dom[OF 1(2)] by simp
    from Cons.IH[OF 1(1) this]
    show "runs (sub_faults b) (run_all (\<lambda>me. on_conn me (\<lambda>cs. Some (conn_stop os me cs))) xs s1) (\<lambda>s'. sub_inv ep reg ts s' \<and>
      (\<forall>me \<in> set (me # xs). is_dead me s') \<and> (\<forall>i. is_dead i s \<longrightarrow> is_dead i s') \<and> keeps mu s s')"
      by (rule runs_mono) (use 1 ran_dead[OF 1(2,3)] keeps_trans[OF ran_keeps[OF 1(2)]] in simp)
  qed
qed simp

lemma stopLoop_runs:
  assumes K: "kernel_ok os ep reg mu" and I: "sub_inv ep reg ts s"
  shows "runs F (Some (stopLoop os s)) (\<lambda>s'. sub_inv ep reg ts s' \<and> lp_stop s' \<and> sr_heap s' = sr_heap s \<and> keeps mu s s')"
proof -
  note I' = I[unfolded sub_inv_def]
  have li: "loop_inv ep reg s"
    using I' by simp
  obtain ch k where run: "stopLoop os s = Inr (s\<lparr>tq := (tq s)\<lparr>tq_chan := ch\<rparr>, kern := k, lp_stop := True\<rparr>)" (is "_ = Inr ?s")
    and linv: "loop_inv ep reg (s\<lparr>tq := (tq s)\<lparr>tq_chan := ch\<rparr>, kern := k, lp_stop := True\<rparr>)"
    and other: "\<And>fd. fd \<noteq> tq_timeFd (tq s) \<Longrightarrow> reg k fd = reg (kern s) fd"
    and less: "mu k \<le> mu (kern s)"
    using stopLoop_effect[OF K li] by blast
  have fds: "fd_of ?s = fd_of s"
    by (simp add: fd_of_def fun_eq_iff)
  have fi: "fds_inv reg s"
    using I' by simp
  have "fds_inv reg ?s"
  proof -
    have "reg (kern s) fd \<noteq> None \<or> fd = tq_timeFd (tq s)" if "reg k fd \<noteq> None" for fd
      using that other by metis
    then show ?thesis
      using fi unfolding fds_inv_def fds by simp blast
  qed
  moreover have "conn_ok ep reg i (d, ?s) \<and> input_ok (d, ?s)" if d: "sr_heap s i = Some d" for i d
  proof -
    have "so_fd (cn_sck d) \<noteq> tq_timeFd (tq s)"
      using fi d unfolding fds_inv_def fd_of_def by metis
    then have "reg k (so_fd (cn_sck d)) = reg (kern s) (so_fd (cn_sck d))"
      by (rule other)
    moreover have "ch_fd (cn_channel d) = so_fd (cn_sck d)"
      using inv_conn[OF I d] by (simp add: conn_ok_def conn_base_def)
    ultimately have "synced reg (ConnChan i) (cn_channel d) k \<longleftrightarrow> synced reg (ConnChan i) (cn_channel d) (kern s)"
      by (intro synced_cong) simp
    then have "conn_ok ep reg i (d, ?s) \<longleftrightarrow> conn_ok ep reg i (d, s)"
      by (simp add: conn_ok_def conn_base_def timers_wf_def)
    then show ?thesis
      using inv_conn[OF I d] input_ok_cong[of d ?s s] by simp
  qed
  then have "conns_inv ep reg ?s"
    by (simp add: conns_inv_def)
  moreover have "refs_inv ts ?s"
    using I' by (simp add: refs_inv_def)
  moreover have "new_inv ts ?s"
    using I' unfolding new_inv_def fds by simp
  ultimately show ?thesis
    using linv less by (simp add: run sub_inv_def keeps_def)
qed

lemma sub_stop_runs:
  assumes K: "kernel_ok os ep reg mu" and I: "sub_inv ep reg ts s" and it: "set (it (sr_conns s)) = set (sr_conns s)"
  shows "runs (sub_faults b) (sub_stop os it s) (\<lambda>s'. sub_inv ep reg ts s' \<and> lp_stop s' \<and> (\<forall>me \<in> set (sr_conns s). is_dead me s') \<and>
    (\<forall>i. is_dead i s \<longrightarrow> is_dead i s') \<and> keeps mu s s')"
  unfolding sub_stop_def
proof (rule runs_bindI[OF stop_all_runs[OF K I]])
  show "\<forall>me \<in> set (it (sr_conns s)). sr_heap s me \<noteq> None"
    using I it unfolding sub_inv_def refs_inv_def by blast
next
  fix s1
  assume 1: "sub_inv ep reg ts s1 \<and> (\<forall>me \<in> set (it (sr_conns s)). is_dead me s1) \<and>
    (\<forall>i. is_dead i s \<longrightarrow> is_dead i s1) \<and> keeps mu s s1"
  show "runs (sub_faults b) (Some (stopLoop os s1)) (\<lambda>s'. sub_inv ep reg ts s' \<and> lp_stop s' \<and> (\<forall>me \<in> set (sr_conns s). is_dead me s') \<and>
    (\<forall>i. is_dead i s \<longrightarrow> is_dead i s') \<and> keeps mu s s')"
    by (rule runs_mono[OF stopLoop_runs[OF K conjunct1[OF 1]]]) (use 1 it keeps_trans in \<open>auto simp: is_dead_def\<close>)
qed

subsection \<open>The laws of \<open>loop_client\<close>\<close>

definition it_ok :: "(conn_id list \<Rightarrow> conn_id list) \<Rightarrow> bool" where
  "it_ok it \<longleftrightarrow> (\<forall>xs. set (it xs) = set xs)"

text \<open>What a task does to the table, and that stopping closes every connection in it.\<close>

definition task_effect :: "sub_task \<Rightarrow> ('k, 'z) subr_scheme \<Rightarrow> ('k, 'z) subr_scheme \<Rightarrow> bool" where
  "task_effect t s s' \<longleftrightarrow>
     (case t of
        TAddConnection me sock \<Rightarrow> set (sr_conns s') = insert me (set (sr_conns s))
      | TRemoveConnection me \<Rightarrow> set (sr_conns s') = set (sr_conns s) - {me} \<and> sr_heap s' = sr_heap s
      | TSendResponse me resp ka \<Rightarrow> sr_conns s' = sr_conns s
      | TStop \<Rightarrow> sr_conns s' = sr_conns s \<and> (\<forall>me \<in> set (sr_conns s). is_dead me s'))"

lemma ran_conns: "ran mu me s s' \<Longrightarrow> sr_conns s' = sr_conns s"
  by (rule keeps_conns[OF ran_keeps])

lemma task_runs:
  assumes K: "kernel_ok os ep reg mu" and it: "it_ok it" and I: "sub_inv ep reg (t # ts) s"
  shows "runs (sub_faults b) (ow_task (sub_owner os it) t s) (\<lambda>s'. sub_inv ep reg ts s' \<and>
    (\<forall>i. sr_heap s i \<noteq> None \<longrightarrow> sr_heap s' i \<noteq> None) \<and> (if t = TStop then lp_stop s' else rung s s') \<and> (lp_stop s \<longrightarrow> lp_stop s') \<and>
    moved mu (t # ts) s ts s' \<and> task_effect t s s')"
proof -
  have task: "ow_task (sub_owner os it) = sub_task_run os it"
    by (simp add: sub_owner_def)
  note I1 = sub_inv_drop[OF I]
  show ?thesis
  proof (cases t)
    case (TAddConnection me sock)
    have post: "(\<forall>i. sr_heap s i \<noteq> None \<longrightarrow> sr_heap s' i \<noteq> None) \<and> lp_stop s' = lp_stop s \<and> rung s s' \<and> moved mu (t # ts) s ts s' \<and> task_effect t s s'"
      if r: "ran mu me (with_new me sock s) s'" for s'
    proof -
      have "moved mu (t # ts) s ts (with_new me sock s)"
        using I by (auto simp: moved_def sockets_def with_new_def TAddConnection sub_inv_def new_inv_def Let_def Connection_new_def split: if_splits)
      moreover have "moved mu ts (with_new me sock s) ts s'"
        using keeps_moved[OF ran_keeps[OF r]] by simp
      ultimately have "moved mu (t # ts) s ts s'"
        by (rule moved_trans)
      then show ?thesis
        using ran_dom[OF r] ran_stop[OF r] ran_rung[OF r] ran_conns[OF r]
        by (auto simp: with_new_def rung_def task_effect_def TAddConnection)
    qed
    show ?thesis
      using runs_mono[OF addConnection_runs[OF K I[unfolded TAddConnection]]] post
      by (simp add: task TAddConnection sub_task_run_def)
  next
    case (TRemoveConnection me)
    then show ?thesis
      using removeConnection_inv[OF I1] by (simp add: task sub_task_run_def task_effect_def)
  next
    case (TSendResponse me resp ka)
    then obtain c where "sr_heap s me = Some c"
      using inv_tasks[OF I, of t me] by auto
    from sub_response_runs[OF K I1 this, of b resp ka] show ?thesis
      unfolding task TSendResponse sub_task_run_def sub_task.case
    proof (rule runs_mono, elim conjE, intro conjI)
      fix s'
      assume r: "ran mu me s s'"
      show "\<forall>i. sr_heap s i \<noteq> None \<longrightarrow> sr_heap s' i \<noteq> None"
        using ran_dom[OF r] by blast
      show "moved mu (TSendResponse me resp ka # ts) s ts s'"
        by (rule keeps_moved[OF ran_keeps[OF r]]) simp
      show "task_effect (TSendResponse me resp ka) s s'"
        using ran_conns[OF r] by (simp add: task_effect_def)
      show "lp_stop s \<longrightarrow> lp_stop s'"
        using ran_stop[OF r] by simp
      show "if TSendResponse me resp ka = TStop then lp_stop s' else rung s s'"
        using ran_rung[OF r] by simp
    qed simp_all
  next
    case TStop
    show ?thesis
      unfolding task TStop sub_task_run_def sub_task.case
      by (rule runs_mono[OF sub_stop_runs[OF K I1]])
        (use it keeps_moved[of mu s _ "TStop # ts" ts] in \<open>auto simp: it_ok_def task_effect_def dest: keeps_dom keeps_conns\<close>)
  qed
qed

definition ev_ok :: "('k, 'z) subr_scheme \<Rightarrow> chan_id \<times> 32 word \<Rightarrow> bool" where
  "ev_ok s e = (case fst e of
     ConnChan me \<Rightarrow> (\<exists>c. sr_heap s me = Some c \<and> event_ok (snd e) (c, s))
   | AcceptChan port \<Rightarrow> False
   | _ \<Rightarrow> snd e AND EPOLLOUT = 0)"

definition evs_ok :: "(chan_id \<times> 32 word) list \<Rightarrow> ('k, 'z) subr_scheme \<Rightarrow> bool" where
  "evs_ok es s \<longleftrightarrow> distinct (map fst es) \<and> (\<forall>e \<in> set (butlast es). \<not> isTimeChannel e) \<and> (\<forall>e \<in> set es. ev_ok s e)"

lemma event_ok_cong: "event_ok ev (c, s) = event_ok ev (c, s')"
  by (simp add: event_ok_def wants_input_def)

lemma ev_ok_heap:
  assumes "ev_ok s e" and "\<And>me. fst e = ConnChan me \<Longrightarrow> sr_heap s' me = sr_heap s me"
  shows "ev_ok s' e"
proof (cases "fst e")
  case (ConnChan me)
  then show ?thesis
    using assms event_ok_cong[of "snd e" _ s' s] by (simp add: ev_ok_def)
qed (use assms in \<open>simp_all add: ev_ok_def\<close>)

lemma evs_ok_tl:
  assumes "evs_ok (e # es) s" and "\<And>me. fst e \<noteq> ConnChan me \<Longrightarrow> sr_heap s' me = sr_heap s me"
  shows "evs_ok es s'"
proof -
  have "ev_ok s' x" if "x \<in> set es" for x
  proof (rule ev_ok_heap)
    show "ev_ok s x" using assms(1) that by (simp add: evs_ok_def)
    show "sr_heap s' me = sr_heap s me" if "fst x = ConnChan me" for me
    proof (rule assms(2))
      have "fst x \<in> fst ` set es"
        using \<open>x \<in> set es\<close> by (rule imageI)
      then show "fst e \<noteq> ConnChan me"
        using assms(1) that unfolding evs_ok_def by (metis distinct.simps(2) list.simps(9) list.set_map)
    qed
  qed
  moreover have "set (butlast es) \<subseteq> set (butlast (e # es))"
    by auto
  ultimately show ?thesis
    using assms(1) by (auto simp: evs_ok_def)
qed

lemma turn_order_ok:
  assumes "sub_inv ep reg [] s" and "distinct (map fst chs)" and "\<forall>x \<in> set chs. reported reg (kern s) x"
  shows "evs_ok (turn_order chs) s"
proof -
  note I' = assms(1)[unfolded sub_inv_def]
  have ev: "ev_ok s e" if "e \<in> set chs" for e
  proof -
    have "reported reg (kern s) e"
      using assms(3) that by (rule bspec)
    then obtain fd m where m: "reg (kern s) fd = Some (fst e, m)" "snd e AND EPOLLIN \<noteq> 0 \<longrightarrow> m AND EPOLLIN \<noteq> 0"
        "snd e AND EPOLLOUT \<noteq> 0 \<longrightarrow> m AND EPOLLOUT \<noteq> 0"
      by (cases e) (auto simp: reported_def)
    then consider "fd = lp_fd s" | "fd = tq_timeFd (tq s)" | i where "fd_of s i fd"
      using I' unfolding fds_inv_def by blast
    then show ?thesis
    proof cases
      case 1
      with m have "Some (fst e, m) = (if ch_inEpoll (lp_chan s) then Some (EloopChan, ch_events (lp_chan s)) else None)"
          "ch_events (lp_chan s) AND EPOLLOUT = 0"
        using I' unfolding loop_inv_def synced_def by metis+
      then show ?thesis
        using m by (simp add: ev_ok_def split: if_splits)
    next
      case 2
      with m have "Some (fst e, m) = (if ch_inEpoll (tq_chan (tq s)) then Some (TimeChan, ch_events (tq_chan (tq s))) else None)"
          "ch_events (tq_chan (tq s)) AND EPOLLOUT = 0"
        using I' unfolding loop_inv_def synced_def by metis+
      then show ?thesis
        using m by (simp add: ev_ok_def split: if_splits)
    next
      case 3
      then obtain c where c: "sr_heap s i = Some c" "so_fd (cn_sck c) = fd"
        by (auto simp: fd_of_def)
      have ok: "conn_ok ep reg i (c, s)"
        using inv_conn[OF assms(1) c(1)] by simp
      have "synced reg (ConnChan i) (cn_channel c) (kern s)" "ch_fd (cn_channel c) = fd"
          "cn_state c = dead \<longleftrightarrow> \<not> ch_inEpoll (cn_channel c)"
        using ok c(2) by (simp_all add: conn_ok_def conn_base_def)
      then have "fst e = ConnChan i" "m = ch_events (cn_channel c)" "cn_state c \<noteq> dead"
        using m(1) by (auto simp: synced_def split: if_splits)
      then show ?thesis
        using c(1) m by (auto simp: ev_ok_def event_ok_def wants_input_def)
    qed
  qed
  have "set (turn_order chs) \<subseteq> set chs"
    by (auto simp: turn_order_def Let_def dest: last_in_set)
  moreover have "\<forall>e \<in> set (butlast (turn_order chs)). \<not> isTimeChannel e"
    by (auto simp: turn_order_def Let_def butlast_append dest: in_set_butlastD)
  moreover have "distinct (map fst (turn_order chs))"
  proof -
    have "distinct (map fst (filter (\<lambda>c. \<not> isTimeChannel c) chs))"
      using assms(2) distinct_map_filter by blast
    moreover have "fst (last (filter isTimeChannel chs)) = TimeChan" if "filter isTimeChannel chs \<noteq> []"
      using last_in_set[OF that] by (auto simp: isTimeChannel_def)
    ultimately show ?thesis
      by (auto simp: turn_order_def Let_def isTimeChannel_def)
  qed
  ultimately show ?thesis
    using ev by (auto simp: evs_ok_def)
qed

lemma event_runs:
  assumes K: "kernel_ok os ep reg mu" and I: "sub_inv ep reg [] s" and e: "evs_ok (e # es) s"
    and stop: "pl_stop (rc_pool s) \<Longrightarrow> b"
  shows "runs (sub_faults b) (handle_channel os (sub_owner os it) e s) (\<lambda>s'. sub_inv ep reg [] s' \<and> evs_ok es s' \<and>
    keeps mu s s')"
proof -
  obtain p ev where pe: "e = (p, ev)" by fastforce
  have ok: "ev_ok s e"
    using e by (simp add: evs_ok_def)
  show ?thesis
  proof (cases p)
    case EloopChan
    then have "ev AND EPOLLOUT = 0"
      using ok pe by (simp add: ev_ok_def)
    from eloop_channel_runs[OF K I this, of b "sub_owner os it"] show ?thesis
      unfolding pe EloopChan by (rule runs_mono) (auto intro: evs_ok_tl[OF e])
  next
    case TimeChan
    then have "ev AND EPOLLOUT = 0"
      using ok pe by (simp add: ev_ok_def)
    moreover have "es = []"
      using e TimeChan pe by (cases es) (auto simp: evs_ok_def isTimeChannel_def)
    ultimately show ?thesis
      unfolding pe TimeChan by (intro runs_mono[OF time_channel_runs[OF K I]]) (auto simp: evs_ok_def)
  next
    case (ConnChan me)
    then obtain c where c: "sr_heap s me = Some c" "event_ok ev (c, s)"
      using ok pe by (auto simp: ev_ok_def)
    have "handle_channel os (sub_owner os it) (ConnChan me, ev) s = sub_channel os (ConnChan me) ev s"
      by (simp add: handle_channel_def sub_owner_def)
    moreover have "sub_inv ep reg [] s' \<and> evs_ok es s' \<and> keeps mu s s'" if "sub_inv ep reg [] s' \<and> ran mu me s s'" for s'
    proof -
      have "evs_ok es s'"
        by (rule evs_ok_tl[OF e]) (use that in \<open>simp add: pe ConnChan ran_def\<close>)
      then show ?thesis
        using that ran_keeps by blast
    qed
    ultimately show ?thesis
      unfolding pe ConnChan using runs_mono[OF sub_channel_runs[OF K I c stop]] by auto
  next
    case (AcceptChan port)
    then show ?thesis
      using ok pe by (simp add: ev_ok_def)
  qed
qed

end
