(* ===== verification/SubSafety.thy ===== *)
theory SubSafety
  imports SubInv
begin

section \<open>A sub-reactor among other threads\<close>

text \<open>
  The main reactor hands over accepted sockets, the workers send responses back, the control thread
  asks the loop to stop, and the clients act on the kernel, all between any two steps of the loop.
  The interpretation of \<open>loop_client\<close> covers every such history.
\<close>

subsection \<open>What the other threads do\<close>

text \<open>
  An accepted socket is new: \<open>accept\<close> returns a descriptor that is not open, so no connection has it,
  and \<open>new Socket\<close> returns an address that no live object has.
\<close>

definition new_socket ::
  "'k registry \<Rightarrow> sub_task list \<Rightarrow> conn_id \<Rightarrow> socket \<Rightarrow> ('k, 'z) subr_scheme \<Rightarrow> bool" where
  "new_socket reg ts me sock s \<longleftrightarrow>
     sr_heap s me = None \<and> so_fd sock \<noteq> lp_fd s \<and> so_fd sock \<noteq> tq_timeFd (tq s) \<and> (\<forall>i. \<not> fd_of s i (so_fd sock)) \<and>
     (\<forall>x \<in> set (new_conns (ts @ lp_tasks s)). fst x \<noteq> me \<and> so_fd (snd x) \<noteq> so_fd sock)"

inductive sub_rely ::
  "'k os \<Rightarrow> 'k registry \<Rightarrow> sub_task list \<Rightarrow> ('k, 'z) subr_scheme \<Rightarrow> ('k, 'z) subr_scheme \<Rightarrow> bool" for os reg ts where
  accepted: "new_socket reg ts me sock s \<Longrightarrow> SubReactor_addConnection os me sock s = Inr s' \<Longrightarrow> sub_rely os reg ts s s'"
| taken: "pl_tasks (rc_pool s) = j # js \<Longrightarrow> sub_rely os reg ts s (s\<lparr>rc_pool := (rc_pool s)\<lparr>pl_tasks := js\<rparr>\<rparr>)"
| responded: "sr_heap s (fst j) \<noteq> None \<Longrightarrow> enqueueTask os (worker_job j) s = Inr s' \<Longrightarrow> sub_rely os reg ts s s'"
| stopping: "SubReactor_stop os s = Inr s' \<Longrightarrow> sub_rely os reg ts s s'"
| pool_stops: "sub_rely os reg ts s (s\<lparr>rc_pool := (rc_pool s)\<lparr>pl_stop := True\<rparr>\<rparr>)"
| clients: "reg k = reg (kern s) \<Longrightarrow> sub_rely os reg ts s (s\<lparr>kern := k\<rparr>)"

lemma pushed_inv:
  assumes I: "sub_inv ep reg ts s" and k: "reg k = reg (kern s)"
    and refs: "\<And>me. task_holds me t \<Longrightarrow> sr_heap s me \<noteq> None"
    and new: "\<And>me sock. t = TAddConnection me sock \<Longrightarrow> new_socket reg ts me sock s"
  shows "sub_inv ep reg ts ((push_task t s)\<lparr>kern := k, lp_signal := True\<rparr>)" (is "sub_inv _ _ _ ?s")
proof -
  have fds: "fd_of ?s = fd_of s"
    by (simp add: fd_of_def push_task_def fun_eq_iff)
  have "new_inv ts ?s"
  proof (cases "\<exists>me sock. t = TAddConnection me sock")
    case True
    then obtain me sock where t: "t = TAddConnection me sock" by blast
    define old where "old = new_conns (ts @ lp_tasks s)"
    have n: "new_conns (ts @ lp_tasks ?s) = old @ [(me, sock)]"
      by (simp add: t push_task_def old_def)
    show ?thesis
      using new[OF t] inv_new[OF I] unfolding new_inv_def new_socket_def n fds old_def[symmetric] Let_def
      by (auto simp: push_task_def)
  next
    case False
    then show ?thesis
      using inv_new[OF I] unfolding new_inv_def fds by (cases t) (auto simp: push_task_def)
  qed
  with refs k show ?thesis
    using inv_tasks[OF I] inv_jobs[OF I] by (intro sub_inv_transfer[OF I]) (auto simp: push_task_def)
qed

lemma enqueue_keeps:
  assumes K: "kernel_ok os ep reg mu" and I: "sub_inv ep reg ts s" and e: "enqueueTask os t s = Inr s'"
    and refs: "\<And>me. task_holds me t \<Longrightarrow> sr_heap s me \<noteq> None"
    and new: "\<And>me sock. t = TAddConnection me sock \<Longrightarrow> new_socket reg ts me sock s"
  shows "sub_inv ep reg ts s' \<and> sr_heap s' = sr_heap s"
proof -
  have "enqueued reg mu t s s'"
    using enqueueTask_runs[OF K conn_faults_simps(5), of t s] e by simp
  then show ?thesis
    using pushed_inv[OF I _ refs new] I by (auto simp: enqueued_def push_task_def)
qed

lemma sub_rely_keeps:
  assumes K: "kernel_ok os ep reg mu" and I: "sub_inv ep reg ts s" and r: "sub_rely os reg ts s s'"
  shows "sub_inv ep reg ts s' \<and> sr_heap s' = sr_heap s"
  using r
proof cases
  case (accepted me sock)
  then show ?thesis
    by (intro enqueue_keeps[OF K I]) (auto simp: SubReactor_addConnection_def)
next
  case (taken j js)
  have "sub_inv ep reg ts (s\<lparr>rc_pool := (rc_pool s)\<lparr>pl_tasks := js\<rparr>\<rparr>)"
    by (rule sub_inv_transfer[OF I])
      (use inv_tasks[OF I] inv_jobs[OF I] inv_new[OF I] taken in \<open>auto simp: new_inv_def fd_of_def\<close>)
  then show ?thesis
    by (simp add: taken)
next
  case (responded j)
  then show ?thesis
    by (intro enqueue_keeps[OF K I]) (auto simp: worker_job_def split: prod.splits)
next
  case stopping
  then show ?thesis
    by (intro enqueue_keeps[OF K I]) (auto simp: SubReactor_stop_def)
next
  case pool_stops
  have "sub_inv ep reg ts (s\<lparr>rc_pool := (rc_pool s)\<lparr>pl_stop := True\<rparr>\<rparr>)"
    by (rule sub_inv_transfer[OF I])
      (use inv_tasks[OF I] inv_jobs[OF I] inv_new[OF I] in \<open>auto simp: new_inv_def fd_of_def\<close>)
  then show ?thesis
    by (simp add: pool_stops)
next
  case (clients k)
  then show ?thesis
    using sub_inv_kern[OF I] by simp
qed

subsection \<open>The interpretation\<close>

definition sub_good ::
  "'k os \<Rightarrow> (conn_id list \<Rightarrow> conn_id list) \<Rightarrow> int \<Rightarrow> 'k registry \<Rightarrow> ('k \<Rightarrow> nat) \<Rightarrow> sub_task list \<Rightarrow> ('k, 'z) subr_scheme \<Rightarrow> bool" where
  "sub_good os it ep reg mu ts s \<longleftrightarrow>
     kernel_ok os ep reg mu \<and> epoll_wait_spec os ep reg mu \<and> it_ok it \<and> sub_inv ep reg ts s"

interpretation sub: loop_client os "sub_owner os it" "sub_faults True" "sub_good os it ep reg mu" evs_ok "sub_rely os reg"
  for os :: "'k os" and it ep and reg :: "'k registry" and mu
proof (unfold_locales, goal_cases)
  case (1 s)
  then have w: "epoll_wait_spec os ep reg mu" and I: "sub_inv ep reg [] s" and ep: "epfd s = ep"
    by (simp_all add: sub_good_def sub_inv_def loop_inv_def)
  have aw: "signalled s \<or> os_ready os ep (kern s)"
    using 1(2) ep by (auto simp: asleep_def)
  have "sub_good os it ep reg mu [] (s\<lparr>kern := k\<rparr>) \<and> evs_ok (turn_order chs) (s\<lparr>kern := k\<rparr>)"
    if "reg k = reg (kern s)" "distinct (map fst chs)" "\<forall>x \<in> set chs. reported reg (kern s) x" for chs k
  proof -
    have "reported reg k = reported reg (kern s)"
      using that(1) by (simp add: reported_def)
    then show ?thesis
      using turn_order_ok[OF sub_inv_kern[OF I that(1)] that(2)] 1 that sub_inv_kern[OF I that(1)]
      by (simp add: sub_good_def)
  qed
  then show ?case
    unfolding ep by (intro runs_mono[OF loop_sub_faults[OF epoll_poll_runs[OF w aw]]]) auto
next
  case (2 s e es)
  then show ?case
    by (auto simp: sub_good_def intro!: runs_mono[OF event_runs])
next
  case (3 s)
  then show ?case
    using swap_inv by (auto simp: sub_good_def)
next
  case (4 t ts s)
  then show ?case
    by (auto simp: sub_good_def intro!: runs_mono[OF task_runs])
next
  case (5 ts s s')
  then show ?case
    using sub_rely_keeps unfolding sub_good_def by blast
next
  case (6 s es s')
  then have "sr_heap s' = sr_heap s"
    using sub_rely_keeps unfolding sub_good_def by blast
  then have "ev_ok s' e" if "ev_ok s e" for e
    using ev_ok_heap[OF that, of s'] by simp
  then show ?case
    using 6(2) by (auto simp: evs_ok_def)
qed

subsection \<open>The start\<close>

lemma SubReactor_new_inv:
  assumes K: "kernel_ok os ep reg mu" and f: "fresh_fds os reg" and k: "reg k = (\<lambda>_. None)"
    and new: "SubReactor_new os b k = Inr s" and ep: "epfd s = ep"
  shows "sub_inv ep reg [] s" "timers_ordered (tq s)" "lp_stop s = False" "sr_conns s = []"
proof -
  obtain l where l: "EventLoop_new os k = Inr l" and s: "s = \<lparr>kern = kern l, epfd = epfd l, tq = tq l, lp_tasks = lp_tasks l,
      lp_stop = lp_stop l, lp_fd = lp_fd l, lp_chan = lp_chan l, lp_signal = lp_signal l, rc_pool = pool_new, sr_useThreadPool = b,
      sr_heap = (\<lambda>_. None), sr_conns = [], sr_selfptr = []\<rparr>"
    using new by (auto simp: SubReactor_new_def ebind_eq_Inr)
  note start = EventLoop_new_inv[OF K f k l, unfolded loop_inv_def]
  have "epfd l = ep"
    using ep by (simp add: s)
  then have "loop_inv ep reg s" "fds_inv reg s"
    using start by (simp_all add: loop_inv_def fds_inv_def fd_of_def s)
  then show "sub_inv ep reg [] s"
    using start by (simp add: sub_inv_def conns_inv_def refs_inv_def new_inv_def pool_new_def s)
  show "timers_ordered (tq s)" "lp_stop s = False" "sr_conns s = []"
    using start by (simp_all add: timers_ordered_def s)
qed

subsection \<open>Histories\<close>

text \<open>One step of the loop, or one of the other threads.\<close>

definition sub_step ::
  "'k os \<Rightarrow> (conn_id list \<Rightarrow> conn_id list) \<Rightarrow> 'k registry \<Rightarrow>
   sub_task phase \<times> ('k, 'z) subr_scheme \<Rightarrow> sub_task phase \<times> ('k, 'z) subr_scheme \<Rightarrow> bool" where
  "sub_step os it reg c c' \<longleftrightarrow>
     loop_step os (sub_owner os it) c c' \<or> fst c' = fst c \<and> sub_rely os reg (pending (fst c)) (snd c) (snd c')"

lemma sub_any_step: "sub_step os it reg = sub.any_step os it reg"
  by (simp add: fun_eq_iff sub_step_def sub.any_step_def)

lemma history_ok:
  assumes "(sub_step os it reg)\<^sup>*\<^sup>* c c'" and "sub.phase_ok os it ep reg mu c"
  shows "sub.phase_ok os it ep reg mu c'"
  using sub.always_ok[of os it reg c c' ep mu] assms by (simp add: sub_any_step)

lemma phase_ok_inv: "sub.phase_ok os it ep reg mu c \<Longrightarrow> sub_inv ep reg (pending (fst c)) (snd c)"
  by (cases c; cases "fst c") (auto simp: sub_good_def)

text \<open>While the pool is not stopped, its exception is none of the faults.\<close>

lemma sub_next_runs:
  assumes ok: "sub.phase_ok os it ep reg mu c" and aw: "\<not> waits os c" and stop: "pl_stop (rc_pool (snd c)) \<Longrightarrow> b"
  shows "runs (sub_faults b) (loop_next os (sub_owner os it) c) (\<lambda>c'. sub_inv ep reg (pending (fst c')) (snd c'))"
proof -
  obtain ph s where c: "c = (ph, s)" by fastforce
  have good: "kernel_ok os ep reg mu" "epoll_wait_spec os ep reg mu" "it_ok it" and I: "sub_inv ep reg (pending ph) s"
    using ok phase_ok_inv[OF ok] by (cases ph; simp add: c sub_good_def)+
  have "runs (sub_faults b) (loop_next os (sub_owner os it) c) (\<lambda>c'. True)"
  proof (cases ph)
    case Poll
    show ?thesis
      unfolding c Poll loop_next.simps by (rule runs_bindI[OF loop_sub_faults[OF epoll_poll_runs]]) (use I good aw in \<open>auto simp: sub_inv_def loop_inv_def c Poll asleep_def\<close>)
  next
    case (Events es)
    then show ?thesis
      using ok stop by (cases es) (auto simp: c sub_good_def intro!: runs_bindI[OF event_runs[OF good(1)]])
  next
    case (Tasks ts)
    then show ?thesis
      using ok by (cases ts) (auto simp: c sub_good_def intro!: runs_bindI[OF task_runs[OF good(1,3)]])
  qed
  then show ?thesis
    by (rule runs_fewer_faults[rotated]) (rule runs_mono[OF sub.next_runs[OF ok aw] phase_ok_inv])
qed

lemma phase_ok_laws: "sub.phase_ok os it ep reg mu c \<Longrightarrow> kernel_ok os ep reg mu \<and> it_ok it"
  by (cases c; cases "fst c") (auto simp: sub_good_def)

lemma loop_step_grows:
  assumes "sub.phase_ok os it ep reg mu c" and "loop_step os (sub_owner os it) c c'" and "sr_heap (snd c) i \<noteq> None"
  shows "sr_heap (snd c') i \<noteq> None"
proof -
  obtain ph s where c: "c = (ph, s)" by fastforce
  have K: "kernel_ok os ep reg mu" "it_ok it"
    using phase_ok_laws[OF assms(1)] by simp_all
  show ?thesis
  proof (cases ph)
    case Poll
    then show ?thesis
      using assms(2,3) by (auto simp: c loop_step_def rbind_eq_ret)
  next
    case (Events es)
    show ?thesis
    proof (cases es)
      case (Cons e es')
      then obtain s' where s': "handle_channel os (sub_owner os it) e s = ret s'" "c' = (phase.Events es', s')"
        using assms(2) by (auto simp: c Events loop_step_def rbind_eq_ret)
      have "sub_inv ep reg [] s" "evs_ok (e # es') s"
        using assms(1) by (simp_all add: c Events Cons sub_good_def)
      from runs_retD[OF event_runs[OF K(1) this] s'(1)] show ?thesis
        using assms(3) by (auto simp: s'(2) c dest: keeps_dom)
    qed (use assms(2,3) in \<open>auto simp: c Events loop_step_def\<close>)
  next
    case (Tasks ts)
    show ?thesis
    proof (cases ts)
      case (Cons t ts')
      then obtain s' where s': "ow_task (sub_owner os it) t s = ret s'" "c' = (phase.Tasks ts', s')"
        using assms(2) by (auto simp: c Tasks loop_step_def rbind_eq_ret)
      have "sub_inv ep reg (t # ts') s"
        using assms(1) by (simp add: c Tasks Cons sub_good_def)
      from runs_retD[OF task_runs[OF K this] s'(1)] show ?thesis
        using assms(3) by (simp add: s'(2) c)
    qed (use assms(2,3) in \<open>auto simp: c Tasks loop_step_def\<close>)
  qed
qed

lemma sub_step_grows:
  assumes "sub.phase_ok os it ep reg mu c" and "sub_step os it reg c c'" and "sr_heap (snd c) i \<noteq> None"
  shows "sr_heap (snd c') i \<noteq> None"
proof (cases "loop_step os (sub_owner os it) c c'")
  case False
  then have r: "sub_rely os reg (pending (fst c)) (snd c) (snd c')"
    using assms(2) by (simp add: sub_step_def)
  have "kernel_ok os ep reg mu"
    using phase_ok_laws[OF assms(1)] by simp
  from sub_rely_keeps[OF this phase_ok_inv[OF assms(1)] r] show ?thesis
    using assms(3) by simp
qed (use loop_step_grows assms in blast)

lemma history_grows:
  assumes "(sub_step os it reg)\<^sup>*\<^sup>* c c'" and "sub.phase_ok os it ep reg mu c" and "sr_heap (snd c) i \<noteq> None"
  shows "sr_heap (snd c') i \<noteq> None"
  using assms
proof (induction rule: rtranclp_induct)
  case (step d d')
  then show ?case
    using sub_step_grows[of os it ep reg mu d d' i] history_ok[OF step(1)] by simp
qed simp

subsection \<open>Stopping\<close>

text \<open>The table as the tasks in front of a stop request leave it.\<close>

fun table_after :: "sub_task list \<Rightarrow> conn_id set \<Rightarrow> conn_id set" where
  "table_after [] c = c"
| "table_after (TAddConnection me sock # ts) c = table_after ts (insert me c)"
| "table_after (TRemoveConnection me # ts) c = table_after ts (c - {me})"
| "table_after (_ # ts) c = table_after ts c"

lemma events_keep_tasks:
  assumes K: "kernel_ok os ep reg mu"
  shows "sub_inv ep reg [] s \<Longrightarrow> evs_ok es s \<Longrightarrow>
    runs (sub_faults True) (run_all (handle_channel os (sub_owner os it)) es s) (\<lambda>s'. sub_inv ep reg [] s' \<and> keeps mu s s')"
proof (induction es arbitrary: s)
  case (Cons e es)
  show ?case
    unfolding run_all.simps
    by (rule runs_bindI[OF event_runs[OF K Cons.prems TrueI]], elim conjE, rule runs_mono[OF Cons.IH]) (auto intro: keeps_trans)
qed simp

lemma removals_run:
  fixes s :: "('k, 'z) subr_scheme"
  assumes K: "kernel_ok os ep reg mu" and it: "it_ok it"
  shows "sub_inv ep reg (map TRemoveConnection rs) s \<Longrightarrow>
    runs (sub_faults True) (run_all (ow_task (sub_owner os it)) (map TRemoveConnection rs) s)
      (\<lambda>s'. sub_inv ep reg [] s' \<and> (lp_stop s \<longrightarrow> lp_stop s') \<and> (\<forall>me. is_dead me s \<longrightarrow> is_dead me s'))"
proof (induction rs arbitrary: s)
  case (Cons i rs)
  show ?case
    unfolding list.map run_all.simps
  proof (rule runs_bindI[OF task_runs[OF K it Cons.prems[unfolded list.map]]], elim conjE)
    fix s1 :: "('k, 'z) subr_scheme"
    assume 1: "sub_inv ep reg (map TRemoveConnection rs) s1" "lp_stop s \<longrightarrow> lp_stop s1" "task_effect (TRemoveConnection i) s s1"
    then show "runs (sub_faults True) (run_all (ow_task (sub_owner os it)) (map TRemoveConnection rs) s1)
        (\<lambda>s'. sub_inv ep reg [] s' \<and> (lp_stop s \<longrightarrow> lp_stop s') \<and> (\<forall>me. is_dead me s \<longrightarrow> is_dead me s'))"
      by (intro runs_mono[OF Cons.IH[OF 1(1)]]) (simp add: task_effect_def is_dead_def)
  qed
qed simp

lemma tasks_reach_stop:
  fixes s :: "('k, 'z) subr_scheme"
  assumes K: "kernel_ok os ep reg mu" and it: "it_ok it"
  shows "sub_inv ep reg (ts @ TStop # map TRemoveConnection rs) s \<Longrightarrow>
    runs (sub_faults True) (run_all (ow_task (sub_owner os it)) (ts @ TStop # map TRemoveConnection rs) s)
      (\<lambda>s'. sub_inv ep reg [] s' \<and> lp_stop s' \<and> (\<forall>me \<in> table_after ts (set (sr_conns s)). is_dead me s'))"
proof (induction ts arbitrary: s)
  case Nil
  show ?case
    unfolding append_Nil run_all.simps
  proof (rule runs_bindI[OF task_runs[OF K it Nil.prems[unfolded append_Nil]]], elim conjE)
    fix s1 :: "('k, 'z) subr_scheme"
    assume 1: "sub_inv ep reg (map TRemoveConnection rs) s1" "if TStop = TStop then lp_stop s1 else rung s s1" "task_effect TStop s s1"
    then show "runs (sub_faults True) (run_all (ow_task (sub_owner os it)) (map TRemoveConnection rs) s1)
        (\<lambda>s'. sub_inv ep reg [] s' \<and> lp_stop s' \<and> (\<forall>me \<in> table_after [] (set (sr_conns s)). is_dead me s'))"
      by (intro runs_mono[OF removals_run[OF K it 1(1)]]) (simp add: task_effect_def)
  qed
next
  case (Cons t ts)
  show ?case
    unfolding append_Cons run_all.simps
  proof (rule runs_bindI[OF task_runs[OF K it Cons.prems[unfolded append_Cons]]], elim conjE)
    fix s1 :: "('k, 'z) subr_scheme"
    assume 1: "sub_inv ep reg (ts @ TStop # map TRemoveConnection rs) s1" "task_effect t s s1"
    have "table_after (t # ts) (set (sr_conns s)) = table_after ts (set (sr_conns s1))"
      using 1(2) by (cases t) (simp_all add: task_effect_def)
    with Cons.IH[OF 1(1)]
    show "runs (sub_faults True) (run_all (ow_task (sub_owner os it)) (ts @ TStop # map TRemoveConnection rs) s1)
        (\<lambda>s'. sub_inv ep reg [] s' \<and> lp_stop s' \<and> (\<forall>me \<in> table_after (t # ts) (set (sr_conns s)). is_dead me s'))"
      by simp
  qed
qed

lemma stop_round:
  assumes K: "kernel_ok os ep reg mu" and w: "epoll_wait_spec os ep reg mu" and it: "it_ok it"
    and I: "sub_inv ep reg [] s" and aw: "\<not> asleep os s" and stop: "lp_tasks s = ts @ [TStop]"
  shows "runs (sub_faults True) (loop_round os (sub_owner os it) s)
    (\<lambda>s'. sub_inv ep reg [] s' \<and> lp_stop s' \<and> (\<forall>me \<in> table_after ts (set (sr_conns s)). is_dead me s'))"
  unfolding loop_round_order
proof (rule runs_bindI[OF sub.poll_keeps[of os it ep reg mu s]], simp add: sub_good_def K w it I, rule aw, clarify)
  fix chs k
  assume "sub_good os it ep reg mu [] (s\<lparr>kern := k\<rparr>)" and ev: "evs_ok (turn_order chs) (s\<lparr>kern := k\<rparr>)"
  then have I1: "sub_inv ep reg [] (s\<lparr>kern := k\<rparr>)"
    by (simp add: sub_good_def)
  show "runs (sub_faults True) (rbind (run_all (handle_channel os (sub_owner os it)) (turn_order chs) (s\<lparr>kern := k\<rparr>))
      (\<lambda>s2. run_all (ow_task (sub_owner os it)) (lp_tasks s2) (s2\<lparr>lp_tasks := []\<rparr>)))
      (\<lambda>s'. sub_inv ep reg [] s' \<and> lp_stop s' \<and> (\<forall>me \<in> table_after ts (set (sr_conns s)). is_dead me s'))"
  proof (rule runs_bindI[OF events_keep_tasks[OF K I1 ev]], elim conjE)
    fix s2
    assume s2: "sub_inv ep reg [] s2" "keeps mu (s\<lparr>kern := k\<rparr>) s2"
    then obtain rs where q: "lp_tasks s2 = ts @ TStop # map TRemoveConnection rs" "sr_conns s2 = sr_conns s"
      using stop by (auto simp: keeps_def)
    from tasks_reach_stop[OF K it swap_inv[OF s2(1), unfolded q(1)]]
    show "runs (sub_faults True) (run_all (ow_task (sub_owner os it)) (lp_tasks s2) (s2\<lparr>lp_tasks := []\<rparr>))
      (\<lambda>s'. sub_inv ep reg [] s' \<and> lp_stop s' \<and> (\<forall>me \<in> table_after ts (set (sr_conns s)). is_dead me s'))"
      by (simp add: q)
  qed
qed

subsection \<open>Properties\<close>

text \<open>
  C5. A sub-reactor is safe in every history that starts with its constructor, whatever the main
  reactor, the workers, the control thread and the clients do between its steps: unless the loop
  sleeps in \<open>epoll_wait\<close> with nothing ready, the next step returns, and if it ends the process, then only for one of the listed reasons, so no handler runs
  on a connection that is gone, no timer is a null pointer, no callback is missing and epoll never
  refuses a call; and each connection in existence is consistent with epoll and the timers.
\<close>

theorem subreactor_safe:
  assumes "kernel_ok os ep reg mu" and "epoll_wait_spec os ep reg mu" and "fresh_fds os reg" and "it_ok it"
    and "reg k = (\<lambda>_. None)" and "SubReactor_new os b k = Inr s" and "epfd s = ep"
    and "(sub_step os it reg)\<^sup>*\<^sup>* (Poll, s) c"
  shows "(waits os c \<or> runs (sub_faults True) (loop_next os (sub_owner os it) c) (\<lambda>c'. sub_inv ep reg (pending (fst c')) (snd c'))) \<and>
    (\<forall>me d. sr_heap (snd c) me = Some d \<longrightarrow> conn_ok ep reg me (d, snd c) \<and> input_ok (d, snd c)) \<and>
    (\<forall>me \<in> set (sr_conns (snd c)). sr_heap (snd c) me \<noteq> None)"
proof -
  have "sub.phase_ok os it ep reg mu (Poll, s)"
    using SubReactor_new_inv(1)[OF assms(1,3,5,6,7)] assms(1,2,4) by (simp add: sub_good_def)
  then have ok: "sub.phase_ok os it ep reg mu c"
    by (rule history_ok[OF assms(8)])
  note inv = phase_ok_inv[OF ok]
  have "waits os c \<or> runs (sub_faults True) (loop_next os (sub_owner os it) c) (\<lambda>c'. sub_inv ep reg (pending (fst c')) (snd c'))"
    by (cases "waits os c") (blast, simp, rule runs_mono[OF sub.next_runs[OF ok]], assumption, rule phase_ok_inv)
  moreover have "\<forall>me \<in> set (sr_conns (snd c)). sr_heap (snd c) me \<noteq> None"
    using inv unfolding sub_inv_def refs_inv_def by blast
  ultimately show ?thesis
    using inv_conn[OF inv] by blast
qed

text \<open>
  C9. A connection is never destroyed. Once \<open>addConnection\<close> has created it, in every later state of
  every history the object is still there and something owns it: the pointer in its own
  \<open>addTimerCallBack\<close>, also after it has died and left the table. So its \<open>Socket\<close> is never deleted
  and its descriptor is never closed.
\<close>

theorem connections_never_freed:
  assumes "kernel_ok os ep reg mu" and "epoll_wait_spec os ep reg mu" and "it_ok it" and "sub_inv ep reg [] s"
    and "(sub_step os it reg)\<^sup>*\<^sup>* (Poll, s) c" and "(sub_step os it reg)\<^sup>*\<^sup>* c c'" and "sr_heap (snd c) me \<noteq> None"
  shows "sr_heap (snd c') me \<noteq> None \<and> 0 < use_count me (snd c') \<and> sub_release os me (snd c') = snd c'"
proof -
  have "sub.phase_ok os it ep reg mu (Poll, s)"
    using assms(1-4) by (simp add: sub_good_def)
  then have ok: "sub.phase_ok os it ep reg mu c"
    by (rule history_ok[OF assms(5)])
  note inv = phase_ok_inv[OF history_ok[OF assms(6) ok]]
  have "sr_heap (snd c') me \<noteq> None"
    by (rule history_grows[OF assms(6) ok assms(7)])
  then show ?thesis
    using use_count_positive[OF inv] release_nothing[OF inv] by simp
qed


text \<open>
  C10. \<open>SubReactor::stop\<close> ends the thread that it joins. From any state between two turns, also when
  the loop sleeps in \<open>epoll_wait\<close> and no descriptor will ever be ready, the request wakes the loop and
  the thread's function returns with \<open>stop\<close> set; and every connection that is in the table when the
  request is served - those in the table now, plus those whose addition and minus those whose removal
  is queued before the request - ends dead, out of epoll and without timer.
\<close>

theorem subreactor_stops:
  assumes "kernel_ok os ep reg mu" and "epoll_wait_spec os ep reg mu" and "it_ok it"
    and "sub_inv ep reg [] s" and "\<not> lp_stop s" and "SubReactor_stop os s = Inr s1"
  shows "runs (sub_faults True) (sub_thread os it s1) (\<lambda>s'. sub_inv ep reg [] s' \<and> lp_stop s' \<and>
    (\<forall>me \<in> table_after (lp_tasks s) (set (sr_conns s)). conn_dead reg me s'))"
proof -
  have "enqueued reg mu TStop s s1"
    using enqueueTask_runs[OF assms(1) conn_faults_simps(5), of TStop s] assms(6) by (simp add: SubReactor_stop_def)
  then have s1: "lp_tasks s1 = lp_tasks s @ [TStop]" "sr_conns s1 = sr_conns s" "lp_signal s1" "\<not> lp_stop s1"
    using assms(5) by (auto simp: enqueued_def push_task_def)
  have I: "sub_inv ep reg [] s1"
    using sub_rely_keeps[OF assms(1,4) sub_rely.stopping[OF assms(6)]] by simp
  have "\<not> asleep os s1"
    using I s1(3) loop_inv_signalled[of ep reg s1] by (simp add: asleep_def sub_inv_def)
  note round = stop_round[OF assms(1-3) I this s1(1)]
  have "runs (sub_faults True) (rbind (loop_round os (sub_owner os it) s1) (\<lambda>s'. loop os (sub_owner os it) s'))
      (\<lambda>s'. sub_inv ep reg [] s' \<and> lp_stop s' \<and> (\<forall>me \<in> table_after (lp_tasks s) (set (sr_conns s)). conn_dead reg me s'))"
    by (rule runs_bindI[OF round], subst loop.simps) (auto simp: s1(2) is_dead_def intro: dead_conn)
  then show ?thesis
    unfolding sub_thread_def using s1(4) by (subst loop.simps) simp
qed

subsection \<open>A kernel for the witnesses\<close>

text \<open>
  The scripted kernel, made honest: \<open>epoll_wait\<close> passes on only those of the scripted reports that
  its interest list allows, and a new descriptor is larger than every registered one. Once the script
  is used up, what wakes the loop is its eventfd.
\<close>

definition true_report :: "skern \<Rightarrow> chan_id \<times> 32 word \<Rightarrow> bool" where
  "true_report k x \<longleftrightarrow> list_ex (\<lambda>(fd, q, m). q = fst x \<and> sk_reg k fd = Some (q, m) \<and>
     (snd x AND EPOLLIN \<noteq> 0 \<longrightarrow> m AND EPOLLIN \<noteq> 0) \<and> (snd x AND EPOLLOUT \<noteq> 0 \<longrightarrow> m AND EPOLLOUT \<noteq> 0)) (sk_interest k)"

definition hk_epoll_wait :: "int \<Rightarrow> nat \<Rightarrow> skern \<Rightarrow> (errno + (chan_id \<times> 32 word) list) \<times> skern" where
  "hk_epoll_wait ep n k =
     (case sk_polls k of
        [] \<Rightarrow> (if true_report k (EloopChan, EPOLLIN) then Inr [(EloopChan, EPOLLIN)] else Inl (EOTHER 9), k)
      | Inl e # ps \<Rightarrow> (Inl e, k\<lparr>sk_polls := ps\<rparr>)
      | Inr evs # ps \<Rightarrow>
          (let t = take n (filter (true_report k) evs) in
           (if distinct (map fst t) then Inr t else Inl (EOTHER 9), k\<lparr>sk_polls := ps\<rparr>)))"

definition hk_new_fd :: "skern \<Rightarrow> (errno + int) \<times> skern" where
  "hk_new_fd k = (let fd = fold max (map fst (sk_interest k)) (sk_next_fd k) + 1 in (Inr fd, k\<lparr>sk_next_fd := fd\<rparr>))"

definition hos :: "skern os" where
  "hos = sos\<lparr>os_epoll_wait := hk_epoll_wait, os_eventfd := hk_new_fd, os_timerfd := hk_new_fd, os_epoll_create := hk_new_fd\<rparr>"

lemma hos_simps [simp]:
  "os_readv hos = sk_readv" "os_write hos = sk_write" "os_read8 hos fd k = (Inr 8, k)" "os_write8 hos fd k = (Inr 8, k)"
  "os_epoll_ctl hos = sk_epoll_ctl" "os_epoll_wait hos = hk_epoll_wait" "os_settime hos fd t k = (Inr (), k\<lparr>sk_armed := t\<rparr>)"
  "os_now hos = sk_now" "os_eventfd hos = hk_new_fd" "os_timerfd hos = hk_new_fd" "os_epoll_create hos = hk_new_fd"
  "os_close hos fd k = k\<lparr>sk_closed := fd # sk_closed k\<rparr>" "os_ready hos = sk_ready"
  by (simp_all add: hos_def)

definition hk_supply :: "skern \<Rightarrow> nat" where
  "hk_supply k = sk_supply k + length (sk_polls k)"

lemma hos_kernel_ok: "kernel_ok hos ep sk_reg hk_supply"
proof -
  have "sk_polls (snd (sk_readv fd n k)) = sk_polls k" "sk_polls (snd (sk_write fd s k)) = sk_polls k"
    "sk_polls (snd (sk_epoll_ctl e op fd ev k)) = sk_polls k" "sk_polls (snd (sk_now k)) = sk_polls k" for fd n s e op ev k
    by (simp_all add: sk_readv_def sk_write_def sk_epoll_ctl_def sk_now_def Let_def split: list.split sum.split ctl_op.split)
  then have "finite_supply hos ep hk_supply"
    using sos_finite_supply unfolding finite_supply_def hk_supply_def
    by (simp add: sk_supply_def) (metis snd_conv add_less_cancel_right add_le_cancel_right)
  moreover have "write_bounded hos \<longleftrightarrow> write_bounded sos" "epoll_ctl_spec hos ep sk_reg \<longleftrightarrow> epoll_ctl_spec sos ep sk_reg"
    "epoll_ctl_complete hos ep sk_reg \<longleftrightarrow> epoll_ctl_complete sos ep sk_reg" "reg_kept hos sk_reg \<longleftrightarrow> reg_kept sos sk_reg"
    unfolding write_bounded_def epoll_ctl_spec_def epoll_ctl_complete_def reg_kept_def by (simp_all only: hos_simps sos_simps)
  ultimately show ?thesis
    using sos_kernel_ok[of ep] unfolding kernel_ok_def by blast
qed

lemma hos_epoll_wait: "epoll_wait_spec hos ep sk_reg hk_supply"
proof -
  have rep: "\<exists>fd m. sk_reg k fd = Some (fst x, m) \<and> (snd x AND EPOLLIN \<noteq> 0 \<longrightarrow> m AND EPOLLIN \<noteq> 0) \<and>
      (snd x AND EPOLLOUT \<noteq> 0 \<longrightarrow> m AND EPOLLOUT \<noteq> 0)" if "true_report k x" for k x
    using that by (auto simp: true_report_def list_ex_iff)
  moreover have "EPOLLIN AND EPOLLOUT = 0"
    by (simp add: EPOLLIN_def EPOLLOUT_def)
  ultimately show ?thesis
    unfolding epoll_wait_spec_def
    by (auto simp: sk_ready_def hk_epoll_wait_def Let_def sk_reg_def hk_supply_def sk_supply_def dest!: in_set_takeD rep
        split: list.splits sum.splits if_splits) blast
qed

lemma fold_max_ge: "(b :: int) \<le> fold max xs b \<and> (x \<in> set xs \<longrightarrow> x \<le> fold max xs b)"
proof (induction xs arbitrary: b)
  case (Cons y ys)
  show ?case
    using Cons[of "max y b"] Cons[of "max y b"] by (auto simp: max_def split: if_splits)
qed simp

lemma hos_fresh_fds: "fresh_fds hos sk_reg"
proof -
  have "map_of (sk_interest k) (fold max (map fst (sk_interest k)) b + 1) = None" for k b
    using fold_max_ge[of b "map fst (sk_interest k)" "fold max (map fst (sk_interest k)) b + 1"]
    by (force simp: map_of_eq_None_iff)
  then show ?thesis
    by (auto simp: fresh_fds_def hk_new_fd_def sk_new_fd_def sk_reg_def Let_def)
qed

text \<open>A sub-reactor, an accepted client, and the client's end of file.\<close>

definition demo_client :: socket where
  "demo_client = \<lparr>so_fd = 20, so_port = 8888, so_peerAddr = []\<rparr>"

definition sub_kernel :: skern where
  "sub_kernel = skern0\<lparr>sk_polls := [Inr [(EloopChan, EPOLLIN)], Inr [(ConnChan 1, EPOLLIN)]], sk_reads := [Inr []]\<rparr>"

definition demo_sub :: "skern subr" where
  "demo_sub =
     \<lparr>kern = sub_kernel\<lparr>sk_next_fd := 6, sk_interest := [(6, TimeChan, EPOLLIN OR EPOLLET), (4, EloopChan, EPOLLIN OR EPOLLET)]\<rparr>,
      epfd = 5, tq = \<lparr>tq_timerId = 0, tq_timeFd = 6, tq_chan = \<lparr>ch_fd = 6, ch_events = EPOLLIN OR EPOLLET, ch_revents = 0, ch_inEpoll = True\<rparr>, tq_timers = []\<rparr>,
      lp_tasks = [], lp_stop = False, lp_fd = 4, lp_chan = \<lparr>ch_fd = 4, ch_events = EPOLLIN OR EPOLLET, ch_revents = 0, ch_inEpoll = True\<rparr>,
      lp_signal = False, rc_pool = pool_new, sr_useThreadPool = False, sr_heap = (\<lambda>_. None), sr_conns = [], sr_selfptr = []\<rparr>"

lemma demo_sub_new: "SubReactor_new hos False sub_kernel = Inr demo_sub"
  by (simp add: SubReactor_new_def EventLoop_new_def Epoll_new_def TimerQueue_new_def enableReading_def epoll_updateChannel_def
      Channel_new_def sk_epoll_ctl_def hk_new_fd_def Let_def sub_kernel_def skern0_def demo_sub_def)

definition demo_accepted :: "skern subr" where
  "demo_accepted = demo_sub\<lparr>lp_tasks := [TAddConnection 1 demo_client], lp_signal := True\<rparr>"

lemma demo_accept: "sub_step hos id sk_reg (Poll, demo_sub) (Poll, demo_accepted)"
proof -
  have "SubReactor_addConnection hos 1 demo_client demo_sub = Inr demo_accepted"
    by (simp add: SubReactor_addConnection_def enqueueTask_def wakeup_write_def push_task_def demo_sub_def demo_accepted_def)
  moreover have "new_socket sk_reg [] 1 demo_client demo_sub"
    by (simp add: new_socket_def demo_sub_def demo_client_def fd_of_def)
  ultimately show ?thesis
    by (auto simp: sub_step_def intro: sub_rely.accepted)
qed

definition demo_conn :: conn where
  "demo_conn = (Connection_new demo_client False)\<lparr>cn_channel := \<lparr>ch_fd = 20, ch_events = EPOLLIN OR EPOLLET, ch_revents = 0, ch_inEpoll = True\<rparr>,
     cn_timerId := 1\<rparr>"

definition demo_running :: "skern subr" where
  "demo_running = demo_sub\<lparr>lp_tasks := [], sr_heap := [1 \<mapsto> demo_conn], sr_conns := [1], sr_selfptr := [1],
     tq := (tq demo_sub)\<lparr>tq_timerId := 1, tq_timers := [(1, \<lparr>tm_id = 1, tm_expiration = \<lparr>tv_sec = 60, tv_nsec = 0\<rparr>, tm_callBack = 1\<rparr>)]\<rparr>,
     kern := (kern demo_sub)\<lparr>sk_polls := tl (sk_polls sub_kernel), sk_armed := \<lparr>tv_sec = 60, tv_nsec = 0\<rparr>,
       sk_interest := (20, ConnChan 1, EPOLLIN OR EPOLLET) # sk_interest (kern demo_sub)\<rparr>\<rparr>"

lemma demo_turn: "loop_round hos (sub_owner hos id) demo_accepted = ret demo_running"
proof -
  have poll: "epoll_poll hos 5 (signalled demo_accepted) (kern demo_accepted) = ret ([(EloopChan, EPOLLIN)], (kern demo_sub)\<lparr>sk_polls := tl (sk_polls sub_kernel)\<rparr>)"
    by (subst epoll_poll.simps)
      (simp add: hk_epoll_wait_def MAX_EVENTS_def signalled_def sk_ready_def demo_accepted_def demo_sub_def sub_kernel_def true_report_def sk_reg_def
        EPOLLIN_def EPOLLOUT_def EPOLLET_def)
  have "handle_channel hos (sub_owner hos id) (EloopChan, EPOLLIN) s = ret (s\<lparr>lp_signal := False\<rparr>)" for s :: "skern subr"
    by (simp add: handle_channel_def channel_handle_def readCallback_def drain_counter.simps EPOLLIN_def EPOLLOUT_def)
  moreover have "sub_addConnection hos 1 demo_client (demo_accepted\<lparr>kern := (kern demo_sub)\<lparr>sk_polls := tl (sk_polls sub_kernel)\<rparr>, lp_signal := False, lp_tasks := []\<rparr>) =
      ret demo_running"
    by (simp add: sub_addConnection_def on_conn_def startConnect_def on_channel_def enableReading_def epoll_updateChannel_def
        sk_epoll_ctl_def Let_def addTimer_def timerq_addTimer_def now_def sk_now_def INT_MAX_def refreshClock_def clock_target_def
        Connection_new_def Channel_new_def demo_client_def demo_accepted_def demo_sub_def demo_running_def demo_conn_def
        sub_kernel_def skern0_def ts_zero_def map_put.simps)
  moreover have "turn_order [(EloopChan, EPOLLIN)] = [(EloopChan, EPOLLIN)]" "epfd demo_accepted = 5"
      "lp_tasks demo_accepted = [TAddConnection 1 demo_client]"
      "ow_task (sub_owner hos id) (TAddConnection 1 demo_client) s = sub_addConnection hos 1 demo_client s" for s :: "skern subr"
    by (simp_all add: turn_order_def isTimeChannel_def demo_accepted_def demo_sub_def sub_owner_def sub_task_run_def)
  ultimately show ?thesis
    by (simp add: loop_round_order poll)
qed

lemma demo_eof:
  obtains s where "loop_round hos (sub_owner hos id) demo_running = ret s" "sr_conns s = []"
    "\<exists>c. sr_heap s 1 = Some c \<and> cn_state c = dead" "sk_closed (kern s) = []" "lp_tasks s = []" "lp_stop s = False"
proof -
  let ?k = "(kern demo_running)\<lparr>sk_polls := []\<rparr>"
  have poll: "epoll_poll hos 5 (signalled demo_running) (kern demo_running) = ret ([(ConnChan 1, EPOLLIN)], ?k)"
    by (subst epoll_poll.simps)
      (simp add: hk_epoll_wait_def MAX_EVENTS_def signalled_def sk_ready_def demo_running_def demo_sub_def sub_kernel_def true_report_def sk_reg_def
        EPOLLIN_def EPOLLOUT_def EPOLLET_def)
  have buf: "sckToBuffer_store [] Buffer_new = Buffer_new" "readable Buffer_new = 0"
    by (simp_all add: sckToBuffer_store_def readable_def Buffer_new_def)
  have "\<exists>s. handle_channel hos (sub_owner hos id) (ConnChan 1, EPOLLIN) (demo_running\<lparr>kern := ?k\<rparr>) = ret s \<and>
      sr_conns s = [1] \<and> sr_selfptr s = [1] \<and> (\<exists>c. sr_heap s 1 = Some c \<and> cn_state c = dead) \<and> sk_closed (kern s) = [] \<and>
      lp_tasks s = [TRemoveConnection 1] \<and> lp_stop s = False"
    by (simp add: buf handle_channel_def sub_owner_def sub_channel_def then_release_def on_conn_def conn_event_def
        channel_handle_def EPOLLIN_def EPOLLOUT_def handleReadCallBack_def refreshTimer_def deleteTimer_def timerq_deleteTimer_def
        addTimer_def timerq_addTimer_def now_def sk_now_def INT_MAX_def refreshClock_def clock_target_def onHttp_def
        readFromSck.simps sckToBuffer_def sk_readv_def checkEmptyReadAfterEof_def handleDead_def conn_shut_def channel_remove_def
        epoll_removeChannel_def sk_epoll_ctl_def Let_def enqueueTask_def wakeup_write_def push_task_def
        demo_running_def demo_sub_def demo_conn_def sub_kernel_def skern0_def Connection_new_def demo_client_def
        map_erase_def map_put.simps ts_zero_def sub_release_def use_count_def)
  moreover have "turn_order [(ConnChan 1, EPOLLIN)] = [(ConnChan 1, EPOLLIN)]" "epfd demo_running = 5"
      "ow_task (sub_owner hos id) (TRemoveConnection 1) s = ret (sub_removeConnection hos 1 s)" for s :: "skern subr"
    by (simp_all add: turn_order_def isTimeChannel_def demo_running_def demo_sub_def sub_owner_def sub_task_run_def)
  ultimately show ?thesis
    using that by (auto simp: loop_round_order poll sub_removeConnection_def sub_release_def use_count_def)
qed

lemma loop_steps_history: "loop_steps os (sub_owner os it) c c' \<Longrightarrow> (sub_step os it reg)\<^sup>*\<^sup>* c c'"
  by (erule rtranclp_mono[THEN predicate2D, rotated]) (auto simp: sub_step_def)

lemma demo_sub_inv: "sub_inv 5 sk_reg [] demo_sub" "sub_inv 5 sk_reg [] demo_running"
proof -
  have "epfd demo_sub = 5" "sk_reg sub_kernel = (\<lambda>_. None)"
    by (simp_all add: demo_sub_def sub_kernel_def skern0_def sk_reg_def)
  from SubReactor_new_inv(1)[OF hos_kernel_ok hos_fresh_fds this(2) demo_sub_new this(1)]
  show 1: "sub_inv 5 sk_reg [] demo_sub" .
  have "sub_rely hos sk_reg [] demo_sub demo_accepted"
    using demo_accept by (auto simp: sub_step_def loop_step_def rbind_eq_ret)
  from sub_rely_keeps[OF hos_kernel_ok 1 this] have "sub_good hos id 5 sk_reg hk_supply [] demo_accepted"
    using hos_kernel_ok hos_epoll_wait by (simp add: sub_good_def it_ok_def)
  moreover have "\<not> asleep hos demo_accepted"
    by (simp add: asleep_def sk_ready_def demo_accepted_def demo_sub_def sub_kernel_def)
  ultimately have "runs (sub_faults True) (loop_round hos (sub_owner hos id) demo_accepted) (sub_good hos id 5 sk_reg hk_supply [])"
    by (rule sub.round_runs)
  then show "sub_inv 5 sk_reg [] demo_running"
    by (simp add: demo_turn sub_good_def)
qed

lemma demo_history:
  "(sub_step hos id sk_reg)\<^sup>*\<^sup>* (Poll, demo_sub) (Poll, demo_running)"
proof -
  have "loop_steps hos (sub_owner hos id) (Poll, demo_accepted) (Poll, demo_running)"
    by (rule round_steps) (simp_all add: demo_turn, simp add: demo_accepted_def demo_sub_def)
  from loop_steps_history[OF this] demo_accept show ?thesis
    by (rule converse_rtranclp_into_rtranclp[rotated])
qed

lemma it_ok_id: "it_ok id"
  by (simp add: it_ok_def)

lemma demo_awake: "\<not> asleep hos demo_running"
  by (simp add: asleep_def sk_ready_def demo_running_def demo_sub_def sub_kernel_def)

theorem subreactor_safe_witness:
  "(sub_step hos id sk_reg)\<^sup>*\<^sup>* (Poll, demo_sub) (Poll, demo_running) \<and> sr_conns demo_running = [1] \<and>
   runs (sub_faults True) (loop_next hos (sub_owner hos id) (Poll, demo_running)) (\<lambda>c'. sub_inv 5 sk_reg (pending (fst c')) (snd c')) \<and>
   sr_heap demo_running 1 = Some demo_conn \<and> conn_ok 5 sk_reg 1 (demo_conn, demo_running)"
proof -
  have "sk_reg sub_kernel = (\<lambda>_. None)" "epfd demo_sub = 5"
    by (simp_all add: demo_sub_def sub_kernel_def skern0_def sk_reg_def)
  from subreactor_safe[OF hos_kernel_ok hos_epoll_wait hos_fresh_fds it_ok_id this(1) demo_sub_new this(2) demo_history]
  show ?thesis
    using demo_history demo_awake by (simp add: demo_running_def)
qed

theorem connections_never_freed_witness:
  "\<exists>s. (sub_step hos id sk_reg)\<^sup>*\<^sup>* (Poll, demo_running) (Poll, s) \<and> sr_conns s = [] \<and> (\<exists>c. sr_heap s 1 = Some c \<and> cn_state c = dead) \<and>
     0 < use_count 1 s \<and> sk_closed (kern s) = []"
proof -
  obtain s where s: "loop_round hos (sub_owner hos id) demo_running = ret s" "sr_conns s = []"
    "\<exists>c. sr_heap s 1 = Some c \<and> cn_state c = dead" "sk_closed (kern s) = []"
    by (rule demo_eof)
  have "loop_steps hos (sub_owner hos id) (Poll, demo_running) (Poll, s)"
    by (rule round_steps[OF _ s(1)]) (simp add: demo_running_def demo_sub_def)
  note hist = loop_steps_history[OF this, of sk_reg]
  have "sr_heap (snd (Poll, demo_running)) 1 \<noteq> None"
    by (simp add: demo_running_def)
  from connections_never_freed[OF hos_kernel_ok hos_epoll_wait it_ok_id demo_sub_inv(1) demo_history hist this]
  show ?thesis
    using hist s by auto
qed


text \<open>A loop that sleeps for ever if nobody wakes it: one idle connection, and a kernel in which nothing is ready.\<close>

definition demo_sleeping :: "skern subr" where
  "demo_sleeping = demo_running\<lparr>kern := (kern demo_running)\<lparr>sk_polls := []\<rparr>\<rparr>"

theorem subreactor_stops_witness:
  "asleep hos demo_sleeping \<and> sub_thread hos id demo_sleeping = None \<and> sr_conns demo_sleeping = [1] \<and>
   (\<exists>s1. SubReactor_stop hos demo_sleeping = Inr s1 \<and>
     runs (sub_faults True) (sub_thread hos id s1) (\<lambda>s'. lp_stop s' \<and> conn_dead sk_reg 1 s'))"
proof -
  let ?s = "demo_sleeping\<lparr>lp_tasks := [TStop], lp_signal := True\<rparr>"
  have stop: "SubReactor_stop hos demo_sleeping = Inr ?s"
    by (simp add: SubReactor_stop_def enqueueTask_def wakeup_write_def push_task_def demo_sleeping_def demo_running_def demo_sub_def)
  have I: "sub_inv 5 sk_reg [] demo_sleeping"
    unfolding demo_sleeping_def by (rule sub_inv_kern[OF demo_sub_inv(2)]) (simp add: sk_reg_def)
  have "\<not> lp_stop demo_sleeping"
    by (simp add: demo_sleeping_def demo_running_def demo_sub_def)
  from subreactor_stops[OF hos_kernel_ok hos_epoll_wait it_ok_id I this stop]
  have "runs (sub_faults True) (sub_thread hos id ?s) (\<lambda>s'. lp_stop s' \<and> conn_dead sk_reg 1 s')"
    by (rule runs_mono) (simp add: demo_sleeping_def demo_running_def demo_sub_def)
  moreover have sleep: "asleep hos demo_sleeping" "\<not> lp_stop demo_sleeping" "sr_conns demo_sleeping = [1]"
    by (simp_all add: asleep_def signalled_def sk_ready_def demo_sleeping_def demo_running_def demo_sub_def)
  moreover have "sub_thread hos id demo_sleeping = None"
    unfolding sub_thread_def using sleep(2) asleep_blocks[OF sleep(1)] by (subst loop.simps) (simp add: loop_round_def)
  ultimately show ?thesis
    using stop by blast
qed

end
