(* ===== verification/MainReactor.thy ===== *)
theory MainReactor
  imports LoopSteps Socket
begin

section \<open>Acceptor and MainReactor: the loop that accepts\<close>

text \<open>
  Models \<open>class Acceptor\<close> (include/Acceptor.h, src/server/Acceptor.cpp) and \<open>class MainReactor\<close>
  (include/MainReactor.h, src/server/MainReactor.cpp). The callback for new connections, which the
  server installs, is a parameter \<open>cb\<close>; Server.thy supplies it.
\<close>

subsection \<open>Acceptor\<close>

record acceptor =
  ac_port :: int
  ac_listenSck :: socket
  ac_channel :: channel

text \<open>The constructor: socket and bind, then the channel in level-triggered mode; listening comes later.\<close>

definition Acceptor_new :: "'k os \<Rightarrow> int \<Rightarrow> int \<Rightarrow> 'k \<Rightarrow> (acceptor \<times> 'k) outcome" where
  "Acceptor_new os ep port k =
     ebind (Socket_listening os port k) (\<lambda>(sck, k1).
     ebind (enableListen os ep (AcceptChan port) (Channel_new (so_fd sck)) k1) (\<lambda>(c, k2).
       Inr (\<lparr>ac_port = port, ac_listenSck = sck, ac_channel = c\<rparr>, k2)))"

text \<open>The destructor closes the socket; it does not take the channel out of epoll, the kernel does.\<close>

definition Acceptor_delete :: "'k os \<Rightarrow> acceptor \<Rightarrow> 'k \<Rightarrow> 'k" where
  "Acceptor_delete os a k = snd (Socket_delete os (ac_listenSck a) k)"

definition Acceptor_startListen :: "'k os \<Rightarrow> acceptor \<Rightarrow> 'k \<Rightarrow> 'k outcome" where
  "Acceptor_startListen os a k = startListen os (ac_listenSck a) k"

subsection \<open>State of the main reactor\<close>

text \<open>The tasks of this loop: the lambda of \<open>listenPort\<close> and the one of \<open>stop\<close>. It has no timers.\<close>

datatype main_task = MListen int | MStop

record 'k mainr = "(unit, 'k, main_task) eloop" +
  mr_Acceptors :: "(int \<times> acceptor) list"

definition Acceptor_handleRead ::
  "'k os \<Rightarrow> (socket \<Rightarrow> ('k, 'z) mainr_scheme \<Rightarrow> ('k, 'z) mainr_scheme outcome) \<Rightarrow> acceptor \<Rightarrow>
   ('k, 'z) mainr_scheme \<Rightarrow> ('k, 'z) mainr_scheme res" where
  "Acceptor_handleRead os cb a s =
     rbind (acceptConnection os (ac_listenSck a) (kern s)) (\<lambda>(res, k).
       case res of
         None \<Rightarrow> ret (s\<lparr>kern := k\<rparr>)
       | Some sck \<Rightarrow> Some (cb sck (s\<lparr>kern := k\<rparr>)))"

subsection \<open>The tasks and the handlers of the loop\<close>

definition main_listen :: "'k os \<Rightarrow> int \<Rightarrow> ('k, 'z) mainr_scheme \<Rightarrow> ('k, 'z) mainr_scheme outcome" where
  "main_listen os port s =
     (if map_of (mr_Acceptors s) port \<noteq> None then Inr s
      else
        ebind (Acceptor_new os (epfd s) port (kern s)) (\<lambda>(a, k).
        ebind (Acceptor_startListen os a k) (\<lambda>k'.
          Inr (s\<lparr>kern := k', mr_Acceptors := (port, a) # mr_Acceptors s\<rparr>))))"

text \<open>\<open>stop\<close> erases the acceptors one by one, in the order of the hash table: the list order here.\<close>

fun erase_acceptors :: "'k os \<Rightarrow> (int \<times> acceptor) list \<Rightarrow> 'k \<Rightarrow> 'k" where
  "erase_acceptors os [] k = k"
| "erase_acceptors os ((port, a) # as) k = erase_acceptors os as (Acceptor_delete os a k)"

definition main_stop :: "'k os \<Rightarrow> ('k, 'z) mainr_scheme \<Rightarrow> ('k, 'z) mainr_scheme outcome" where
  "main_stop os s = stopLoop os (s\<lparr>kern := erase_acceptors os (mr_Acceptors s) (kern s), mr_Acceptors := []\<rparr>)"

definition main_task_run :: "'k os \<Rightarrow> main_task \<Rightarrow> ('k, 'z) mainr_scheme \<Rightarrow> ('k, 'z) mainr_scheme res" where
  "main_task_run os t s = (case t of MListen port \<Rightarrow> Some (main_listen os port s) | MStop \<Rightarrow> Some (main_stop os s))"

text \<open>An acceptor has no write callback: calling the empty function throws.\<close>

definition main_channel ::
  "'k os \<Rightarrow> (socket \<Rightarrow> ('k, 'z) mainr_scheme \<Rightarrow> ('k, 'z) mainr_scheme outcome) \<Rightarrow> chan_id \<Rightarrow> 32 word \<Rightarrow>
   ('k, 'z) mainr_scheme \<Rightarrow> ('k, 'z) mainr_scheme res" where
  "main_channel os cb p revents s =
     (case p of
        AcceptChan port \<Rightarrow>
          (case map_of (mr_Acceptors s) port of
             None \<Rightarrow> fail (Undefined ''use after free'')
           | Some a \<Rightarrow> channel_handle (Acceptor_handleRead os cb a) no_callback revents s)
      | _ \<Rightarrow> fail (Undefined ''unknown channel''))"

definition main_owner ::
  "'k os \<Rightarrow> (socket \<Rightarrow> ('k, 'z) mainr_scheme \<Rightarrow> ('k, 'z) mainr_scheme outcome) \<Rightarrow>
   (unit, main_task, ('k, 'z) mainr_scheme) owner" where
  "main_owner os cb =
     \<lparr>ow_channel = main_channel os cb, ow_timer = (\<lambda>_. no_callback), ow_task = main_task_run os\<rparr>"

subsection \<open>The interface for the control thread\<close>

definition MainReactor_new :: "'k os \<Rightarrow> 'k \<Rightarrow> 'k mainr outcome" where
  "MainReactor_new os k =
     ebind (EventLoop_new os k) (\<lambda>l.
       Inr \<lparr>kern = kern l, epfd = epfd l, tq = tq l, lp_tasks = lp_tasks l, lp_stop = lp_stop l, lp_fd = lp_fd l,
            lp_chan = lp_chan l, lp_signal = lp_signal l, mr_Acceptors = []\<rparr>)"

definition MainReactor_listenPort :: "'k os \<Rightarrow> int \<Rightarrow> ('k, 'z) mainr_scheme \<Rightarrow> ('k, 'z) mainr_scheme outcome" where
  "MainReactor_listenPort os port s = enqueueTask os (MListen port) s"

definition MainReactor_stop :: "'k os \<Rightarrow> ('k, 'z) mainr_scheme \<Rightarrow> ('k, 'z) mainr_scheme outcome" where
  "MainReactor_stop os s = enqueueTask os MStop s"

text \<open>The thread that \<open>start\<close> creates and \<open>stop\<close> joins.\<close>

definition main_thread ::
  "'k os \<Rightarrow> (socket \<Rightarrow> ('k, 'z) mainr_scheme \<Rightarrow> ('k, 'z) mainr_scheme outcome) \<Rightarrow>
   ('k, 'z) mainr_scheme \<Rightarrow> ('k, 'z) mainr_scheme res" where
  "main_thread os cb s = loop os (main_owner os cb) s"

end
