(* ===== verification/MainInv.thy ===== *)
theory MainInv
  imports MainReactor LoopInv LoopSteps
begin

section \<open>The main reactor among other threads\<close>

text \<open>
  The invariant of the accepting loop, and its safety in every history in which the control thread
  asks for ports and for the stop, the sub-reactors work, and the clients act on the kernel. What the
  loop needs of the server's callback for new connections is the locale \<open>connection_sink\<close>.
\<close>

subsection \<open>The kernel's sockets\<close>

text \<open>
  socket(2), accept(2), close(2): a new descriptor is not in an interest list, closing removes a
  descriptor from it, the other calls change no interest list, and accept is not interrupted for ever.
\<close>

definition socket_spec :: "'k os \<Rightarrow> 'k registry \<Rightarrow> ('k \<Rightarrow> nat) \<Rightarrow> bool" where
  "socket_spec os reg mu \<longleftrightarrow>
     (\<forall>k r k'. os_socket os k = (r, k') \<longrightarrow> reg k' = reg k \<and> (\<forall>fd. r = Inr fd \<longrightarrow> fd \<ge> 0 \<and> reg k fd = None)) \<and>
     (\<forall>fd k r k'. os_accept os fd k = (r, k') \<longrightarrow> reg k' = reg k \<and> (r = Inl EINTR \<longrightarrow> mu k' < mu k)) \<and>
     (\<forall>fd k. reg (snd (os_getfl os fd k)) = reg k) \<and>
     (\<forall>fd f k. reg (os_setfl os fd f k) = reg k) \<and>
     (\<forall>fd k. reg (os_reuseaddr os fd k) = reg k) \<and>
     (\<forall>fd p k. reg (snd (os_bind os fd p k)) = reg k) \<and>
     (\<forall>fd n k. reg (snd (os_listen os fd n k)) = reg k) \<and>
     (\<forall>fd k. reg (os_close os fd k) = (reg k)(fd := None))"

lemma socket_specD:
  assumes "socket_spec os reg mu"
  shows "os_socket os k = (r, k') \<Longrightarrow> reg k' = reg k \<and> (\<forall>fd. r = Inr fd \<longrightarrow> fd \<ge> 0 \<and> reg k fd = None)"
    and "os_accept os fd k = (r', k') \<Longrightarrow> reg k' = reg k \<and> (r' = Inl EINTR \<longrightarrow> mu k' < mu k)"
    and "reg (setNonBlocking os fd k) = reg k"
    and "reg (os_reuseaddr os fd k) = reg k"
    and "os_bind os fd p k = (r2, k') \<Longrightarrow> reg k' = reg k"
    and "os_listen os fd n k = (r2, k') \<Longrightarrow> reg k' = reg k"
    and "reg (os_close os fd k) = (reg k)(fd := None)"
  using assms unfolding socket_spec_def setNonBlocking_def by (auto split: prod.split) (metis snd_conv)+

definition main_faults :: "fault set" where
  "main_faults = loop_faults \<union> {Exit ''eloopFd write error'', Exit ''socket create error'', Exit ''socket bind error'',
     Exit ''socket listen error'', Exit ''socket accept error''}"

lemma main_faults_simps [simp]:
  "e \<in> loop_faults \<Longrightarrow> e \<in> main_faults" "Exit ''eloopFd write error'' \<in> main_faults"
  "Exit ''socket create error'' \<in> main_faults" "Exit ''socket bind error'' \<in> main_faults"
  "Exit ''socket listen error'' \<in> main_faults" "Exit ''socket accept error'' \<in> main_faults"
  by (simp_all add: main_faults_def)

lemma loop_main_faults: "runs loop_faults m P \<Longrightarrow> runs main_faults m P"
  by (erule runs_mono_faults) (auto simp: main_faults_def)

subsection \<open>Opening and accepting\<close>

lemma Socket_listening_runs:
  assumes "socket_spec os reg mu"
  shows "runs main_faults (Some (Socket_listening os port k))
    (\<lambda>(sck, k'). reg k' = reg k \<and> reg k (so_fd sck) = None \<and> so_fd sck \<ge> 0 \<and> so_port sck = port)"
  using socket_specD[OF assms]
  by (auto simp: Socket_listening_def Let_def errif_def split: prod.split sum.split)

lemma Acceptor_new_runs:
  assumes S: "socket_spec os reg mu" and K: "kernel_ok os ep reg mu"
  shows "runs main_faults (Some (Acceptor_new os ep port k)) (\<lambda>(a, k').
    reg k (so_fd (ac_listenSck a)) = None \<and> so_fd (ac_listenSck a) \<ge> 0 \<and> ac_port a = port \<and> so_port (ac_listenSck a) = port \<and>
    reg k' = (reg k)(so_fd (ac_listenSck a) \<mapsto> (AcceptChan port, EPOLLIN)))"
  unfolding Acceptor_new_def
proof (rule runs_ebindI[OF Socket_listening_runs[OF S]], clarify)
  fix sck :: socket and k1
  assume k1: "reg k1 = reg k" "reg k (so_fd sck) = None" "so_fd sck \<ge> 0" "port = so_port sck"
  let ?c = "(Channel_new (so_fd sck))\<lparr>ch_events := EPOLLIN\<rparr>"
  have "synced reg (AcceptChan (so_port sck)) (Channel_new (so_fd sck)) k1"
    using k1 by (simp add: synced_def Channel_new_def)
  then obtain c k2 where r: "epoll_updateChannel os ep (AcceptChan (so_port sck)) ?c k1 = Inr (c, k2)"
    using epoll_updateChannel_total[OF kernel_okD(3)[OF K]] by fastforce
  have "reg k2 = (reg k)(so_fd sck \<mapsto> (AcceptChan (so_port sck), EPOLLIN))"
    using epoll_updateChannel_ok[OF kernel_okD(2)[OF K] r] k1(1) by (simp add: Channel_new_def)
  moreover have "enableListen os ep (AcceptChan (so_port sck)) (Channel_new (so_fd sck)) k1 = Inr (c, k2)"
    using r by (simp add: enableListen_def Channel_new_def)
  ultimately show "runs main_faults (Some (ebind (enableListen os ep (AcceptChan (so_port sck)) (Channel_new (so_fd sck)) k1)
      (\<lambda>(c, k2). Inr (\<lparr>ac_port = so_port sck, ac_listenSck = sck, ac_channel = c\<rparr>, k2)))) (\<lambda>(a, k').
      reg k (so_fd (ac_listenSck a)) = None \<and> so_fd (ac_listenSck a) \<ge> 0 \<and> ac_port a = so_port sck \<and>
      so_port (ac_listenSck a) = so_port sck \<and> reg k' = (reg k)(so_fd (ac_listenSck a) \<mapsto> (AcceptChan (so_port sck), EPOLLIN)))"
    using k1 by simp
qed

lemma acceptConnection_runs:
  assumes S: "socket_spec os reg mu"
  shows "runs main_faults (acceptConnection os l k) (\<lambda>(res, k'). reg k' = reg k)"
proof (induction "mu k" arbitrary: k rule: less_induct)
  case less
  obtain r k' where a: "os_accept os (so_fd l) k = (r, k')"
    by fastforce
  note spec = socket_specD(2)[OF S a]
  show ?case
  proof (cases "r = Inl EINTR")
    case True
    then have "runs main_faults (acceptConnection os l k') (\<lambda>(res, k''). reg k'' = reg k')" "reg k' = reg k"
      using less[of k'] spec by simp_all
    then show ?thesis
      using True by (subst acceptConnection.simps) (simp add: a)
  next
    case False
    then show ?thesis
      using spec socket_specD(3)[OF S]
      by (subst acceptConnection.simps) (auto simp: a Socket_accepted_def split: sum.split)
  qed
qed

subsection \<open>The invariant\<close>

abbreviation afd :: "acceptor \<Rightarrow> int" where
  "afd a \<equiv> so_fd (ac_listenSck a)"

text \<open>
  Every acceptor is registered, level-triggered and for reading only, under its port, and epoll knows
  no other descriptor than theirs and the loop's own two.
\<close>

definition main_inv :: "int \<Rightarrow> 'k registry \<Rightarrow> ('k, 'z) mainr_scheme \<Rightarrow> bool" where
  "main_inv ep reg s \<longleftrightarrow> loop_inv ep reg s \<and> ch_inEpoll (lp_chan s) \<and> ch_inEpoll (tq_chan (tq s)) \<and>
     tq_timers (tq s) = [] \<and> distinct (map fst (mr_Acceptors s)) \<and>
     (\<forall>(p, a) \<in> set (mr_Acceptors s). ac_port a = p \<and> so_port (ac_listenSck a) = p \<and> afd a \<ge> 0 \<and>
        reg (kern s) (afd a) = Some (AcceptChan p, EPOLLIN)) \<and>
     (\<forall>fd. reg (kern s) fd \<noteq> None \<longrightarrow> fd = lp_fd s \<or> fd = tq_timeFd (tq s) \<or> (\<exists>(p, a) \<in> set (mr_Acceptors s). fd = afd a))"

definition main_evs_ok :: "(chan_id \<times> 32 word) list \<Rightarrow> ('k, 'z) mainr_scheme \<Rightarrow> bool" where
  "main_evs_ok es s \<longleftrightarrow> (\<forall>(p, rev) \<in> set es. rev AND EPOLLOUT = 0 \<and>
     (p = EloopChan \<or> p = TimeChan \<or> (\<exists>port \<in> set (map fst (mr_Acceptors s)). p = AcceptChan port)))"

text \<open>Nothing but the listed parts of the state matters.\<close>

lemma main_inv_cong:
  assumes "main_inv ep reg s" and "epfd s' = epfd s" "tq s' = tq s" "lp_fd s' = lp_fd s" "lp_chan s' = lp_chan s"
    "mr_Acceptors s' = mr_Acceptors s" "reg (kern s') = reg (kern s)"
  shows "main_inv ep reg s'"
proof -
  have "synced reg p c (kern s') = synced reg p c (kern s)" for p c
    by (rule synced_cong) (simp add: assms)
  then show ?thesis
    using assms by (simp add: main_inv_def loop_inv_def)
qed

lemma updateChannel_adds: "epoll_updateChannel os ep p c k = Inr (c', k') \<Longrightarrow> ch_inEpoll c'"
  by (auto simp: epoll_updateChannel_def ebind_eq_Inr Let_def split: prod.splits if_splits)

lemma EventLoop_new_in_epoll:
  assumes "EventLoop_new os k = Inr l"
  shows "ch_inEpoll (lp_chan l) \<and> ch_inEpoll (tq_chan (tq l))"
proof -
  obtain e fd k2 c k3 q k4 where c: "enableReading os e EloopChan (Channel_new fd) k2 = Inr (c, k3)"
    and q: "TimerQueue_new os e k3 = Inr (q, k4)" and l: "lp_chan l = c" "tq l = q"
    using assms by (auto simp: EventLoop_new_def ebind_eq_Inr split: prod.splits sum.splits)
  have "ch_inEpoll (tq_chan q)"
    using q by (auto simp: TimerQueue_new_def enableReading_def ebind_eq_Inr split: prod.splits sum.splits dest: updateChannel_adds)
  then show ?thesis
    using c by (auto simp: l enableReading_def dest: updateChannel_adds)
qed

lemma MainReactor_new_inv:
  assumes K: "kernel_ok os ep reg mu" and f: "fresh_fds os reg" and k: "reg k = (\<lambda>_. None)"
    and new: "MainReactor_new os k = Inr s" and ep: "epfd s = ep"
  shows "main_inv ep reg s \<and> lp_tasks s = [] \<and> lp_stop s = False \<and> mr_Acceptors s = []"
proof -
  obtain l where l: "EventLoop_new os k = Inr l" and s: "s = \<lparr>kern = kern l, epfd = epfd l, tq = tq l, lp_tasks = lp_tasks l,
      lp_stop = lp_stop l, lp_fd = lp_fd l, lp_chan = lp_chan l, lp_signal = lp_signal l, mr_Acceptors = []\<rparr>"
    using new by (auto simp: MainReactor_new_def ebind_eq_Inr)
  have e: "epfd l = ep"
    using ep by (simp add: s)
  note start = EventLoop_new_inv[OF K f k l]
  then have "loop_inv ep reg l"
    using e by simp
  then have "loop_inv ep reg s"
    by (simp add: loop_inv_def s)
  then show ?thesis
    using start e EventLoop_new_in_epoll[OF l] by (simp add: main_inv_def s)
qed

subsection \<open>The tasks\<close>

lemma synced_reg: "synced reg p c k \<Longrightarrow> ch_fd c = fd \<Longrightarrow> ch_inEpoll c \<Longrightarrow> reg k fd = Some (p, ch_events c)"
  by (auto simp: synced_def)

lemma own_reg:
  assumes "main_inv ep reg s"
  shows "reg (kern s) (lp_fd s) = Some (EloopChan, ch_events (lp_chan s))" "ch_events (lp_chan s) AND EPOLLOUT = 0"
    and "reg (kern s) (tq_timeFd (tq s)) = Some (TimeChan, ch_events (tq_chan (tq s)))" "ch_events (tq_chan (tq s)) AND EPOLLOUT = 0"
proof -
  have "synced reg EloopChan (lp_chan s) (kern s)" "ch_fd (lp_chan s) = lp_fd s" "ch_inEpoll (lp_chan s)"
    "synced reg TimeChan (tq_chan (tq s)) (kern s)" "ch_fd (tq_chan (tq s)) = tq_timeFd (tq s)" "ch_inEpoll (tq_chan (tq s))"
    using assms by (simp_all add: main_inv_def loop_inv_def)
  show "reg (kern s) (lp_fd s) = Some (EloopChan, ch_events (lp_chan s))"
    by (rule synced_reg) fact+
  show "reg (kern s) (tq_timeFd (tq s)) = Some (TimeChan, ch_events (tq_chan (tq s)))"
    by (rule synced_reg) fact+
  show "ch_events (lp_chan s) AND EPOLLOUT = 0" "ch_events (tq_chan (tq s)) AND EPOLLOUT = 0"
    using assms by (simp_all add: main_inv_def loop_inv_def)
qed

lemma own_fds:
  assumes "main_inv ep reg s" and "reg (kern s) fd = Some (AcceptChan p, m) \<or> reg (kern s) fd = None"
  shows "fd \<noteq> lp_fd s \<and> fd \<noteq> tq_timeFd (tq s)"
  using assms(2) own_reg(1,3)[OF assms(1)] by auto

lemma main_listen_runs:
  assumes S: "socket_spec os reg mu" and K: "kernel_ok os ep reg mu" and I: "main_inv ep reg s"
  shows "runs main_faults (Some (main_listen os port s)) (\<lambda>s'. main_inv ep reg s' \<and> port \<in> set (map fst (mr_Acceptors s')) \<and>
    (\<exists>k as. s' = s\<lparr>kern := k, mr_Acceptors := as @ mr_Acceptors s\<rparr>))"
proof (cases "map_of (mr_Acceptors s) port")
  case None
  have ep: "epfd s = ep"
    using I by (simp add: main_inv_def loop_inv_def)
  have "runs main_faults (Some (ebind (Acceptor_startListen os a k) (\<lambda>k'.
      Inr (s\<lparr>kern := k', mr_Acceptors := (port, a) # mr_Acceptors s\<rparr>))))
      (\<lambda>s'. main_inv ep reg s' \<and> port \<in> set (map fst (mr_Acceptors s')) \<and> (\<exists>k as. s' = s\<lparr>kern := k, mr_Acceptors := as @ mr_Acceptors s\<rparr>))"
    if a: "reg (kern s) (afd a) = None" "afd a \<ge> 0" "ac_port a = port" "so_port (ac_listenSck a) = port"
      and k: "reg k = (reg (kern s))(afd a \<mapsto> (AcceptChan port, EPOLLIN))" for a k
  proof -
    have "main_inv ep reg (s\<lparr>kern := k', mr_Acceptors := (port, a) # mr_Acceptors s\<rparr>)" if k': "reg k' = reg k" for k'
    proof -
      have own: "afd a \<noteq> lp_fd s" "afd a \<noteq> tq_timeFd (tq s)"
        using own_fds[OF I] a(1) by blast+
      have "synced reg p c k' = synced reg p c (kern s)" if "ch_fd c \<noteq> afd a" for p c
        by (rule synced_cong) (simp add: k' k that)
      then have "loop_inv ep reg (s\<lparr>kern := k', mr_Acceptors := (port, a) # mr_Acceptors s\<rparr>)"
        using I own by (simp add: main_inv_def loop_inv_def)
      moreover have "afd b \<noteq> afd a" if "(p, b) \<in> set (mr_Acceptors s)" for p b
        using I a(1) that by (auto simp: main_inv_def)
      ultimately show ?thesis
        using I a None by (auto simp: main_inv_def k' k map_of_eq_None_iff)
    qed
    moreover have "runs main_faults (Some (Acceptor_startListen os a k)) (\<lambda>k'. reg k' = reg k)"
      using socket_specD(6)[OF S] by (auto simp: Acceptor_startListen_def startListen_def errif_def split: prod.split)
    moreover have "\<exists>k0 as. s\<lparr>kern := k', mr_Acceptors := (port, a) # mr_Acceptors s\<rparr> = s\<lparr>kern := k0, mr_Acceptors := as @ mr_Acceptors s\<rparr>" for k'
      by (rule exI[of _ k'], rule exI[of _ "[(port, a)]"]) simp
    ultimately show ?thesis
      by (intro runs_ebindI[where P = "\<lambda>k'. reg k' = reg k"]) auto
  qed
  then show ?thesis
    unfolding main_listen_def using None
    by (auto simp: ep intro!: runs_ebindI[OF Acceptor_new_runs[OF S K]])
next
  case (Some a)
  moreover from this have "port \<in> set (map fst (mr_Acceptors s))"
    by (metis map_of_eq_None_iff option.distinct(1) set_map)
  moreover have "\<exists>k as. s = s\<lparr>kern := k, mr_Acceptors := as @ mr_Acceptors s\<rparr>"
    by (rule exI[of _ "kern s"], rule exI[of _ "[]"]) simp
  ultimately show ?thesis
    using I by (simp add: main_listen_def)
qed

lemma erase_acceptors_reg:
  assumes "socket_spec os reg mu"
  shows "\<forall>(p, a) \<in> set as. afd a \<ge> 0 \<Longrightarrow>
    reg (erase_acceptors os as k) = (\<lambda>fd. if \<exists>(p, a) \<in> set as. fd = afd a then None else reg k fd)"
proof (induction as arbitrary: k)
  case (Cons x as)
  then show ?case
    using socket_specD(7)[OF assms]
    by (cases x) (auto simp: fun_eq_iff Acceptor_delete_def Socket_delete_def)
qed simp

lemma main_stop_runs:
  fixes s :: "('k, 'z) mainr_scheme"
  assumes S: "socket_spec os reg mu" and K: "kernel_ok os ep reg mu" and I: "main_inv ep reg s"
  shows "runs main_faults (Some (main_stop os s)) (\<lambda>s'. main_inv ep reg s' \<and> lp_stop s' \<and> mr_Acceptors s' = [] \<and>
    mainr.more s' = mainr.more s \<and> (\<forall>(p, a) \<in> set (mr_Acceptors s). reg (kern s') (afd a) = None))"
proof -
  define k where "k = erase_acceptors os (mr_Acceptors s) (kern s)"
  let ?s = "s\<lparr>kern := k, mr_Acceptors := []\<rparr>"
  have "\<forall>(p, a) \<in> set (mr_Acceptors s). afd a \<ge> 0"
    using I by (auto simp: main_inv_def)
  note k = erase_acceptors_reg[OF S this, of "kern s", folded k_def]
  have acc: "reg (kern s) (afd a) = Some (AcceptChan p, EPOLLIN)" if "(p, a) \<in> set (mr_Acceptors s)" for p a
    using I that by (auto simp: main_inv_def)
  have own: "afd a \<noteq> lp_fd s" "afd a \<noteq> tq_timeFd (tq s)" if "(p, a) \<in> set (mr_Acceptors s)" for p a
    using own_fds[OF I] acc[OF that] by blast+
  have "synced reg p c k = synced reg p c (kern s)" if "ch_fd c = lp_fd s \<or> ch_fd c = tq_timeFd (tq s)" for p c
    by (rule synced_cong) (use that in \<open>auto simp: k dest: own\<close>)
  then have "loop_inv ep reg ?s"
    using I by (simp add: main_inv_def loop_inv_def)
  from stopLoop_effect[OF K this] obtain ch k2 where st: "main_stop os s = Inr (?s\<lparr>tq := (tq s)\<lparr>tq_chan := ch\<rparr>, kern := k2, lp_stop := True\<rparr>)"
    and li: "loop_inv ep reg (?s\<lparr>tq := (tq s)\<lparr>tq_chan := ch\<rparr>, kern := k2, lp_stop := True\<rparr>)"
    and k2: "\<forall>fd. fd \<noteq> tq_timeFd (tq s) \<longrightarrow> reg k2 fd = reg k fd"
    by (auto simp: main_stop_def k_def)
  have "ch_inEpoll (tq_chan (tq s'))" if "stopLoop os s0 = Inr s'" for s0 s' :: "('k, 'z) mainr_scheme"
    using that by (auto simp: stopLoop_def timerq_stop_def disableAll_def ebind_eq_Inr dest: updateChannel_adds)
  from this[OF st[unfolded main_stop_def]] have "ch_inEpoll ch"
    by simp
  have gone: "reg k2 (afd a) = None" if "(p, a) \<in> set (mr_Acceptors s)" for p a
    using k2 own(2)[OF that] that by (auto simp: k)
  have "fd = lp_fd s \<or> fd = tq_timeFd (tq s)" if "reg k2 fd \<noteq> None" for fd
  proof (rule disjCI)
    assume "fd \<noteq> tq_timeFd (tq s)"
    then have "(if \<exists>(p, a) \<in> set (mr_Acceptors s). fd = afd a then None else reg (kern s) fd) \<noteq> None"
      using that k2 by (simp add: k)
    then have "reg (kern s) fd \<noteq> None" "\<not> (\<exists>(p, a) \<in> set (mr_Acceptors s). fd = afd a)"
      by (simp_all split: if_splits)
    then show "fd = lp_fd s"
      using I \<open>fd \<noteq> tq_timeFd (tq s)\<close> unfolding main_inv_def by blast
  qed
  with li gone I \<open>ch_inEpoll ch\<close> show ?thesis
    by (auto simp: st main_inv_def)
qed

subsection \<open>Events\<close>

text \<open>
  The contract of the callback: given an accepted socket it may change what the server keeps beside
  the loop and make system calls, but leaves the loop and its registrations alone. \<open>sink_ok\<close> is the
  server's own invariant.
\<close>

definition main_good ::
  "'k os \<Rightarrow> int \<Rightarrow> 'k registry \<Rightarrow> ('k \<Rightarrow> nat) \<Rightarrow> ('z \<Rightarrow> bool) \<Rightarrow> main_task list \<Rightarrow> ('k, 'z) mainr_scheme \<Rightarrow> bool" where
  "main_good os ep reg mu sink_ok ts s \<longleftrightarrow> kernel_ok os ep reg mu \<and> epoll_wait_spec os ep reg mu \<and> socket_spec os reg mu \<and>
     main_inv ep reg s \<and> sink_ok (mainr.more s)"

definition handed_on ::
  "'k registry \<Rightarrow> ('z \<Rightarrow> bool) \<Rightarrow> ('k, 'z) mainr_scheme \<Rightarrow> ('k, 'z) mainr_scheme \<Rightarrow> bool" where
  "handed_on reg sink_ok s s' \<longleftrightarrow>
     (\<exists>k z. s' = mainr.more_update (\<lambda>_. z) (s\<lparr>kern := k\<rparr>) \<and> reg k = reg (kern s) \<and> sink_ok z)"

text \<open>An event of the loop's own eventfd also empties it.\<close>

definition event_done ::
  "'k registry \<Rightarrow> ('z \<Rightarrow> bool) \<Rightarrow> ('k, 'z) mainr_scheme \<Rightarrow> ('k, 'z) mainr_scheme \<Rightarrow> bool" where
  "event_done reg sink_ok s s' \<longleftrightarrow> (\<exists>b. handed_on reg sink_ok (s\<lparr>lp_signal := b\<rparr>) s')"

lemma handed_on_done: "handed_on reg sink_ok s s' \<Longrightarrow> event_done reg sink_ok s s'"
  unfolding event_done_def by (rule exI[of _ "lp_signal s"]) simp

text \<open>What the control thread, the sub-reactors and the clients do meanwhile.\<close>

inductive main_rely ::
  "'k os \<Rightarrow> 'k registry \<Rightarrow> ('z \<Rightarrow> bool) \<Rightarrow> ('k, 'z) mainr_scheme \<Rightarrow> ('k, 'z) mainr_scheme \<Rightarrow> bool" for os reg sink_ok where
  listening: "MainReactor_listenPort os port s = Inr s' \<Longrightarrow> main_rely os reg sink_ok s s'"
| stopping: "MainReactor_stop os s = Inr s' \<Longrightarrow> main_rely os reg sink_ok s s'"
| others: "handed_on reg sink_ok s s' \<Longrightarrow> main_rely os reg sink_ok s s'"

lemma handed_on_same:
  assumes "handed_on reg sink_ok s s'"
  shows "reg (kern s') = reg (kern s) \<and> epfd s' = epfd s \<and> tq s' = tq s \<and> lp_fd s' = lp_fd s \<and> lp_chan s' = lp_chan s \<and>
    mr_Acceptors s' = mr_Acceptors s \<and> lp_tasks s' = lp_tasks s \<and> lp_stop s' = lp_stop s \<and> sink_ok (mainr.more s')"
  using assms by (auto simp: handed_on_def)

lemma handed_on_inv: "main_inv ep reg s \<Longrightarrow> handed_on reg sink_ok s s' \<Longrightarrow> main_inv ep reg s'"
  using handed_on_same[of reg sink_ok s s'] by (blast intro: main_inv_cong)

lemma event_done_same:
  assumes "event_done reg sink_ok s s'"
  shows "epfd s' = epfd s \<and> mr_Acceptors s' = mr_Acceptors s \<and> lp_tasks s' = lp_tasks s \<and> lp_stop s' = lp_stop s \<and>
    sink_ok (mainr.more s')" "main_inv ep reg s \<Longrightarrow> main_inv ep reg s'"
proof -
  obtain b where h: "handed_on reg sink_ok (s\<lparr>lp_signal := b\<rparr>) s'"
    using assms by (auto simp: event_done_def)
  note same = handed_on_same[OF h]
  then show "epfd s' = epfd s \<and> mr_Acceptors s' = mr_Acceptors s \<and> lp_tasks s' = lp_tasks s \<and> lp_stop s' = lp_stop s \<and>
      sink_ok (mainr.more s')"
    by simp
  show "main_inv ep reg s'" if "main_inv ep reg s"
    by (rule main_inv_cong[OF that]) (use same in simp_all)
qed

lemma handed_on_kern: "reg k = reg (kern s) \<Longrightarrow> sink_ok (mainr.more s) \<Longrightarrow> handed_on reg sink_ok s (s\<lparr>kern := k\<rparr>)"
  unfolding handed_on_def by (rule exI[of _ k], rule exI[of _ "mainr.more s"]) simp

lemma enqueued_inv:
  fixes s :: "('k, 'z) mainr_scheme"
  assumes K: "kernel_ok os ep reg mu" and I: "main_inv ep reg s" and e: "enqueueTask os t s = Inr s'"
  shows "main_inv ep reg s' \<and> mainr.more s' = mainr.more s \<and> mr_Acceptors s' = mr_Acceptors s"
proof -
  have "enqueued reg mu t s s'"
    using enqueueTask_runs[OF K, of main_faults t s] e by simp
  then consider "s' = s" | k where "s' = (push_task t s)\<lparr>kern := k, lp_signal := True\<rparr>" "reg k = reg (kern s)"
    by (auto simp: enqueued_def)
  then show ?thesis
  proof cases
    case 2
    moreover have "main_inv ep reg ((push_task t s)\<lparr>kern := k, lp_signal := True\<rparr>)"
      by (rule main_inv_cong[OF I]) (simp_all add: push_task_def 2(2))
    ultimately show ?thesis
      by (simp add: push_task_def)
  qed (simp add: I)
qed

lemma main_rely_keeps:
  assumes "kernel_ok os ep reg mu" and "main_inv ep reg s" and "sink_ok (mainr.more s)" and "main_rely os reg sink_ok s s'"
  shows "main_inv ep reg s' \<and> sink_ok (mainr.more s') \<and> mr_Acceptors s' = mr_Acceptors s"
  using assms(4)
proof cases
  case (listening port)
  then show ?thesis
    using enqueued_inv[OF assms(1,2)] assms(3) unfolding MainReactor_listenPort_def by metis
next
  case stopping
  then show ?thesis
    using enqueued_inv[OF assms(1,2)] assms(3) unfolding MainReactor_stop_def by metis
next
  case others
  then show ?thesis
    using handed_on_inv[OF assms(2)] handed_on_same[of reg sink_ok s s'] by blast
qed

lemma main_reported:
  assumes I: "main_inv ep reg s" and "distinct (map fst chs)" and r: "\<forall>x \<in> set chs. reported reg (kern s) x"
  shows "main_evs_ok (turn_order chs) s"
proof -
  have "rev AND EPOLLOUT = 0 \<and> (p = EloopChan \<or> p = TimeChan \<or> (\<exists>port \<in> set (map fst (mr_Acceptors s)). p = AcceptChan port))"
    if mem: "(p, rev) \<in> set chs" for p rev
  proof -
    obtain fd m where m: "reg (kern s) fd = Some (p, m)" "rev AND EPOLLOUT \<noteq> 0 \<longrightarrow> m AND EPOLLOUT \<noteq> 0"
      using bspec[OF r mem] by (auto simp: reported_def)
    have "fd = lp_fd s \<or> fd = tq_timeFd (tq s) \<or> (\<exists>(q, a) \<in> set (mr_Acceptors s). fd = afd a)"
      using I m(1) unfolding main_inv_def by (metis option.distinct(1))
    then consider "fd = lp_fd s" | "fd = tq_timeFd (tq s)" | q a where "(q, a) \<in> set (mr_Acceptors s)" "fd = afd a"
      by auto
    then show ?thesis
    proof cases
      case 1
      then show ?thesis
        using m own_reg(1,2)[OF I] by auto
    next
      case 2
      then show ?thesis
        using m own_reg(3,4)[OF I] by auto
    next
      case (3 q a)
      then have "reg (kern s) (afd a) = Some (AcceptChan q, EPOLLIN)" "q \<in> set (map fst (mr_Acceptors s))"
        using I by (force simp: main_inv_def)+
      then show ?thesis
        using m 3 by (auto simp: EPOLLIN_def EPOLLOUT_def)
    qed
  qed
  moreover have "set (turn_order chs) \<subseteq> set chs"
    by (auto simp: turn_order_def Let_def dest: last_in_set)
  ultimately show ?thesis
    by (fastforce simp: main_evs_ok_def)
qed

locale connection_sink =
  fixes os :: "'k os" and ep :: int and reg :: "'k registry" and mu :: "'k \<Rightarrow> nat"
    and cb :: "socket \<Rightarrow> ('k, 'z) mainr_scheme \<Rightarrow> ('k, 'z) mainr_scheme outcome"
    and sink_ok :: "'z \<Rightarrow> bool"
  assumes hands_on: "kernel_ok os ep reg mu \<Longrightarrow> sink_ok (mainr.more s) \<Longrightarrow>
    runs main_faults (Some (cb sck s)) (handed_on reg sink_ok s)"
begin

lemma handleRead_hands_on:
  assumes S: "socket_spec os reg mu" and K: "kernel_ok os ep reg mu" and z: "sink_ok (mainr.more s)"
  shows "runs main_faults (Acceptor_handleRead os cb a s) (handed_on reg sink_ok s)"
  unfolding Acceptor_handleRead_def
proof (rule runs_bindI[OF acceptConnection_runs[OF S]], clarify)
  fix res k
  assume k: "reg k = reg (kern s)"
  have trans: "handed_on reg sink_ok s s'" if "handed_on reg sink_ok (s\<lparr>kern := k\<rparr>) s'" for s'
    using that k by (auto simp: handed_on_def)
  show "runs main_faults (case res of None \<Rightarrow> ret (s\<lparr>kern := k\<rparr>) | Some sck \<Rightarrow> Some (cb sck (s\<lparr>kern := k\<rparr>))) (handed_on reg sink_ok s)"
    using handed_on_kern[of reg k s sink_ok] z k runs_mono[OF hands_on[OF K, of "s\<lparr>kern := k\<rparr>"] trans]
    by (cases res) simp_all
qed

lemma main_event_runs:
  assumes S: "socket_spec os reg mu" and K: "kernel_ok os ep reg mu" and I: "main_inv ep reg s" and z: "sink_ok (mainr.more s)"
    and e: "main_evs_ok (e # es) s"
  shows "runs main_faults (handle_channel os (main_owner os cb) e s) (event_done reg sink_ok s)"
proof -
  obtain p rev where pr: "e = (p, rev)" by fastforce
  have rev: "rev AND EPOLLOUT = 0" and cases: "p = EloopChan \<or> p = TimeChan \<or> (\<exists>port \<in> set (map fst (mr_Acceptors s)). p = AcceptChan port)"
    using e by (auto simp: main_evs_ok_def pr)
  have q: "tq_timers (tq s) = []"
    using I by (simp add: main_inv_def)
  have emptied: "event_done reg sink_ok s (s\<lparr>kern := k, lp_signal := b\<rparr>)" if "reg k = reg (kern s)" for k b
  proof -
    have "s\<lparr>kern := k, lp_signal := b\<rparr> = s\<lparr>lp_signal := b, kern := k\<rparr>"
      by simp
    moreover have "handed_on reg sink_ok (s\<lparr>lp_signal := b\<rparr>) (s\<lparr>lp_signal := b\<rparr>\<lparr>kern := k\<rparr>)"
      by (rule handed_on_kern) (simp_all add: that z)
    ultimately show ?thesis
      unfolding event_done_def by (intro exI[of _ b]) (simp only:)
  qed
  from cases show ?thesis
  proof (elim disjE bexE)
    assume p: "p = EloopChan"
    show ?thesis
      unfolding pr p by (rule runs_mono[OF loop_main_faults[OF eloop_event[OF K rev]]]) (use emptied in blast)
  next
    assume p: "p = TimeChan"
    have "event_done reg sink_ok s (s\<lparr>kern := k\<rparr>)" if "reg k = reg (kern s)" for k
      using emptied[OF that, of "lp_signal s"] by simp
    then show ?thesis
      unfolding pr p by (intro runs_mono[OF loop_main_faults[OF idle_time_event[OF K rev q]]]) blast
  next
    fix port
    assume "port \<in> set (map fst (mr_Acceptors s))" and p: "p = AcceptChan port"
    then obtain a where a: "map_of (mr_Acceptors s) port = Some a"
      by (metis map_of_eq_None_iff not_None_eq set_map)
    have "event_done reg sink_ok s s"
      using handed_on_done[OF handed_on_kern[of reg "kern s" s sink_ok]] z by simp
    moreover have "runs main_faults (Acceptor_handleRead os cb a s) (event_done reg sink_ok s)"
      by (rule runs_mono[OF handleRead_hands_on[OF S K z] handed_on_done])
    ultimately have "runs main_faults (channel_handle (Acceptor_handleRead os cb a) no_callback rev s) (event_done reg sink_ok s)"
      using rev by (simp add: channel_handle_def rbind_ret)
    then show ?thesis
      by (simp add: pr p handle_channel_def main_owner_def main_channel_def a)
  qed
qed

end

sublocale connection_sink \<subseteq> acc: loop_client os "main_owner os cb" main_faults "main_good os ep reg mu sink_ok" main_evs_ok
  "\<lambda>_. main_rely os reg sink_ok"
proof (unfold_locales, goal_cases)
  case (1 s)
  then have w: "epoll_wait_spec os ep reg mu" and I: "main_inv ep reg s" and ep: "epfd s = ep" and z: "sink_ok (mainr.more s)"
    by (simp_all add: main_good_def main_inv_def loop_inv_def)
  have "main_good os ep reg mu sink_ok [] (s\<lparr>kern := k\<rparr>) \<and> main_evs_ok (turn_order chs) (s\<lparr>kern := k\<rparr>)"
    if "reg k = reg (kern s)" "distinct (map fst chs)" "\<forall>x \<in> set chs. reported reg (kern s) x" for chs k
  proof -
    have I': "main_inv ep reg (s\<lparr>kern := k\<rparr>)"
      by (rule main_inv_cong[OF I]) (simp_all add: that(1))
    have "reported reg k = reported reg (kern s)"
      using that(1) by (simp add: reported_def)
    then show ?thesis
      using main_reported[OF I' that(2)] that(3) I' 1 by (simp add: main_good_def)
  qed
  moreover have "signalled s \<or> os_ready os ep (kern s)"
    using 1(2) ep by (auto simp: asleep_def)
  ultimately show ?case
    unfolding ep by (intro runs_mono[OF loop_main_faults[OF epoll_poll_runs[OF w]]]) auto
next
  case (2 s e es)
  have "main_good os ep reg mu sink_ok [] s' \<and> main_evs_ok es s'" if "event_done reg sink_ok s s'" for s'
    using 2 event_done_same(1)[OF that] event_done_same(2)[OF that, of ep] by (auto simp: main_good_def main_evs_ok_def)
  then show ?case
    using 2 by (intro runs_mono[OF main_event_runs[where e = e and es = es]]) (auto simp: main_good_def)
next
  case (3 s)
  have "main_inv ep reg (s\<lparr>lp_tasks := []\<rparr>)" if "main_inv ep reg s"
    by (rule main_inv_cong[OF that]) simp_all
  then show ?case
    using 3 by (simp add: main_good_def)
next
  case (4 t ts s)
  show ?case
  proof (cases t)
    case (MListen port)
    then show ?thesis
      using 4 by (auto simp: main_owner_def main_task_run_def main_good_def intro!: runs_mono[OF main_listen_runs])
  next
    case MStop
    then show ?thesis
      using 4 by (auto simp: main_owner_def main_task_run_def main_good_def intro!: runs_mono[OF main_stop_runs])
  qed
next
  case (5 ts s s')
  then show ?case
    using main_rely_keeps unfolding main_good_def by blast
next
  case (6 s es s')
  then have "mr_Acceptors s' = mr_Acceptors s"
    using main_rely_keeps unfolding main_good_def by blast
  then show ?case
    using 6(2) by (simp add: main_evs_ok_def)
qed

end
