(* ===== verification/Server.thy ===== *)
theory Server
  imports MainInv SubReactor ThreadPool
begin

section \<open>Server: one accepting loop, several serving loops\<close>

text \<open>
  Models \<open>class Server\<close> (include/Server.h, src/server/Server.cpp): the sub-reactors, the thread pool
  and the round-robin distribution of accepted connections, on top of the main reactor.
\<close>

subsection \<open>State\<close>

text \<open>
  The server's record extends that of its main reactor, whose callback for new connections is
  \<open>handleNewConnection\<close>. A sub-reactor's \<open>kern\<close> counts only while its code runs: there is one kernel,
  which is lent to it. \<open>sv_sockets\<close> numbers the \<open>Socket\<close> objects that \<open>accept\<close> has created: their
  addresses, the keys of \<open>Connections\<close>. No such object is ever destroyed (see SubSafety.thy), so
  numbers are never used again. A job of the pool holds the loop to which its response goes back: it is
  tagged with the number of the sub-reactor.
\<close>

record 'k server = "'k mainr" +
  sv_useThreadPool :: bool
  sv_threadpool :: "(nat \<times> job) tp option"
  sv_SubReactors :: "'k subr list"
  sv_subIdx :: int
  sv_sockets :: nat

text \<open>The code of one sub-reactor, called from the thread that holds the kernel.\<close>

definition on_sub ::
  "int \<Rightarrow> ('k subr \<Rightarrow> 'k subr outcome) \<Rightarrow> 'k server \<Rightarrow> 'k server outcome" where
  "on_sub i f s =
     (if 0 \<le> i \<and> i < int (length (sv_SubReactors s)) then
        ebind (f ((sv_SubReactors s ! nat i)\<lparr>kern := kern s\<rparr>)) (\<lambda>sub.
          Inr (s\<lparr>kern := kern sub, sv_SubReactors := (sv_SubReactors s)[nat i := sub]\<rparr>))
      else Inl (Undefined ''SubReactors out of range''))"

subsection \<open>Operations\<close>

text \<open>
  Both branches of the code queue the connection on the sub-reactor; with the pool the task also
  carries the function that submits jobs, which Connection.thy models by \<open>submit_job\<close>.
\<close>

definition handleNewConnection :: "'k os \<Rightarrow> socket \<Rightarrow> 'k server \<Rightarrow> 'k server outcome" where
  "handleNewConnection os sck s =
     ebind (on_sub (sv_subIdx s) (SubReactor_addConnection os (sv_sockets s) sck) s) (\<lambda>s1.
       Inr (s1\<lparr>sv_subIdx := (sv_subIdx s1 + 1) mod int (length (sv_SubReactors s1)), sv_sockets := sv_sockets s1 + 1\<rparr>))"

fun new_SubReactors :: "'k os \<Rightarrow> bool \<Rightarrow> nat \<Rightarrow> 'k \<Rightarrow> ('k subr list \<times> 'k) outcome" where
  "new_SubReactors os f 0 k = Inr ([], k)"
| "new_SubReactors os f (Suc n) k =
     ebind (SubReactor_new os f k) (\<lambda>sub. ebind (new_SubReactors os f n (kern sub)) (\<lambda>(subs, k'). Inr (sub # subs, k')))"

text \<open>\<open>hw\<close> is the value of \<open>std::thread::hardware_concurrency()\<close>, which is 0 when unknown.\<close>

definition Server_new :: "'k os \<Rightarrow> nat \<Rightarrow> bool \<Rightarrow> 'k \<Rightarrow> 'k server outcome" where
  "Server_new os hw f k =
     (let n = (if hw = 0 then 4 else hw);
          threadpool = (if f then Some (ThreadPool_new n) else None) in
      ebind (MainReactor_new os k) (\<lambda>m.
      ebind (new_SubReactors os f n (kern m)) (\<lambda>(subs, k1).
        Inr \<lparr>kern = k1, epfd = epfd m, tq = tq m, lp_tasks = lp_tasks m, lp_stop = lp_stop m, lp_fd = lp_fd m,
             lp_chan = lp_chan m, lp_signal = lp_signal m, mr_Acceptors = mr_Acceptors m, sv_useThreadPool = f, sv_threadpool = threadpool,
             sv_SubReactors = subs, sv_subIdx = 0, sv_sockets = 0\<rparr>)))"

definition Server_listenPort :: "'k os \<Rightarrow> int \<Rightarrow> 'k server \<Rightarrow> 'k server outcome" where
  "Server_listenPort os port s = MainReactor_listenPort os port s"

subsection \<open>The program\<close>

text \<open>The arguments of \<open>main\<close> after the program's name; \<open>None\<close> is the usage message with exit code 1.\<close>

definition server_args :: "string list \<Rightarrow> bool option" where
  "server_args args =
     (if args = [] then Some False
      else if length args = 2 \<and> args ! 0 = ''-t'' then
        (if args ! 1 = ''on'' then Some True else if args ! 1 = ''off'' then Some False else None)
      else None)"

text \<open>The state in which \<open>main\<close> starts the threads.\<close>

definition server_setup :: "'k os \<Rightarrow> nat \<Rightarrow> bool \<Rightarrow> 'k \<Rightarrow> 'k server outcome" where
  "server_setup os hw threadpool k = ebind (Server_new os hw threadpool k) (Server_listenPort os 8888)"

subsection \<open>The accepting side is safe\<close>

text \<open>The server's own invariant: the index is in the vector.\<close>

definition dispatch_ok :: "'k server \<Rightarrow> bool" where
  "dispatch_ok s \<longleftrightarrow> 0 \<le> sv_subIdx s \<and> sv_subIdx s < int (length (sv_SubReactors s))"

definition server_sink where
  "server_sink z \<longleftrightarrow> (\<exists>s :: 'k server. mainr.more s = z \<and> dispatch_ok s)"

lemma server_fields:
  fixes s s' :: "'k server"
  assumes "mainr.more s = mainr.more s'"
  shows "sv_subIdx s = sv_subIdx s' \<and> sv_SubReactors s = sv_SubReactors s' \<and> sv_sockets s = sv_sockets s' \<and>
    sv_threadpool s = sv_threadpool s' \<and> sv_useThreadPool s = sv_useThreadPool s'"
  using assms by (cases s; cases s'; simp)

lemma server_sink_ok: "server_sink (mainr.more s) \<longleftrightarrow> dispatch_ok s"
  by (auto simp: server_sink_def dispatch_ok_def dest: server_fields)

lemma handed_on_server:
  fixes s :: "'k server"
  assumes "reg k = reg (kern s)" and "s' = s\<lparr>kern := k, sv_SubReactors := subs, sv_subIdx := i, sv_sockets := n\<rparr>" and "dispatch_ok s'"
  shows "handed_on reg server_sink s s'"
  unfolding handed_on_def
proof (intro exI conjI)
  show "s' = mainr.more_update (\<lambda>_. mainr.more s') (s\<lparr>kern := k\<rparr>)"
    using assms(2) by (cases s) simp
qed (use assms in \<open>simp_all add: server_sink_ok\<close>)

text \<open>What a hand-over leaves: the connection in the queue of one sub-reactor, and the next index.\<close>

definition dispatched :: "'k registry \<Rightarrow> ('k \<Rightarrow> nat) \<Rightarrow> socket \<Rightarrow> 'k server \<Rightarrow> 'k subr \<Rightarrow> 'k server \<Rightarrow> bool" where
  "dispatched reg mu sck s sub s' \<longleftrightarrow>
     enqueued reg mu (TAddConnection (sv_sockets s) sck) ((sv_SubReactors s ! nat (sv_subIdx s))\<lparr>kern := kern s\<rparr>) sub \<and>
     s' = s\<lparr>kern := kern sub, sv_SubReactors := (sv_SubReactors s)[nat (sv_subIdx s) := sub],
            sv_subIdx := (sv_subIdx s + 1) mod int (length (sv_SubReactors s)), sv_sockets := sv_sockets s + 1\<rparr>"

lemma dispatchedD:
  assumes "dispatched reg mu sck s sub s'" and "dispatch_ok s"
  shows "reg (kern s') = reg (kern s)" "dispatch_ok s'"
proof -
  have "0 < int (length (sv_SubReactors s))"
    using assms(2) by (auto simp: dispatch_ok_def)
  note pos_mod_sign[OF this, of "sv_subIdx s + 1"] pos_mod_bound[OF this, of "sv_subIdx s + 1"]
  then show "reg (kern s') = reg (kern s)" "dispatch_ok s'"
    using assms by (auto simp: dispatched_def enqueued_def dispatch_ok_def)
qed

lemma dispatched_handed_on:
  assumes "dispatched reg mu sck s sub s'" and "dispatch_ok s"
  shows "handed_on reg server_sink s s'"
proof (rule handed_on_server)
  show "s' = s\<lparr>kern := kern sub, sv_SubReactors := (sv_SubReactors s)[nat (sv_subIdx s) := sub],
      sv_subIdx := (sv_subIdx s + 1) mod int (length (sv_SubReactors s)), sv_sockets := sv_sockets s + 1\<rparr>"
    using assms(1) by (simp add: dispatched_def)
  then show "reg (kern sub) = reg (kern s)"
    using dispatchedD(1)[OF assms] by simp
qed (rule dispatchedD(2)[OF assms])

lemma handleNewConnection_runs:
  assumes K: "kernel_ok os ep reg mu" and d: "dispatch_ok s"
  shows "runs main_faults (Some (handleNewConnection os sck s)) (\<lambda>s'. \<exists>sub. dispatched reg mu sck s sub s')"
proof -
  let ?sub = "(sv_SubReactors s ! nat (sv_subIdx s))\<lparr>kern := kern s\<rparr>"
  have "runs main_faults (Some (enqueueTask os (TAddConnection (sv_sockets s) sck) ?sub))
      (enqueued reg mu (TAddConnection (sv_sockets s) sck) ?sub)"
    by (rule enqueueTask_runs[OF K]) simp
  then show ?thesis
    using d by (cases "enqueueTask os (TAddConnection (sv_sockets s) sck) ?sub")
      (auto simp add: handleNewConnection_def on_sub_def SubReactor_addConnection_def dispatch_ok_def dispatched_def)
qed

text \<open>The interpretation: the server is a client that the accepting loop can work with.\<close>

interpretation srv: connection_sink os ep reg mu "handleNewConnection os" server_sink
  for os :: "'k os" and ep and reg :: "'k registry" and mu
proof (unfold_locales, goal_cases)
  case (1 s sck)
  then have d: "dispatch_ok s"
    by (simp add: server_sink_ok)
  show ?case
    by (rule runs_mono[OF handleNewConnection_runs[OF 1(1) d]])
      (blast intro: dispatched_handed_on[OF _ d])
qed

end
