(* ===== verification/ServerSafety.thy ===== *)
theory ServerSafety
  imports Server SubSafety
begin

section \<open>Accepting and distributing\<close>

text \<open>
  The main reactor with the server's callback in every history, its stop, and the distribution of the
  accepted connections over the sub-reactors.
\<close>

subsection \<open>Histories of the accepting loop\<close>

definition main_step ::
  "'k os \<Rightarrow> 'k registry \<Rightarrow> main_task phase \<times> 'k server \<Rightarrow> main_task phase \<times> 'k server \<Rightarrow> bool" where
  "main_step os reg c c' \<longleftrightarrow> loop_step os (main_owner os (handleNewConnection os)) c c' \<or>
     fst c' = fst c \<and> main_rely os reg server_sink (snd c) (snd c')"

lemma main_any_step: "main_step os reg = srv.acc.any_step os reg"
  by (simp add: fun_eq_iff main_step_def srv.acc.any_step_def)

lemma main_history_ok:
  assumes "kernel_ok os ep reg mu" and "epoll_wait_spec os ep reg mu" and "socket_spec os reg mu"
    and "main_inv ep reg s" and "dispatch_ok s" and "(main_step os reg)\<^sup>*\<^sup>* (Poll, s) c"
  shows "srv.acc.phase_ok os ep reg mu c"
proof (rule srv.acc.always_ok)
  show "(srv.acc.any_step os reg)\<^sup>*\<^sup>* (Poll, s) c"
    using assms(6) by (simp add: main_any_step)
  show "srv.acc.phase_ok os ep reg mu (Poll, s)"
    using assms by (simp add: main_good_def server_sink_ok)
qed

lemma main_phase_ok_inv: "srv.acc.phase_ok os ep reg mu c \<Longrightarrow> main_inv ep reg (snd c) \<and> dispatch_ok (snd c)"
  by (cases c; cases "fst c") (auto simp: main_good_def server_sink_ok)

text \<open>
  C7. The accepting side is safe. From a state as \<open>MainReactor\<close>'s constructor leaves it, in every history
  in which the control thread asks for ports and for the stop, the sub-reactors work and the clients
  connect, the next step of the main loop, unless it sleeps in \<open>epoll_wait\<close> with nothing ready, returns and can end the process only for a listed reason;
  every acceptor is registered in epoll for reading under its own port, and the index of the next
  sub-reactor is inside the vector.
\<close>

theorem main_reactor_safe:
  assumes "kernel_ok os ep reg mu" and "epoll_wait_spec os ep reg mu" and "socket_spec os reg mu"
    and "main_inv ep reg s" and "dispatch_ok s" and "(main_step os reg)\<^sup>*\<^sup>* (Poll, s) c"
  shows "(waits os c \<or> runs main_faults (loop_next os (main_owner os (handleNewConnection os)) c)
      (\<lambda>c'. main_inv ep reg (snd c') \<and> dispatch_ok (snd c'))) \<and> main_inv ep reg (snd c) \<and> dispatch_ok (snd c)"
proof -
  note ok = main_history_ok[OF assms]
  show ?thesis
    using runs_mono[OF srv.acc.next_runs[OF ok], of "\<lambda>c'. main_inv ep reg (snd c') \<and> dispatch_ok (snd c')"]
      main_phase_ok_inv[of os ep reg mu] main_phase_ok_inv[OF ok] by blast
qed

subsection \<open>Stopping\<close>

lemma main_events_keep_tasks:
  assumes S: "socket_spec os reg mu" and K: "kernel_ok os ep reg mu"
  shows "main_inv ep reg s \<Longrightarrow> dispatch_ok s \<Longrightarrow> main_evs_ok es s \<Longrightarrow>
    runs main_faults (run_all (handle_channel os (main_owner os (handleNewConnection os))) es s)
      (\<lambda>s'. main_inv ep reg s' \<and> dispatch_ok s' \<and> lp_tasks s' = lp_tasks s)"
proof (induction es arbitrary: s)
  case (Cons e es)
  have z: "server_sink (mainr.more s)"
    using Cons.prems by (simp add: server_sink_ok)
  show ?case
    unfolding run_all.simps
  proof (rule runs_bindI[OF srv.main_event_runs[OF S K Cons.prems(1) z Cons.prems(3)]])
    fix s1
    assume h: "event_done reg server_sink s s1"
    note same = event_done_same(1)[OF h]
    have 1: "main_inv ep reg s1" "dispatch_ok s1" "main_evs_ok es s1"
      using event_done_same(2)[OF h Cons.prems(1)] same Cons.prems(3) by (simp_all add: server_sink_ok main_evs_ok_def)
    show "runs main_faults (run_all (handle_channel os (main_owner os (handleNewConnection os))) es s1)
        (\<lambda>s'. main_inv ep reg s' \<and> dispatch_ok s' \<and> lp_tasks s' = lp_tasks s)"
      by (rule runs_mono[OF Cons.IH[OF 1]]) (simp add: same)
  qed
qed simp

text \<open>The control thread waits in \<open>join\<close> after it has enqueued the stop, so that no port is asked for later.\<close>

lemma main_tasks_close:
  fixes s :: "'k server"
  assumes S: "socket_spec os reg mu" and K: "kernel_ok os ep reg mu"
  shows "main_inv ep reg s \<Longrightarrow> ts \<noteq> [] \<Longrightarrow> last ts = MStop \<Longrightarrow>
    runs main_faults (run_all (ow_task (main_owner os (handleNewConnection os))) ts s)
      (\<lambda>s'. main_inv ep reg s' \<and> lp_stop s' \<and> mr_Acceptors s' = [])"
proof (induction ts arbitrary: s)
  case (Cons t ts)
  have step: "runs main_faults (ow_task (main_owner os (handleNewConnection os)) t s)
      (\<lambda>s'. main_inv ep reg s' \<and> (t = MStop \<longrightarrow> lp_stop s' \<and> mr_Acceptors s' = []))"
    by (cases t) (auto simp: main_owner_def main_task_run_def Cons.prems(1)
        intro!: runs_mono[OF main_listen_runs[OF S K Cons.prems(1)]] runs_mono[OF main_stop_runs[OF S K Cons.prems(1)]])
  show ?case
    unfolding run_all.simps
  proof (rule runs_bindI[OF step], elim conjE)
    fix s1 :: "'k server"
    assume 1: "main_inv ep reg s1" "t = MStop \<longrightarrow> lp_stop s1 \<and> mr_Acceptors s1 = []"
    show "runs main_faults (run_all (ow_task (main_owner os (handleNewConnection os))) ts s1)
        (\<lambda>s'. main_inv ep reg s' \<and> lp_stop s' \<and> mr_Acceptors s' = [])"
      using 1 Cons.IH[OF 1(1)] Cons.prems(3) by (cases ts) simp_all
  qed
qed simp

lemma main_stop_round:
  fixes s :: "'k server"
  assumes K: "kernel_ok os ep reg mu" and w: "epoll_wait_spec os ep reg mu" and S: "socket_spec os reg mu"
    and I: "main_inv ep reg s" "dispatch_ok s" and aw: "\<not> asleep os s" and t: "lp_tasks s \<noteq> []" "last (lp_tasks s) = MStop"
  shows "runs main_faults (loop_round os (main_owner os (handleNewConnection os)) s)
    (\<lambda>s'. main_inv ep reg s' \<and> lp_stop s' \<and> mr_Acceptors s' = [])"
  unfolding loop_round_order
proof (rule runs_bindI[OF srv.acc.poll_keeps[of os ep reg mu s]], simp add: main_good_def server_sink_ok assms, rule aw, clarify)
  fix chs k
  assume "main_good os ep reg mu server_sink [] (s\<lparr>kern := k\<rparr>)" and ev: "main_evs_ok (turn_order chs) (s\<lparr>kern := k\<rparr>)"
  then have 1: "main_inv ep reg (s\<lparr>kern := k\<rparr>)" "dispatch_ok (s\<lparr>kern := k\<rparr>)"
    using I(2) by (simp_all add: main_good_def dispatch_ok_def)
  show "runs main_faults (rbind (run_all (handle_channel os (main_owner os (handleNewConnection os))) (turn_order chs) (s\<lparr>kern := k\<rparr>))
      (\<lambda>s2. run_all (ow_task (main_owner os (handleNewConnection os))) (lp_tasks s2) (s2\<lparr>lp_tasks := []\<rparr>)))
      (\<lambda>s'. main_inv ep reg s' \<and> lp_stop s' \<and> mr_Acceptors s' = [])"
  proof (rule runs_bindI[OF main_events_keep_tasks[OF S K 1 ev]], elim conjE)
    fix s2 :: "'k server"
    assume "main_inv ep reg s2" and ts: "lp_tasks s2 = lp_tasks (s\<lparr>kern := k\<rparr>)"
    then have "main_inv ep reg (s2\<lparr>lp_tasks := []\<rparr>)"
      by (auto intro: main_inv_cong)
    from main_tasks_close[OF S K this] show "runs main_faults (run_all (ow_task (main_owner os (handleNewConnection os))) (lp_tasks s2) (s2\<lparr>lp_tasks := []\<rparr>))
        (\<lambda>s'. main_inv ep reg s' \<and> lp_stop s' \<and> mr_Acceptors s' = [])"
      using t by (simp add: ts)
  qed
qed

text \<open>
  C11. Stopping the accepting side ends its thread. \<open>stop\<close> wakes the loop, also from an \<open>epoll_wait\<close> in
  which nothing is ready and nothing will be, and the thread's function returns with the loop stopped,
  every acceptor destroyed, and no listening descriptor left in epoll.
\<close>

theorem main_reactor_stops:
  assumes "kernel_ok os ep reg mu" and "epoll_wait_spec os ep reg mu" and "socket_spec os reg mu"
    and "main_inv ep reg s0" and "dispatch_ok s0" and "\<not> lp_stop s0" and "MainReactor_stop os s0 = Inr s"
  shows "runs main_faults (main_thread os (handleNewConnection os) s)
    (\<lambda>s'. lp_stop s' \<and> mr_Acceptors s' = [] \<and> (\<forall>fd p m. reg (kern s') fd \<noteq> Some (AcceptChan p, m)))"
proof -
  have e: "enqueueTask os MStop s0 = Inr s"
    using assms(7) by (simp add: MainReactor_stop_def)
  note inv = enqueued_inv[OF assms(1,4) e]
  have "enqueued reg mu MStop s0 s"
    using enqueueTask_runs[OF assms(1), of main_faults MStop s0] e by simp
  then have q: "lp_tasks s \<noteq> []" "last (lp_tasks s) = MStop" "\<not> lp_stop s"
    using assms(6) by (auto simp: enqueued_def push_task_def)
  have "lp_signal s" and li: "loop_inv ep reg s"
    using \<open>enqueued reg mu MStop s0 s\<close> assms(6) inv by (auto simp: enqueued_def push_task_def main_inv_def)
  then have aw: "\<not> asleep os s"
    using loop_inv_signalled[OF li] by (simp add: asleep_def)
  have d: "dispatch_ok s"
    using assms(5) inv server_fields[of s s0] by (simp add: dispatch_ok_def)
  have closed: "\<forall>fd p m. reg (kern s') fd \<noteq> Some (AcceptChan p, m)" if "main_inv ep reg s'" "mr_Acceptors s' = []" for s' :: "'a server"
  proof clarify
    fix fd p m
    assume r: "reg (kern s') fd = Some (AcceptChan p, m)"
    then have "fd = lp_fd s' \<or> fd = tq_timeFd (tq s')"
      using that by (auto simp: main_inv_def)
    then show False
      using own_fds[OF that(1)] r by blast
  qed
  have "runs main_faults (rbind (loop_round os (main_owner os (handleNewConnection os)) s)
        (\<lambda>s'. loop os (main_owner os (handleNewConnection os)) s'))
      (\<lambda>s'. lp_stop s' \<and> mr_Acceptors s' = [] \<and> (\<forall>fd p m. reg (kern s') fd \<noteq> Some (AcceptChan p, m)))"
    by (rule runs_bindI[OF main_stop_round[OF assms(1-3) conjunct1[OF inv] d aw q(1,2)]]) (subst loop.simps, use closed in simp)
  then show ?thesis
    unfolding main_thread_def using q(3) by (subst loop.simps) simp
qed

subsection \<open>Round robin\<close>

fun accept_all :: "'k os \<Rightarrow> socket list \<Rightarrow> 'k server \<Rightarrow> 'k server outcome" where
  "accept_all os [] s = Inr s"
| "accept_all os (sck # scks) s = ebind (handleNewConnection os sck s) (accept_all os scks)"

text \<open>The connections of one sub-reactor, with their numbers.\<close>

definition share :: "nat \<Rightarrow> nat \<Rightarrow> nat \<Rightarrow> socket list \<Rightarrow> sub_task list" where
  "share n i first scks = map (\<lambda>(c, sck). TAddConnection c sck) (filter (\<lambda>(c, _). c mod n = i) (enumerate first scks))"

lemma share_simps [simp]:
  "share n i first [] = []"
  "share n i first (sck # scks) = (if first mod n = i then TAddConnection first sck # share n i (Suc first) scks else share n i (Suc first) scks)"
  by (simp_all add: share_def)

lemma handleNewConnection_effect:
  assumes "handleNewConnection os sck s = Inr s'" and "sv_subIdx s = int (sv_sockets s mod length (sv_SubReactors s))"
    and "\<forall>sub \<in> set (sv_SubReactors s). \<not> lp_stop sub"
  shows "length (sv_SubReactors s') = length (sv_SubReactors s) \<and> sv_sockets s' = Suc (sv_sockets s) \<and>
    sv_subIdx s' = int (Suc (sv_sockets s) mod length (sv_SubReactors s)) \<and> (\<forall>sub \<in> set (sv_SubReactors s'). \<not> lp_stop sub) \<and>
    (\<forall>i < length (sv_SubReactors s). lp_tasks (sv_SubReactors s' ! i) = lp_tasks (sv_SubReactors s ! i) @
      (if sv_sockets s mod length (sv_SubReactors s) = i then [TAddConnection (sv_sockets s) sck] else []))"
proof -
  let ?n = "length (sv_SubReactors s)" and ?i = "sv_sockets s mod length (sv_SubReactors s)"
  obtain sub where n: "?i < ?n" and sub: "SubReactor_addConnection os (sv_sockets s) sck ((sv_SubReactors s ! ?i)\<lparr>kern := kern s\<rparr>) = Inr sub"
    and s': "s' = s\<lparr>kern := kern sub, sv_SubReactors := (sv_SubReactors s)[?i := sub], sv_subIdx := (int ?i + 1) mod int ?n,
      sv_sockets := sv_sockets s + 1\<rparr>"
    using assms(1,2) by (auto simp: handleNewConnection_def on_sub_def ebind_eq_Inr split: if_splits)
  have "\<not> lp_stop (sv_SubReactors s ! ?i)"
    using assms(3) n by simp
  then have t: "lp_tasks sub = lp_tasks (sv_SubReactors s ! ?i) @ [TAddConnection (sv_sockets s) sck]" "\<not> lp_stop sub"
    using sub by (auto simp: SubReactor_addConnection_def enqueueTask_def wakeup_write_def push_task_def ebind_eq_Inr split: prod.splits)
  have "(int ?i + 1) mod int ?n = int (Suc (sv_sockets s) mod ?n)"
    by (simp add: zmod_int mod_simps add.commute)
  then show ?thesis
    using t n assms(3) by (auto simp: s' nth_list_update dest!: set_update_subset_insert[THEN subsetD])
qed

text \<open>The constructor leaves the server ready for the distribution.\<close>

lemma new_SubReactors_ready:
  "new_SubReactors os f n k = Inr (subs, k') \<Longrightarrow> length subs = n \<and> (\<forall>sub \<in> set subs. \<not> lp_stop sub \<and> lp_tasks sub = [])"
proof (induction n arbitrary: k subs k')
  case (Suc n)
  then obtain sub rest where s: "SubReactor_new os f k = Inr sub" "new_SubReactors os f n (kern sub) = Inr (rest, k')" "subs = sub # rest"
    by (auto simp: ebind_eq_Inr)
  have "\<not> lp_stop sub \<and> lp_tasks sub = []"
    using s(1) by (auto simp: SubReactor_new_def EventLoop_new_def ebind_eq_Inr split: prod.splits sum.splits)
  with Suc.IH[OF s(2)] s(3) show ?case
    by simp
qed simp

lemma Server_new_ready:
  assumes "Server_new os hw f k = Inr s"
  shows "length (sv_SubReactors s) = (if hw = 0 then 4 else hw) \<and> sv_subIdx s = int (sv_sockets s mod length (sv_SubReactors s)) \<and>
    dispatch_ok s \<and> (\<forall>sub \<in> set (sv_SubReactors s). \<not> lp_stop sub \<and> lp_tasks sub = [])"
  using assms by (auto simp: Server_new_def Let_def ebind_eq_Inr dispatch_ok_def dest!: new_SubReactors_ready split: if_splits)

text \<open>
  C8. Round robin: connection number \<open>c\<close> goes to sub-reactor \<open>c mod n\<close>, at the end of its queue and nowhere
  else, so that the queues receive the accepted connections in the order of their arrival and in
  shares that differ by at most one.
\<close>

theorem round_robin:
  assumes "accept_all os scks s = Inr s'" and "sv_subIdx s = int (sv_sockets s mod length (sv_SubReactors s))"
    and "\<forall>sub \<in> set (sv_SubReactors s). \<not> lp_stop sub"
  shows "length (sv_SubReactors s') = length (sv_SubReactors s) \<and>
    sv_subIdx s' = int ((sv_sockets s + length scks) mod length (sv_SubReactors s)) \<and>
    (\<forall>i < length (sv_SubReactors s). lp_tasks (sv_SubReactors s' ! i) =
      lp_tasks (sv_SubReactors s ! i) @ share (length (sv_SubReactors s)) i (sv_sockets s) scks)"
  using assms
proof (induction scks arbitrary: s)
  case (Cons sck scks)
  then obtain s1 where 1: "handleNewConnection os sck s = Inr s1" "accept_all os scks s1 = Inr s'"
    by (auto simp: ebind_eq_Inr)
  note eff = handleNewConnection_effect[OF 1(1) Cons.prems(2,3)]
  have "sv_subIdx s1 = int (sv_sockets s1 mod length (sv_SubReactors s1))" "\<forall>sub \<in> set (sv_SubReactors s1). \<not> lp_stop sub"
    using eff by simp_all
  from Cons.IH[OF 1(2) this] eff show ?case
    by auto
qed simp

subsection \<open>A kernel and a server for the witnesses\<close>

text \<open>The kernel \<open>hos\<close> with honest sockets: a new one is not registered, closing removes it from the interest list.\<close>

definition mk_socket :: "skern \<Rightarrow> (errno + int) \<times> skern" where
  "mk_socket k = (let fd = fold max (map fst (sk_interest k)) (max 0 (sk_next_fd k)) + 1 in (Inr fd, k\<lparr>sk_next_fd := fd\<rparr>))"

definition mk_close :: "int \<Rightarrow> skern \<Rightarrow> skern" where
  "mk_close fd k = k\<lparr>sk_closed := fd # sk_closed k, sk_interest := filter (\<lambda>x. fst x \<noteq> fd) (sk_interest k)\<rparr>"

definition mos :: "skern os" where
  "mos = hos\<lparr>os_socket := mk_socket, os_close := mk_close\<rparr>"

lemma mos_simps [simp]:
  "os_readv mos = sk_readv" "os_write mos = sk_write" "os_read8 mos fd k = (Inr 8, k)" "os_write8 mos fd k = (Inr 8, k)"
  "os_epoll_ctl mos = sk_epoll_ctl" "os_epoll_wait mos = hk_epoll_wait" "os_settime mos fd t k = (Inr (), k\<lparr>sk_armed := t\<rparr>)"
  "os_now mos = sk_now" "os_eventfd mos = hk_new_fd" "os_timerfd mos = hk_new_fd" "os_epoll_create mos = hk_new_fd"
  "os_close mos = mk_close" "os_socket mos = mk_socket" "os_getfl mos fd k = (0, k)"
  "os_setfl mos fd f k = k\<lparr>sk_nonblocking := (if f AND O_NONBLOCK = 0 then [] else [fd]) @ sk_nonblocking k\<rparr>"
  "os_reuseaddr mos fd k = k" "os_bind mos fd p k = (Inr (), k\<lparr>sk_bound := (fd, p) # sk_bound k\<rparr>)"
  "os_listen mos fd n k = (Inr (), k)" "os_accept mos = sk_accept" "os_ready mos = sk_ready"
  by (simp_all add: mos_def hos_def)

definition mk_supply :: "skern \<Rightarrow> nat" where
  "mk_supply k = hk_supply k + length (sk_accepts k)"

lemma mos_kernel_ok: "kernel_ok mos ep sk_reg mk_supply"
proof -
  have "sk_accepts (snd (sk_readv fd n k)) = sk_accepts k" "sk_accepts (snd (sk_write fd s k)) = sk_accepts k"
    "sk_accepts (snd (sk_epoll_ctl e op fd ev k)) = sk_accepts k" "sk_accepts (snd (sk_now k)) = sk_accepts k" for fd n s e op ev k
    by (simp_all add: sk_readv_def sk_write_def sk_epoll_ctl_def sk_now_def Let_def split: list.split sum.split ctl_op.split)
  moreover have "finite_supply hos ep hk_supply"
    using hos_kernel_ok[of ep] by (simp add: kernel_ok_def)
  ultimately have "finite_supply mos ep mk_supply"
    unfolding finite_supply_def mk_supply_def
    by (simp add: hk_supply_def sk_supply_def) (metis snd_conv add_less_cancel_right add_le_cancel_right)
  moreover have "write_bounded mos \<longleftrightarrow> write_bounded hos" "epoll_ctl_spec mos ep sk_reg \<longleftrightarrow> epoll_ctl_spec hos ep sk_reg"
    "epoll_ctl_complete mos ep sk_reg \<longleftrightarrow> epoll_ctl_complete hos ep sk_reg" "reg_kept mos sk_reg \<longleftrightarrow> reg_kept hos sk_reg"
    unfolding write_bounded_def epoll_ctl_spec_def epoll_ctl_complete_def reg_kept_def by (simp_all only: hos_simps mos_simps)
  ultimately show ?thesis
    using hos_kernel_ok[of ep] unfolding kernel_ok_def by blast
qed

lemma mos_epoll_wait: "epoll_wait_spec mos ep sk_reg mk_supply"
proof -
  have "sk_accepts (snd (hk_epoll_wait ep n k)) = sk_accepts k" for n k
    by (simp add: hk_epoll_wait_def Let_def split: list.split sum.split)
  then have mu: "mk_supply k' < mk_supply k \<longleftrightarrow> hk_supply k' < hk_supply k" if "hk_epoll_wait ep n k = (r, k')" for n k r k'
    using that unfolding mk_supply_def by (metis snd_conv add_less_cancel_right)
  show ?thesis
    unfolding epoll_wait_spec_def mos_simps
  proof (intro allI impI)
    fix n k r k'
    assume w: "hk_epoll_wait ep n k = (r, k')"
    then have "os_epoll_wait hos ep n k = (r, k')"
      by simp
    note law = hos_epoll_wait[of ep, unfolded epoll_wait_spec_def, rule_format, OF this, unfolded hos_simps]
    show "sk_reg k' = sk_reg k \<and> (r = Inl EINTR \<longrightarrow> mk_supply k' < mk_supply k \<and> (sk_ready ep k \<longrightarrow> sk_ready ep k')) \<and>
        (\<forall>evs. r = Inr evs \<longrightarrow> distinct (map fst evs) \<and> (\<forall>(p, rev) \<in> set evs. \<exists>fd m. sk_reg k fd = Some (p, m) \<and>
          (rev AND EPOLLIN \<noteq> 0 \<longrightarrow> m AND EPOLLIN \<noteq> 0) \<and> (rev AND EPOLLOUT \<noteq> 0 \<longrightarrow> m AND EPOLLOUT \<noteq> 0)))"
      using law mu[OF w] by simp
  qed
qed

lemma mos_fresh_fds: "fresh_fds mos sk_reg"
  using hos_fresh_fds unfolding fresh_fds_def by simp

lemma mos_sockets: "socket_spec mos sk_reg mk_supply"
proof -
  have "map_of (sk_interest k) (fold max (map fst (sk_interest k)) b + 1) = None" for k b
    using fold_max_ge[of b "map fst (sk_interest k)" "fold max (map fst (sk_interest k)) b + 1"]
    by (force simp: map_of_eq_None_iff)
  moreover have "0 \<le> fold max (map fst (sk_interest k)) (max 0 b) + 1" for k b
    using fold_max_ge[of "max 0 b" "map fst (sk_interest k)"] by force
  moreover have "sk_reg (snd (sk_accept fd k)) = sk_reg k" "fst (sk_accept fd k) = Inl EINTR \<longrightarrow> mk_supply (snd (sk_accept fd k)) < mk_supply k" for fd k
    by (auto simp: sk_accept_def sk_reg_def mk_supply_def hk_supply_def sk_supply_def split: list.split)
  ultimately show ?thesis
    unfolding socket_spec_def
    by (auto simp: mk_socket_def mk_close_def sk_reg_def map_of_filter_neq Let_def) (metis fst_conv snd_conv sk_reg_def)+
qed

text \<open>A server with two sub-reactors that is asked for port 8888 and gets one client.\<close>

definition main_kernel :: skern where
  "main_kernel = skern0\<lparr>sk_polls := [Inr [(EloopChan, EPOLLIN)], Inr [(AcceptChan 8888, EPOLLIN)]],
     sk_accepts := [Inr (30, ''peer'')]\<rparr>"

definition demo_main :: "skern mainr" where
  "demo_main =
     \<lparr>kern = main_kernel\<lparr>sk_next_fd := 6, sk_interest := [(6, TimeChan, EPOLLIN OR EPOLLET), (4, EloopChan, EPOLLIN OR EPOLLET)]\<rparr>,
      epfd = 5, tq = \<lparr>tq_timerId = 0, tq_timeFd = 6, tq_chan = \<lparr>ch_fd = 6, ch_events = EPOLLIN OR EPOLLET, ch_revents = 0, ch_inEpoll = True\<rparr>, tq_timers = []\<rparr>,
      lp_tasks = [], lp_stop = False, lp_fd = 4, lp_chan = \<lparr>ch_fd = 4, ch_events = EPOLLIN OR EPOLLET, ch_revents = 0, ch_inEpoll = True\<rparr>,
      lp_signal = False, mr_Acceptors = []\<rparr>"

lemma demo_main_new: "MainReactor_new mos main_kernel = Inr demo_main"
  by (simp add: MainReactor_new_def EventLoop_new_def Epoll_new_def TimerQueue_new_def enableReading_def epoll_updateChannel_def
      Channel_new_def sk_epoll_ctl_def hk_new_fd_def Let_def main_kernel_def skern0_def demo_main_def)

definition demo_server :: "skern server" where
  "demo_server = mainr.extend demo_main (server.fields False None [demo_sub, demo_sub] 0 0)"

lemma demo_server_simps [simp]:
  "kern demo_server = kern demo_main" "epfd demo_server = 5" "tq demo_server = tq demo_main" "lp_tasks demo_server = []"
  "lp_stop demo_server = False" "lp_signal demo_server = False" "lp_fd demo_server = 4" "lp_chan demo_server = lp_chan demo_main" "mr_Acceptors demo_server = []"
  "sv_SubReactors demo_server = [demo_sub, demo_sub]" "sv_subIdx demo_server = 0" "sv_sockets demo_server = 0"
  by (simp_all add: demo_server_def mainr.defs server.defs demo_main_def)

lemma demo_server_inv: "main_inv 5 sk_reg demo_server" "dispatch_ok demo_server"
proof -
  have "epfd demo_main = 5" "sk_reg main_kernel = (\<lambda>_. None)"
    by (simp_all add: demo_main_def main_kernel_def skern0_def sk_reg_def)
  from MainReactor_new_inv[OF mos_kernel_ok mos_fresh_fds this(2) demo_main_new this(1)]
  have "main_inv 5 sk_reg demo_main" ..
  then show "main_inv 5 sk_reg demo_server"
    by (rule main_inv_cong) (simp_all add: demo_main_def)
  show "dispatch_ok demo_server"
    by (simp add: dispatch_ok_def)
qed

definition demo_acceptor :: acceptor where
  "demo_acceptor = \<lparr>ac_port = 8888, ac_listenSck = \<lparr>so_fd = 7, so_port = 8888, so_peerAddr = []\<rparr>,
     ac_channel = \<lparr>ch_fd = 7, ch_events = EPOLLIN, ch_revents = 0, ch_inEpoll = True\<rparr>\<rparr>"

definition demo_listening :: "skern server" where
  "demo_listening = demo_server\<lparr>kern := (kern demo_main)\<lparr>sk_polls := tl (sk_polls main_kernel), sk_next_fd := 7, sk_nonblocking := [7],
      sk_bound := [(7, 8888)], sk_interest := (7, AcceptChan 8888, EPOLLIN) # sk_interest (kern demo_main)\<rparr>,
    mr_Acceptors := [(8888, demo_acceptor)]\<rparr>"

lemma demo_listen_turn:
  "loop_round mos (main_owner mos (handleNewConnection mos)) (demo_server\<lparr>lp_tasks := [MListen 8888], lp_signal := True\<rparr>) = ret demo_listening"
proof -
  have poll: "epoll_poll mos 5 True (kern demo_main) = ret ([(EloopChan, EPOLLIN)], (kern demo_main)\<lparr>sk_polls := tl (sk_polls main_kernel)\<rparr>)"
    by (subst epoll_poll.simps)
      (simp add: hk_epoll_wait_def MAX_EVENTS_def demo_main_def main_kernel_def true_report_def sk_reg_def
        EPOLLIN_def EPOLLOUT_def EPOLLET_def)
  have ev: "handle_channel mos (main_owner mos (handleNewConnection mos)) (EloopChan, EPOLLIN) s = ret (s\<lparr>lp_signal := False\<rparr>)" for s
    by (simp add: handle_channel_def channel_handle_def readCallback_def drain_counter.simps EPOLLIN_def EPOLLOUT_def)
  have "signalled (demo_server\<lparr>lp_tasks := [MListen 8888], lp_signal := True\<rparr>)"
    by (simp add: signalled_def demo_main_def EPOLLIN_def EPOLLET_def)
  moreover have "main_listen mos 8888 (demo_server\<lparr>kern := (kern demo_main)\<lparr>sk_polls := tl (sk_polls main_kernel)\<rparr>, lp_signal := False, lp_tasks := []\<rparr>) = Inr demo_listening"
    by (simp add: main_listen_def Acceptor_new_def Socket_listening_def mk_socket_def Let_def setNonBlocking_def O_NONBLOCK_def
        enableListen_def Channel_new_def epoll_updateChannel_def sk_epoll_ctl_def Acceptor_startListen_def startListen_def
        demo_listening_def demo_acceptor_def demo_main_def main_kernel_def skern0_def)
  moreover have "turn_order [(EloopChan, EPOLLIN)] = [(EloopChan, EPOLLIN)]"
    by (simp add: turn_order_def isTimeChannel_def)
  moreover have "ow_task (main_owner mos (handleNewConnection mos)) (MListen p) s = Some (main_listen mos p s)" for p s
    by (simp add: main_owner_def main_task_run_def)
  ultimately show ?thesis
    by (simp add: loop_round_order poll ev)
qed

text \<open>The next turn takes in the client and hands it to the first sub-reactor.\<close>

definition demo_new_client :: socket where
  "demo_new_client = \<lparr>so_fd = 30, so_port = 8888, so_peerAddr = ''peer''\<rparr>"

definition demo_accepting :: "skern server" where
  "demo_accepting = demo_listening\<lparr>kern := (kern demo_listening)\<lparr>sk_polls := [], sk_accepts := [], sk_nonblocking := [30, 7]\<rparr>,
     sv_SubReactors := [demo_sub\<lparr>lp_tasks := [TAddConnection 0 demo_new_client], lp_signal := True,
       kern := (kern demo_listening)\<lparr>sk_polls := [], sk_accepts := [], sk_nonblocking := [30, 7]\<rparr>\<rparr>, demo_sub],
     sv_subIdx := 1, sv_sockets := 1\<rparr>"

lemma demo_accept_turn: "loop_round mos (main_owner mos (handleNewConnection mos)) demo_listening = ret demo_accepting"
proof -
  let ?k = "(kern demo_listening)\<lparr>sk_polls := []\<rparr>"
  have poll: "epoll_poll mos 5 b (kern demo_listening) = ret ([(AcceptChan 8888, EPOLLIN)], ?k)" for b
    by (subst epoll_poll.simps)
      (simp add: hk_epoll_wait_def MAX_EVENTS_def sk_ready_def demo_listening_def demo_main_def main_kernel_def true_report_def sk_reg_def
        EPOLLIN_def EPOLLOUT_def EPOLLET_def)
  have acc: "acceptConnection mos (ac_listenSck demo_acceptor) ?k =
      ret (Some demo_new_client, ?k\<lparr>sk_accepts := [], sk_nonblocking := [30, 7]\<rparr>)"
    by (subst acceptConnection.simps)
      (simp add: sk_accept_def demo_listening_def demo_main_def main_kernel_def demo_acceptor_def Socket_accepted_def setNonBlocking_def
        O_NONBLOCK_def demo_new_client_def)
  have "handleNewConnection mos demo_new_client (demo_listening\<lparr>kern := ?k\<lparr>sk_accepts := [], sk_nonblocking := [30, 7]\<rparr>\<rparr>) = Inr demo_accepting"
    by (simp add: handleNewConnection_def on_sub_def SubReactor_addConnection_def enqueueTask_def wakeup_write_def push_task_def
        demo_accepting_def demo_listening_def demo_sub_def)
  then have "handle_channel mos (main_owner mos (handleNewConnection mos)) (AcceptChan 8888, EPOLLIN) (demo_listening\<lparr>kern := ?k\<rparr>) = ret demo_accepting"
    by (simp add: handle_channel_def main_owner_def main_channel_def demo_listening_def[THEN arg_cong, of mr_Acceptors] channel_handle_def
        EPOLLIN_def EPOLLOUT_def Acceptor_handleRead_def acc)
  moreover have "turn_order [(AcceptChan 8888, EPOLLIN)] = [(AcceptChan 8888, EPOLLIN)]" "epfd demo_listening = 5" "lp_tasks demo_accepting = []"
    by (simp_all add: turn_order_def isTimeChannel_def demo_listening_def demo_accepting_def)
  moreover have "demo_accepting\<lparr>lp_tasks := []\<rparr> = demo_accepting"
    using calculation(4) by (cases demo_accepting) simp
  ultimately show ?thesis
    by (simp add: loop_round_order poll)
qed

lemma main_steps_history: "loop_steps os (main_owner os (handleNewConnection os)) c c' \<Longrightarrow> (main_step os reg)\<^sup>*\<^sup>* c c'"
  by (erule rtranclp_mono[THEN predicate2D, rotated]) (auto simp: main_step_def)

lemma demo_listening_history: "(main_step mos sk_reg)\<^sup>*\<^sup>* (Poll, demo_server) (Poll, demo_listening)"
proof -
  let ?s = "demo_server\<lparr>lp_tasks := [MListen 8888], lp_signal := True\<rparr>"
  have "demo_server\<lparr>lp_tasks := [MListen 8888], kern := kern demo_main, lp_signal := True\<rparr> = ?s"
    using demo_server_simps(1) by (cases demo_server) simp
  then have "MainReactor_listenPort mos 8888 demo_server = Inr ?s"
    by (simp add: MainReactor_listenPort_def enqueueTask_def wakeup_write_def push_task_def)
  then have "main_step mos sk_reg (Poll, demo_server) (Poll, ?s)"
    by (auto simp: main_step_def intro: main_rely.listening)
  also have "(main_step mos sk_reg)\<^sup>*\<^sup>* (Poll, ?s) (Poll, demo_listening)"
    by (rule main_steps_history, rule round_steps[OF _ demo_listen_turn]) simp
  finally show ?thesis .
qed

lemma demo_main_history: "(main_step mos sk_reg)\<^sup>*\<^sup>* (Poll, demo_server) (Poll, demo_accepting)"
proof -
  note demo_listening_history
  also have "(main_step mos sk_reg)\<^sup>*\<^sup>* (Poll, demo_listening) (Poll, demo_accepting)"
    by (rule main_steps_history, rule round_steps[OF _ demo_accept_turn]) (simp add: demo_listening_def)
  finally show ?thesis .
qed

theorem main_reactor_safe_witness:
  "map fst (mr_Acceptors demo_listening) = [8888] \<and>
   runs main_faults (loop_next mos (main_owner mos (handleNewConnection mos)) (Poll, demo_listening))
      (\<lambda>c'. main_inv 5 sk_reg (snd c')) \<and>
   map lp_tasks (sv_SubReactors demo_accepting) = [[TAddConnection 0 demo_new_client], []] \<and> sv_subIdx demo_accepting = 1 \<and>
   main_inv 5 sk_reg demo_accepting"
proof -
  note safe = main_reactor_safe[OF mos_kernel_ok mos_epoll_wait mos_sockets demo_server_inv]
  have "\<not> waits mos (Poll, demo_listening)"
    by (simp add: asleep_def sk_ready_def demo_listening_def demo_main_def main_kernel_def)
  then have "runs main_faults (loop_next mos (main_owner mos (handleNewConnection mos)) (Poll, demo_listening))
      (\<lambda>c'. main_inv 5 sk_reg (snd c'))"
    using safe[OF demo_listening_history] by (elim conjE disjE) (simp, erule runs_mono, simp)
  then show ?thesis
    using safe[OF demo_main_history] by (simp add: demo_accepting_def demo_listening_def demo_sub_def)
qed

theorem main_reactor_stops_witness:
  "asleep mos demo_accepting \<and> mr_Acceptors demo_accepting \<noteq> [] \<and> (\<exists>s. MainReactor_stop mos demo_accepting = Inr s \<and>
     runs main_faults (main_thread mos (handleNewConnection mos) s) (\<lambda>s'. lp_stop s' \<and> mr_Acceptors s' = []))"
proof -
  have sleep: "asleep mos demo_accepting"
    by (simp add: asleep_def signalled_def sk_ready_def demo_accepting_def demo_listening_def)
  have ok: "main_inv 5 sk_reg demo_accepting" "dispatch_ok demo_accepting"
    using main_phase_ok_inv[OF main_history_ok[OF mos_kernel_ok mos_epoll_wait mos_sockets demo_server_inv demo_main_history]]
    by simp_all
  have run: "\<not> lp_stop demo_accepting"
    by (simp add: demo_accepting_def demo_listening_def)
  obtain s where s: "MainReactor_stop mos demo_accepting = Inr s"
    using run by (simp add: MainReactor_stop_def enqueueTask_def wakeup_write_def push_task_def)
  show ?thesis
    using runs_mono[OF main_reactor_stops[OF mos_kernel_ok mos_epoll_wait mos_sockets ok run s], of "\<lambda>s'. lp_stop s' \<and> mr_Acceptors s' = []"] s sleep
    by (auto simp: demo_accepting_def demo_listening_def)
qed

text \<open>Three clients for two sub-reactors.\<close>

theorem round_robin_witness:
  "\<exists>s. accept_all mos [demo_new_client, demo_client, demo_client] demo_server = Inr s \<and> sv_subIdx s = 1 \<and>
     map lp_tasks (sv_SubReactors s) =
       [[TAddConnection 0 demo_new_client, TAddConnection 2 demo_client], [TAddConnection 1 demo_client]]"
proof -
  obtain s where s: "accept_all mos [demo_new_client, demo_client, demo_client] demo_server = Inr s"
    by (simp add: handleNewConnection_def on_sub_def SubReactor_addConnection_def enqueueTask_def wakeup_write_def push_task_def demo_sub_def)
  have "\<forall>sub \<in> set (sv_SubReactors demo_server). \<not> lp_stop sub"
    by (simp add: demo_sub_def)
  note rr = round_robin[OF s _ this]
  have q: "lp_tasks (sv_SubReactors demo_server ! 0) = []" "lp_tasks (sv_SubReactors demo_server ! 1) = []"
    by (simp_all add: demo_sub_def)
  have "length (sv_SubReactors s) = 2" "sv_subIdx s = 1"
      "lp_tasks (sv_SubReactors s ! 0) = [TAddConnection 0 demo_new_client, TAddConnection 2 demo_client]"
      "lp_tasks (sv_SubReactors s ! 1) = [TAddConnection 1 demo_client]"
    using rr[THEN conjunct1] rr[THEN conjunct2, THEN conjunct1]
      rr[THEN conjunct2, THEN conjunct2, rule_format, of 0] rr[THEN conjunct2, THEN conjunct2, rule_format, of 1]
    unfolding q by (simp_all add: eval_nat_numeral mod_Suc)
  note eff = this
  obtain a b where "sv_SubReactors s = [a, b]"
    using eff(1) by (auto simp: numeral_2_eq_2 length_Suc_conv)
  then show ?thesis
    using s eff by auto
qed

end
