(* ===== verification/Program.thy ===== *)
theory Program
  imports ServerSafety
begin

section \<open>The whole program: control thread, reactors and workers\<close>

text \<open>
  Models \<open>Server::start\<close>, \<open>Server::stop\<close>, the \<open>start\<close> and \<open>stop\<close> of the reactors as far as they create
  and join threads (Server.cpp, MainReactor.cpp, SubReactor.cpp), and \<open>main\<close> (main.cpp) from its
  arguments to its return. All threads share one kernel, and the workers share one pool.
\<close>

subsection \<open>State\<close>

text \<open>A \<open>std::thread\<close> before \<open>start\<close>, while its loop runs (with the place in the turn), and when the loop has returned.\<close>

datatype 'p thread = Created | Active 'p | Ended

text \<open>Where the control thread is: the calls of \<open>main\<close>, \<open>Server::start\<close> and \<open>Server::stop\<close> in their order.\<close>

datatype ctl = StartSub nat | StartMain | Waiting | StopMain | JoinMain | StopSub nat | JoinSub nat | StopPool | JoinPool | Returned

record 'k program =
  pg_server :: "'k server"
  pg_main :: "main_task phase thread"
  pg_subs :: "sub_task phase thread list"
  pg_ctl :: ctl
  g_stop_requested :: bool

text \<open>Constructing a \<open>Server\<close> leaves its threads to be created by \<open>start\<close>.\<close>

definition program_new :: "'k server \<Rightarrow> 'k program" where
  "program_new s = \<lparr>pg_server = s, pg_main = Created, pg_subs = replicate (length (sv_SubReactors s)) Created,
     pg_ctl = StartSub 0, g_stop_requested = False\<rparr>"

text \<open>\<open>main\<close> up to \<open>start\<close>; \<open>None\<close> is the usage message and the exit code 1.\<close>

definition server_main :: "'k os \<Rightarrow> nat \<Rightarrow> string list \<Rightarrow> 'k \<Rightarrow> 'k program option outcome" where
  "server_main os hw args k =
     (case server_args args of
        None \<Rightarrow> Inr None
      | Some threadpool \<Rightarrow> ebind (server_setup os hw threadpool k) (\<lambda>s. Inr (Some (program_new s))))"

subsection \<open>Sharing the kernel and the pool\<close>

text \<open>
  A sub-reactor's own record is completed, while its code runs, by the kernel and by its part of the
  pool: the jobs whose response goes back to it. Without a pool there is none that could be stopped.
\<close>

definition pool_view :: "nat \<Rightarrow> (nat \<times> job) tp option \<Rightarrow> job pool \<Rightarrow> job pool" where
  "pool_view i tpo p =
     (case tpo of
        None \<Rightarrow> p\<lparr>pl_stop := False\<rparr>
      | Some t \<Rightarrow> \<lparr>pl_tasks = map snd (filter (\<lambda>j. fst j = i) (pl_tasks (tp_pool t))), pl_stop = pl_stop (tp_pool t)\<rparr>)"

definition lend :: "nat \<Rightarrow> 'k server \<Rightarrow> 'k subr" where
  "lend i s = (let sub = sv_SubReactors s ! i in
     sub\<lparr>kern := kern s, rc_pool := pool_view i (sv_threadpool s) (rc_pool sub)\<rparr>)"

text \<open>Each new job is a call of \<open>ThreadPool::enqueue\<close>, so a submission with its notification.\<close>

definition submit_all :: "'j list \<Rightarrow> 'j tp \<Rightarrow> 'j tp" where
  "submit_all js t =
     t\<lparr>tp_pool := (tp_pool t)\<lparr>pl_tasks := pl_tasks (tp_pool t) @ js\<rparr>, tp_pending := tp_pending t + length js,
       tp_submitted := tp_submitted t @ js\<rparr>"

definition give_back :: "nat \<Rightarrow> 'k subr \<Rightarrow> 'k server \<Rightarrow> 'k server" where
  "give_back i sub s =
     (let new = drop (length (pl_tasks (rc_pool (lend i s)))) (pl_tasks (rc_pool sub)) in
      s\<lparr>kern := kern sub, sv_threadpool := map_option (submit_all (map (Pair i) new)) (sv_threadpool s),
        sv_SubReactors := (sv_SubReactors s)[i := sub]\<rparr>)"

subsection \<open>The control thread\<close>

text \<open>\<open>onStopSignal\<close> only sets the flag.\<close>

definition onStopSignal :: "'k program \<Rightarrow> 'k program" where
  "onStopSignal p = p\<lparr>g_stop_requested := True\<rparr>"

text \<open>\<open>Server::start\<close>: the threads of the sub-reactors one after the other, then the one of the main reactor.\<close>

inductive start_step :: "'k program \<Rightarrow> 'k program \<Rightarrow> bool" where
  start_sub: "pg_ctl p = StartSub i \<Longrightarrow> i < length (pg_subs p) \<Longrightarrow>
    start_step p (p\<lparr>pg_subs := (pg_subs p)[i := Active Poll], pg_ctl := StartSub (Suc i)\<rparr>)"
| subs_started: "pg_ctl p = StartSub (length (pg_subs p)) \<Longrightarrow> start_step p (p\<lparr>pg_ctl := StartMain\<rparr>)"
| start_main: "pg_ctl p = StartMain \<Longrightarrow> start_step p (p\<lparr>pg_main := Active Poll, pg_ctl := Waiting\<rparr>)"

text \<open>The wait of \<open>main\<close> for the flag.\<close>

inductive wait_step :: "'k program \<Rightarrow> 'k program \<Rightarrow> bool" where
  asleep: "pg_ctl p = Waiting \<Longrightarrow> \<not> g_stop_requested p \<Longrightarrow> wait_step p p"
| signalled: "pg_ctl p = Waiting \<Longrightarrow> g_stop_requested p \<Longrightarrow> wait_step p (p\<lparr>pg_ctl := StopMain\<rparr>)"

text \<open>
  \<open>Server::stop\<close>: main reactor, sub-reactors in order, pool; each \<open>stop\<close> enqueues its task and joins
  the thread before the next one begins.
\<close>

inductive stop_step :: "'k os \<Rightarrow> 'k program \<Rightarrow> 'k program \<Rightarrow> bool" for os where
  stop_main: "pg_ctl p = StopMain \<Longrightarrow> MainReactor_stop os (pg_server p) = Inr s \<Longrightarrow>
    stop_step os p (p\<lparr>pg_server := s, pg_ctl := JoinMain\<rparr>)"
| join_main: "pg_ctl p = JoinMain \<Longrightarrow> pg_main p = Ended \<Longrightarrow> stop_step os p (p\<lparr>pg_ctl := StopSub 0\<rparr>)"
| stop_sub: "pg_ctl p = StopSub i \<Longrightarrow> i < length (pg_subs p) \<Longrightarrow>
    on_sub (int i) (SubReactor_stop os) (pg_server p) = Inr s \<Longrightarrow>
    stop_step os p (p\<lparr>pg_server := s, pg_ctl := JoinSub i\<rparr>)"
| join_sub: "pg_ctl p = JoinSub i \<Longrightarrow> pg_subs p ! i = Ended \<Longrightarrow> stop_step os p (p\<lparr>pg_ctl := StopSub (Suc i)\<rparr>)"
| subs_stopped: "pg_ctl p = StopSub (length (pg_subs p)) \<Longrightarrow>
    stop_step os p (p\<lparr>pg_ctl := (if sv_useThreadPool (pg_server p) then StopPool else Returned)\<rparr>)"
| stop_pool: "pg_ctl p = StopPool \<Longrightarrow> sv_threadpool (pg_server p) = Some t \<Longrightarrow>
    stop_step os p (p\<lparr>pg_server := (pg_server p)\<lparr>sv_threadpool := Some (t\<lparr>tp_pool := (tp_pool t)\<lparr>pl_stop := True\<rparr>, tp_bcast := True\<rparr>)\<rparr>,
      pg_ctl := JoinPool\<rparr>)"
| join_pool: "pg_ctl p = JoinPool \<Longrightarrow> sv_threadpool (pg_server p) = Some t \<Longrightarrow> all_joined t \<Longrightarrow>
    stop_step os p (p\<lparr>pg_ctl := Returned\<rparr>)"

subsection \<open>The other threads\<close>

text \<open>One step of the accepting loop, or the end of its thread.\<close>

inductive main_thread_step :: "'k os \<Rightarrow> 'k program \<Rightarrow> 'k program \<Rightarrow> bool" for os where
  main_turn: "pg_main p = Active ph \<Longrightarrow>
    loop_step os (main_owner os (handleNewConnection os)) (ph, pg_server p) (ph', s) \<Longrightarrow>
    main_thread_step os p (p\<lparr>pg_server := s, pg_main := Active ph'\<rparr>)"
| main_end: "pg_main p = Active ph \<Longrightarrow> loop_ended (ph, pg_server p) \<Longrightarrow> main_thread_step os p (p\<lparr>pg_main := Ended\<rparr>)"

text \<open>One step of a serving loop, or the end of its thread.\<close>

inductive sub_thread_step :: "'k os \<Rightarrow> (conn_id list \<Rightarrow> conn_id list) \<Rightarrow> 'k program \<Rightarrow> 'k program \<Rightarrow> bool" for os it where
  sub_turn: "i < length (pg_subs p) \<Longrightarrow> pg_subs p ! i = Active ph \<Longrightarrow>
    loop_step os (sub_owner os it) (ph, lend i (pg_server p)) (ph', sub) \<Longrightarrow>
    sub_thread_step os it p (p\<lparr>pg_server := give_back i sub (pg_server p), pg_subs := (pg_subs p)[i := Active ph']\<rparr>)"
| sub_end: "i < length (pg_subs p) \<Longrightarrow> pg_subs p ! i = Active ph \<Longrightarrow> loop_ended (ph, lend i (pg_server p)) \<Longrightarrow>
    sub_thread_step os it p (p\<lparr>pg_subs := (pg_subs p)[i := Ended]\<rparr>)"

text \<open>
  One step of a worker or of the condition variable; a worker that finishes a job enqueues the
  response on the job's loop.
\<close>

inductive worker_step :: "'k os \<Rightarrow> 'k program \<Rightarrow> 'k program \<Rightarrow> bool" for os where
  pool: "sv_threadpool (pg_server p) = Some t \<Longrightarrow> tp_step t t' \<or> tp_spurious t t' \<Longrightarrow>
    tp_submitted t' = tp_submitted t \<Longrightarrow> tp_finished t' = tp_finished t \<Longrightarrow> pl_stop (tp_pool t') = pl_stop (tp_pool t) \<Longrightarrow>
    worker_step os p (p\<lparr>pg_server := (pg_server p)\<lparr>sv_threadpool := Some t'\<rparr>\<rparr>)"
| respond: "sv_threadpool (pg_server p) = Some t \<Longrightarrow> w < length (tp_workers t) \<Longrightarrow> tp_workers t ! w = Running (i, j) \<Longrightarrow>
    on_sub (int i) (enqueueTask os (worker_job j)) (pg_server p) = Inr s \<Longrightarrow>
    worker_step os p (p\<lparr>pg_server := s\<lparr>sv_threadpool :=
      Some (t\<lparr>tp_workers := (tp_workers t)[w := Checking], tp_finished := tp_finished t @ [(i, j)]\<rparr>)\<rparr>\<rparr>)"

text \<open>\<open>env\<close> is what the clients and the hardware do to the kernel.\<close>

inductive outside_step :: "('k \<Rightarrow> 'k \<Rightarrow> bool) \<Rightarrow> 'k program \<Rightarrow> 'k program \<Rightarrow> bool" for env where
  signal: "outside_step env p (onStopSignal p)"
| clients: "env (kern (pg_server p)) k \<Longrightarrow> outside_step env p (p\<lparr>pg_server := (pg_server p)\<lparr>kern := k\<rparr>\<rparr>)"

definition inside_step :: "'k os \<Rightarrow> (conn_id list \<Rightarrow> conn_id list) \<Rightarrow> 'k program \<Rightarrow> 'k program \<Rightarrow> bool" where
  "inside_step os it p p' \<longleftrightarrow> start_step p p' \<or> wait_step p p' \<or> stop_step os p p' \<or>
     main_thread_step os p p' \<or> sub_thread_step os it p p' \<or> worker_step os p p'"

definition prog_step ::
  "'k os \<Rightarrow> (conn_id list \<Rightarrow> conn_id list) \<Rightarrow> ('k \<Rightarrow> 'k \<Rightarrow> bool) \<Rightarrow> 'k program \<Rightarrow> 'k program \<Rightarrow> bool" where
  "prog_step os it env p p' \<longleftrightarrow> inside_step os it p p' \<or> outside_step env p p'"

end
