(* ===== verification/Machine.thy ===== *)
theory Machine
  imports ServerSafety
begin

section \<open>One kernel for several loops\<close>

text \<open>
  The theories on the reactors look at one epoll instance. Here the kernel has an interest list for
  each instance and a set of open descriptors, and the laws say that the instances are separate and
  that a new descriptor is not open. From them follows what a step of one loop leaves alone.
\<close>

subsection \<open>The laws\<close>

type_synonym 'k instances = "'k \<Rightarrow> int \<Rightarrow> int \<Rightarrow> (chan_id \<times> 32 word) option"

abbreviation reg_of :: "'k instances \<Rightarrow> int \<Rightarrow> 'k registry" where
  "reg_of regs ep \<equiv> (\<lambda>k. regs k ep)"

text \<open>\<open>beside ep k k'\<close>: at most the interest list of \<open>ep\<close> has changed, and nothing was opened or closed.\<close>

definition beside :: "'k instances \<Rightarrow> ('k \<Rightarrow> int set) \<Rightarrow> int \<Rightarrow> 'k \<Rightarrow> 'k \<Rightarrow> bool" where
  "beside regs opens ep k k' \<longleftrightarrow> (\<forall>e. e \<noteq> ep \<longrightarrow> regs k' e = regs k e) \<and> opens k' = opens k"

definition opened :: "('k \<Rightarrow> int set) \<Rightarrow> 'k \<Rightarrow> errno + int \<Rightarrow> 'k \<Rightarrow> bool" where
  "opened opens k r k' \<longleftrightarrow>
     (case r of Inl e \<Rightarrow> opens k' = opens k | Inr fd \<Rightarrow> fd \<notin> opens k \<and> opens k' = insert fd (opens k))"

text \<open>
  epoll_ctl(2) and epoll_wait(2) work on the instance they name; the calls that make a descriptor
  return one that is not open; close(2) closes the one it names; no other call opens or closes one. A
  new epoll instance is empty.
\<close>

definition apart :: "'k os \<Rightarrow> 'k instances \<Rightarrow> ('k \<Rightarrow> int set) \<Rightarrow> bool" where
  "apart os regs opens \<longleftrightarrow>
     (\<forall>ep op fd ev k. beside regs opens ep k (snd (os_epoll_ctl os ep op fd ev k))) \<and>
     (\<forall>ep n k. beside regs opens ep k (snd (os_epoll_wait os ep n k))) \<and>
     (\<forall>fd n k. opens (snd (os_readv os fd n k)) = opens k) \<and>
     (\<forall>fd s k. opens (snd (os_write os fd s k)) = opens k) \<and>
     (\<forall>fd k. opens (snd (os_read8 os fd k)) = opens k) \<and>
     (\<forall>fd k. opens (snd (os_write8 os fd k)) = opens k) \<and>
     (\<forall>fd t k. opens (snd (os_settime os fd t k)) = opens k) \<and>
     (\<forall>k. opens (snd (os_now os k)) = opens k) \<and>
     (\<forall>fd k. opens (snd (os_getfl os fd k)) = opens k) \<and>
     (\<forall>fd f k. opens (os_setfl os fd f k) = opens k) \<and>
     (\<forall>fd k. opens (os_reuseaddr os fd k) = opens k) \<and>
     (\<forall>fd p k. opens (snd (os_bind os fd p k)) = opens k) \<and>
     (\<forall>fd n k. opens (snd (os_listen os fd n k)) = opens k) \<and>
     (\<forall>k. opened opens k (fst (os_eventfd os k)) (snd (os_eventfd os k))) \<and>
     (\<forall>k. opened opens k (fst (os_timerfd os k)) (snd (os_timerfd os k))) \<and>
     (\<forall>k. opened opens k (fst (os_socket os k)) (snd (os_socket os k))) \<and>
     (\<forall>fd k. opened opens k (map_sum id fst (fst (os_accept os fd k))) (snd (os_accept os fd k))) \<and>
     (\<forall>k. opened opens k (fst (os_epoll_create os k)) (snd (os_epoll_create os k))) \<and>
     (\<forall>k ep k'. os_epoll_create os k = (Inr ep, k') \<longrightarrow> regs k ep = (\<lambda>_. None)) \<and>
     (\<forall>fd k. opens (os_close os fd k) = opens k - {fd})"

definition machine_ok :: "'k os \<Rightarrow> 'k instances \<Rightarrow> ('k \<Rightarrow> int set) \<Rightarrow> ('k \<Rightarrow> nat) \<Rightarrow> bool" where
  "machine_ok os regs opens mu \<longleftrightarrow>
     (\<forall>ep. kernel_ok os ep (reg_of regs ep) mu \<and> epoll_wait_spec os ep (reg_of regs ep) mu \<and>
           socket_spec os (reg_of regs ep) mu \<and> fresh_fds os (reg_of regs ep)) \<and>
     apart os regs opens"

lemma beside_refl [simp]: "beside regs opens ep k k"
  by (simp add: beside_def)

lemma beside_trans: "beside regs opens ep a b \<Longrightarrow> beside regs opens ep b c \<Longrightarrow> beside regs opens ep a c"
  by (simp add: beside_def)

lemma machine_okD:
  assumes "machine_ok os regs opens mu"
  shows "kernel_ok os ep (reg_of regs ep) mu" "epoll_wait_spec os ep (reg_of regs ep) mu"
    "socket_spec os (reg_of regs ep) mu" "fresh_fds os (reg_of regs ep)" "apart os regs opens"
  using assms by (simp_all add: machine_ok_def)

subsection \<open>What a loop does to the kernel stays in its instance\<close>

text \<open>
  \<open>boost\<close> turns the supply into a measure that also grows as soon as something outside \<open>ep\<close> has
  changed since \<open>k0\<close>. It is a supply again, so whatever is proved for every supply bounds it.
\<close>

definition boost :: "'k instances \<Rightarrow> ('k \<Rightarrow> int set) \<Rightarrow> int \<Rightarrow> ('k \<Rightarrow> nat) \<Rightarrow> 'k \<Rightarrow> 'k \<Rightarrow> nat" where
  "boost regs opens ep mu k0 k = mu k + (if beside regs opens ep k0 k then 0 else Suc (mu k0))"

lemma boost_beside: "boost regs opens ep mu k0 k \<le> boost regs opens ep mu k0 k0 \<Longrightarrow> beside regs opens ep k0 k"
  by (auto simp: boost_def split: if_splits)

lemma boost_step:
  assumes "beside regs opens ep k k'"
  shows "mu k' \<le> mu k \<Longrightarrow> boost regs opens ep mu k0 k' \<le> boost regs opens ep mu k0 k"
    and "mu k' < mu k \<Longrightarrow> boost regs opens ep mu k0 k' < boost regs opens ep mu k0 k"
  using beside_trans[OF _ assms, of k0] by (auto simp: boost_def)

lemma beside_calls:
  assumes "machine_ok os regs opens mu"
  shows "beside regs opens ep k (snd (os_readv os fd n k))" "beside regs opens ep k (snd (os_write os fd w k))"
    "beside regs opens ep k (snd (os_read8 os fd k))" "beside regs opens ep k (snd (os_write8 os fd k))"
    "beside regs opens ep k (snd (os_epoll_ctl os ep op fd ev k))" "beside regs opens ep k (snd (os_settime os fd t k))"
    "beside regs opens ep k (snd (os_now os k))" "beside regs opens ep k (snd (os_epoll_wait os ep n k))"
proof -
  have "reg_kept os (reg_of regs e)" for e
    using machine_okD(1)[OF assms, of e] by (simp add: kernel_ok_def)
  note kept = this[unfolded reg_kept_def]
  have "apart os regs opens"
    using machine_okD(5)[OF assms] .
  with kept show "beside regs opens ep k (snd (os_readv os fd n k))" "beside regs opens ep k (snd (os_write os fd w k))"
      "beside regs opens ep k (snd (os_read8 os fd k))" "beside regs opens ep k (snd (os_write8 os fd k))"
      "beside regs opens ep k (snd (os_epoll_ctl os ep op fd ev k))" "beside regs opens ep k (snd (os_settime os fd t k))"
      "beside regs opens ep k (snd (os_now os k))" "beside regs opens ep k (snd (os_epoll_wait os ep n k))"
    by (simp_all add: apart_def beside_def)
qed

lemma boosted:
  assumes M: "machine_ok os regs opens mu"
  shows "kernel_ok os ep (reg_of regs ep) (boost regs opens ep mu k0)"
proof -
  have K: "kernel_ok os ep (reg_of regs ep) mu"
    using machine_okD(1)[OF M] .
  then have F: "finite_supply os ep mu"
    by (simp add: kernel_ok_def)
  let ?b = "boost regs opens ep mu k0"
  have "?b k' \<le> ?b k \<and> (r = Inl EINTR \<or> (\<exists>d. r = Inr d \<and> d \<noteq> []) \<longrightarrow> ?b k' < ?b k)" if "os_readv os fd n k = (r, k')" for fd n k r k'
    using F that boost_step[OF beside_calls(1)[OF M, of ep k fd n]] unfolding finite_supply_def by auto
  moreover have "?b k' \<le> ?b k \<and> (s \<noteq> [] \<and> (r = Inl EINTR \<or> r = Inr 0) \<longrightarrow> ?b k' < ?b k)" if "os_write os fd s k = (r, k')" for fd s k r k'
    using F that boost_step[OF beside_calls(2)[OF M, of ep k fd s]] unfolding finite_supply_def by auto
  moreover have "?b k' \<le> ?b k \<and> (r = Inl EINTR \<or> (\<exists>n. r = Inr n \<and> n \<noteq> 8) \<longrightarrow> ?b k' < ?b k)" if "os_read8 os fd k = (r, k')" for fd k r k'
    using F that boost_step[OF beside_calls(3)[OF M, of ep k fd]] unfolding finite_supply_def by auto
  ultimately have "finite_supply os ep ?b"
    using F boost_step(1)[OF beside_calls(4)[OF M]] boost_step(1)[OF beside_calls(5)[OF M]]
      boost_step(1)[OF beside_calls(6)[OF M]] boost_step(1)[OF beside_calls(7)[OF M]]
    unfolding finite_supply_def by simp
  with K show ?thesis
    by (simp add: kernel_ok_def)
qed

lemma poll_beside:
  assumes M: "machine_ok os regs opens mu"
  shows "epoll_poll os ep signal k = ret (chs, k') \<Longrightarrow> beside regs opens ep k k'"
proof (induction "mu k" arbitrary: k rule: less_induct)
  case less
  obtain r k1 where w: "os_epoll_wait os ep MAX_EVENTS k = (r, k1)"
    by fastforce
  have b: "beside regs opens ep k k1"
    using beside_calls(8)[OF M, of ep k MAX_EVENTS] w by simp
  show ?case
  proof (cases "r = Inl EINTR")
    case True
    then have "epoll_poll os ep signal k1 = ret (chs, k')"
      using less.prems by (subst (asm) epoll_poll.simps) (simp add: w split: if_splits)
    moreover have "mu k1 < mu k"
      using machine_okD(2)[OF M, of ep, unfolded epoll_wait_spec_def] w True by blast
    ultimately show ?thesis
      using less beside_trans[OF b] by simp
  next
    case False
    then show ?thesis
      using less.prems b by (subst (asm) epoll_poll.simps) (auto simp: w split: sum.splits if_splits)
  qed
qed

subsection \<open>A step of a sub-reactor\<close>

definition stop_asked :: "sub_task list \<Rightarrow> ('k, 'z) subr_scheme \<Rightarrow> bool" where
  "stop_asked ts s \<longleftrightarrow> TStop \<in> set (ts @ lp_tasks s) \<or> lp_stop s"

definition sub_effect ::
  "'k instances \<Rightarrow> ('k \<Rightarrow> int set) \<Rightarrow> sub_task list \<Rightarrow> ('k, 'z) subr_scheme \<Rightarrow> sub_task list \<Rightarrow> ('k, 'z) subr_scheme \<Rightarrow> bool" where
  "sub_effect regs opens ts s ts' s' \<longleftrightarrow> beside regs opens (epfd s) (kern s) (kern s') \<and> epfd s' = epfd s \<and>
     sockets ts' s' = sockets ts s \<and> lp_fd s' = lp_fd s \<and> tq_timeFd (tq s') = tq_timeFd (tq s) \<and>
     (stop_asked ts s \<longrightarrow> stop_asked ts' s') \<and>
     pl_stop (rc_pool s') = pl_stop (rc_pool s) \<and> (\<exists>js. pl_tasks (rc_pool s') = pl_tasks (rc_pool s) @ js)"

lemma sub_inv_epfd: "sub_inv ep reg ts s \<Longrightarrow> epfd s = ep"
  by (simp add: sub_inv_def loop_inv_def)

lemma moved_effect:
  assumes "moved (boost regs opens ep mu (kern s)) ts s ts' s'" and "sub_inv ep reg us s" and "sub_inv ep reg us' s'"
    and "TStop \<in> set ts \<longrightarrow> TStop \<in> set ts' \<or> lp_stop s'"
  shows "sub_effect regs opens ts s ts' s'"
proof -
  have "epfd s = ep" "epfd s' = ep"
    using sub_inv_epfd assms(2,3) by blast+
  moreover have "beside regs opens ep (kern s) (kern s')"
    using assms(1) by (intro boost_beside[where mu = mu]) (simp add: moved_def)
  ultimately show ?thesis
    using assms(1,4) by (auto simp: sub_effect_def moved_def stop_asked_def)
qed

lemma sub_step_effect:
  assumes M: "machine_ok os regs opens mu" and ok: "sub.phase_ok os it ep (reg_of regs ep) mu (ph, s)"
    and step: "loop_step os (sub_owner os it) (ph, s) (ph', s')"
  shows "sub_effect regs opens (pending ph) s (pending ph') s'"
proof -
  let ?mu = "boost regs opens ep mu (kern s)"
  note K = boosted[OF M, of ep "kern s"]
  have it: "it_ok it"
    using phase_ok_laws[OF ok] by simp
  note I = phase_ok_inv[OF ok, simplified]
  have ep: "epfd s = ep"
    by (rule sub_inv_epfd[OF I])
  show ?thesis
  proof (cases ph)
    case Poll
    then show ?thesis
      using step poll_beside[OF M] ep by (auto simp: loop_step_def rbind_eq_ret sub_effect_def sockets_def stop_asked_def)
  next
    case (Events es)
    show ?thesis
    proof (cases es)
      case Nil
      then show ?thesis
        using step by (auto simp: Events loop_step_def sub_effect_def sockets_def stop_asked_def)
    next
      case (Cons e es')
      then have s': "handle_channel os (sub_owner os it) e s = ret s'" "ph' = phase.Events es'"
        using step by (auto simp: Events loop_step_def rbind_eq_ret)
      have e: "sub_inv ep (reg_of regs ep) [] s" "evs_ok (e # es') s"
        using ok by (simp_all add: Events Cons sub_good_def)
      from runs_retD[OF event_runs[OF K e] s'(1)] have "sub_inv ep (reg_of regs ep) [] s'" "moved ?mu [] s [] s'"
        by (simp_all add: keeps_moved)
      from moved_effect[OF this(2) e(1) this(1)] show ?thesis
        by (simp add: Events s'(2))
    qed
  next
    case (Tasks ts)
    show ?thesis
    proof (cases ts)
      case Nil
      then show ?thesis
        using step by (auto simp: Tasks loop_step_def sub_effect_def stop_asked_def)
    next
      case (Cons t ts')
      then have s': "ow_task (sub_owner os it) t s = ret s'" "ph' = phase.Tasks ts'"
        using step by (auto simp: Tasks loop_step_def rbind_eq_ret)
      have e: "sub_inv ep (reg_of regs ep) (t # ts') s"
        using ok by (simp add: Tasks Cons sub_good_def)
      from runs_retD[OF task_runs[OF K it e] s'(1)] have "sub_inv ep (reg_of regs ep) ts' s'" "moved ?mu (t # ts') s ts' s'"
          "t = TStop \<longrightarrow> lp_stop s'"
        by (simp_all split: if_splits)
      from moved_effect[OF this(2) e this(1)] this(3) show ?thesis
        by (simp add: Tasks Cons s'(2))
    qed
  qed
qed

subsection \<open>A step of the main reactor\<close>

definition afds :: "('k, 'z) mainr_scheme \<Rightarrow> int set" where
  "afds s = (\<lambda>x. afd (snd x)) ` set (mr_Acceptors s)"

text \<open>
  Only the listening sockets are opened and closed, and no descriptor that was open before becomes a
  listening socket. An instance in which no listening socket is registered does not change.
\<close>

definition main_moved :: "'k instances \<Rightarrow> ('k \<Rightarrow> int set) \<Rightarrow> ('k, 'z) mainr_scheme \<Rightarrow> ('k, 'z) mainr_scheme \<Rightarrow> bool" where
  "main_moved regs opens s s' \<longleftrightarrow> epfd s' = epfd s \<and>
     (\<forall>e. e \<noteq> epfd s \<longrightarrow> (\<forall>fd \<in> afds s. regs (kern s) e fd = None) \<longrightarrow> regs (kern s') e = regs (kern s) e) \<and>
     opens (kern s) - afds s \<subseteq> opens (kern s') \<and> (afds s \<subseteq> opens (kern s) \<longrightarrow> afds s' \<subseteq> opens (kern s')) \<and>
     afds s' \<inter> (opens (kern s) - afds s) = {}"

text \<open>The new connection waits in the queue of one sub-reactor, with a descriptor that was not open.\<close>

definition handed :: "'k instances \<Rightarrow> ('k \<Rightarrow> int set) \<Rightarrow> 'k server \<Rightarrow> 'k server \<Rightarrow> bool" where
  "handed regs opens s s' \<longleftrightarrow>
     (\<exists>sck k sub mu. so_fd sck \<notin> opens (kern s) \<and> so_fd sck \<in> opens (kern s') \<and> mr_Acceptors s' = mr_Acceptors s \<and>
        dispatched (reg_of regs (epfd s)) mu sck (s\<lparr>kern := k\<rparr>) sub s')"

lemma beside_main_moved:
  assumes "beside regs opens (epfd s) (kern s) (kern s')" and "epfd s' = epfd s" and "mr_Acceptors s' = mr_Acceptors s"
  shows "main_moved regs opens s s'"
  using assms by (auto simp: main_moved_def beside_def afds_def)

lemma updateChannel_beside:
  assumes "machine_ok os regs opens mu" and "epoll_updateChannel os ep p c k = Inr (c', k')"
  shows "beside regs opens ep k k'"
proof -
  have "beside regs opens ep k k1" if "os_epoll_ctl os ep op fd ev k = (r, k1)" for op fd ev r k1
    using beside_calls(5)[OF assms(1), of ep k op fd ev] that by simp
  then show ?thesis
    using assms(2) by (auto simp: epoll_updateChannel_def ebind_eq_Inr Let_def split: prod.splits if_splits)
qed

lemma stopLoop_beside:
  assumes "machine_ok os regs opens mu" and "stopLoop os s = Inr s'"
  shows "beside regs opens (epfd s) (kern s) (kern s')"
  using assms(2) updateChannel_beside[OF assms(1)] by (auto simp: stopLoop_def timerq_stop_def disableAll_def ebind_eq_Inr)

lemma apart_sockets:
  assumes "apart os regs opens"
  shows "opened opens k (fst (os_socket os k)) (snd (os_socket os k))"
    and "opened opens k (map_sum id fst (fst (os_accept os fd k))) (snd (os_accept os fd k))"
    and "opens (setNonBlocking os fd k) = opens k" "opens (os_reuseaddr os fd k) = opens k"
    and "opens (snd (os_bind os fd p k)) = opens k" "opens (snd (os_listen os fd n k)) = opens k"
    and "opens (os_close os fd k) = opens k - {fd}"
proof -
  have "opens (snd (os_getfl os fd k)) = opens k" "opens (os_setfl os fd f k') = opens k'" for f k'
    using assms by (simp_all add: apart_def)
  then show "opens (setNonBlocking os fd k) = opens k"
    by (simp add: setNonBlocking_def case_prod_unfold)
qed (use assms in \<open>simp_all add: apart_def\<close>)

lemma machine_regs:
  assumes "machine_ok os regs opens mu"
  shows "os_socket os k = (r, k') \<Longrightarrow> regs k' = regs k" "os_accept os fd k = (r2, k') \<Longrightarrow> regs k' = regs k"
    "regs (setNonBlocking os fd k) = regs k" "regs (os_reuseaddr os fd k) = regs k"
    "os_bind os fd p k = (r3, k') \<Longrightarrow> regs k' = regs k" "os_listen os fd n k = (r3, k') \<Longrightarrow> regs k' = regs k"
proof -
  show "os_socket os k = (r, k') \<Longrightarrow> regs k' = regs k"
    by (rule ext) (simp add: socket_specD(1)[OF machine_okD(3)[OF assms]])
  show "os_accept os fd k = (r2, k') \<Longrightarrow> regs k' = regs k"
    by (rule ext) (simp add: socket_specD(2)[OF machine_okD(3)[OF assms]])
  show "regs (setNonBlocking os fd k) = regs k"
    by (rule ext) (simp add: socket_specD(3)[OF machine_okD(3)[OF assms]])
  show "regs (os_reuseaddr os fd k) = regs k"
    by (rule ext) (simp add: socket_specD(4)[OF machine_okD(3)[OF assms]])
  show "os_bind os fd p k = (r3, k') \<Longrightarrow> regs k' = regs k"
    by (rule ext) (simp add: socket_specD(5)[OF machine_okD(3)[OF assms]])
  show "os_listen os fd n k = (r3, k') \<Longrightarrow> regs k' = regs k"
    by (rule ext) (simp add: socket_specD(6)[OF machine_okD(3)[OF assms]])
qed

lemma accept_effect:
  assumes M: "machine_ok os regs opens mu"
  shows "acceptConnection os l k = ret (res, k') \<Longrightarrow> regs k' = regs k \<and>
    (case res of None \<Rightarrow> opens k' = opens k | Some sck \<Rightarrow> so_fd sck \<notin> opens k \<and> opens k' = insert (so_fd sck) (opens k))"
proof (induction "mu k" arbitrary: k rule: less_induct)
  case less
  obtain r k1 where a: "os_accept os (so_fd l) k = (r, k1)"
    by fastforce
  have op: "opened opens k (map_sum id fst r) k1"
    using apart_sockets(2)[OF machine_okD(5)[OF M], of k "so_fd l"] a by simp
  have regs: "regs k1 = regs k"
    by (rule machine_regs(2)[OF M a])
  show ?case
  proof (cases "r = Inl EINTR")
    case True
    then have "acceptConnection os l k1 = ret (res, k')"
      using less.prems by (subst (asm) acceptConnection.simps) (simp add: a)
    moreover have "mu k1 < mu k"
      using socket_specD(2)[OF machine_okD(3)[OF M] a] True by simp
    ultimately show ?thesis
      using less(1)[of k1] regs op True by (cases res) (simp_all add: opened_def)
  next
    case False
    then show ?thesis
      using less.prems op regs machine_regs(3)[OF M] apart_sockets(3)[OF machine_okD(5)[OF M]]
      by (subst (asm) acceptConnection.simps) (auto simp: a opened_def Socket_accepted_def split: sum.splits if_splits)
  qed
qed

lemma listening_effect:
  assumes M: "machine_ok os regs opens mu" and r: "Socket_listening os port k = Inr (sck, k')"
  shows "regs k' = regs k \<and> so_fd sck \<notin> opens k \<and> opens k' = insert (so_fd sck) (opens k)"
proof -
  obtain fd k1 r4 where s: "os_socket os k = (Inr fd, k1)"
    and b: "os_bind os fd (word_of_int port) (os_reuseaddr os fd (setNonBlocking os fd k1)) = (r4, k')" and sck: "so_fd sck = fd"
    using r by (auto simp: Socket_listening_def Let_def ebind_eq_Inr split: prod.splits sum.splits)
  have "regs k' = regs k"
    using machine_regs(1)[OF M s] machine_regs(5)[OF M b] machine_regs(3,4)[OF M] by simp
  moreover have "opens k' = opens k1"
    using apart_sockets(3,4)[OF machine_okD(5)[OF M]] apart_sockets(5)[OF machine_okD(5)[OF M]] b by (metis snd_conv)
  moreover have "opened opens k (Inr fd) k1"
    using apart_sockets(1)[OF machine_okD(5)[OF M], of k] s by simp
  ultimately show ?thesis
    using sck by (simp add: opened_def)
qed

lemma main_listen_effect:
  fixes s :: "('k, 'z) mainr_scheme"
  assumes M: "machine_ok os regs opens mu" and r: "main_listen os port s = Inr s'"
  shows "main_moved regs opens s s' \<and> mainr.more s' = mainr.more s"
proof (cases "map_of (mr_Acceptors s) port")
  case None
  obtain a k k' where a: "Acceptor_new os (epfd s) port (kern s) = Inr (a, k)" and l: "Acceptor_startListen os a k = Inr k'"
    and s': "s' = s\<lparr>kern := k', mr_Acceptors := (port, a) # mr_Acceptors s\<rparr>"
    using r None by (auto simp: main_listen_def ebind_eq_Inr)
  obtain sck k1 c where sock: "Socket_listening os port (kern s) = Inr (sck, k1)" "ac_listenSck a = sck"
    and en: "enableListen os (epfd s) (AcceptChan port) (Channel_new (so_fd sck)) k1 = Inr (c, k)"
    using a by (auto simp: Acceptor_new_def ebind_eq_Inr)
  note 1 = listening_effect[OF M sock(1)]
  have 2: "beside regs opens (epfd s) k1 k"
    using updateChannel_beside[OF M] en by (auto simp: enableListen_def ebind_eq_Inr)
  have 3: "regs k' = regs k" "opens k' = opens k"
    using l machine_regs(6)[OF M] apart_sockets(6)[OF machine_okD(5)[OF M]]
    by (auto simp: Acceptor_startListen_def startListen_def ebind_eq_Inr split: prod.splits) (metis snd_conv)+
  show ?thesis
    using 1 2 3 by (auto simp: s' main_moved_def beside_def afds_def sock(2))
next
  case (Some a)
  then show ?thesis
    using r by (simp add: main_listen_def beside_main_moved)
qed

lemma erase_opens:
  assumes "machine_ok os regs opens mu" and "\<forall>(p, a) \<in> set as. afd a \<ge> 0"
  shows "opens (erase_acceptors os as k) = opens k - (\<lambda>x. afd (snd x)) ` set as"
  using assms(2)
proof (induction as arbitrary: k)
  case (Cons x as)
  then show ?case
    using apart_sockets(7)[OF machine_okD(5)[OF assms(1)]]
    by (cases x) (auto simp: Acceptor_delete_def Socket_delete_def)
qed simp

lemma main_stop_effect:
  fixes s :: "('k, 'z) mainr_scheme"
  assumes M: "machine_ok os regs opens mu" and I: "main_inv ep reg s" and r: "main_stop os s = Inr s'"
  shows "main_moved regs opens s s' \<and> mainr.more s' = mainr.more s \<and> mr_Acceptors s' = []"
proof -
  let ?k = "erase_acceptors os (mr_Acceptors s) (kern s)"
  have pos: "\<forall>(p, a) \<in> set (mr_Acceptors s). afd a \<ge> 0"
    using I by (auto simp: main_inv_def)
  have op: "opens ?k = opens (kern s) - afds s"
    using erase_opens[OF M pos] by (simp add: afds_def)
  have rg: "regs ?k e = (\<lambda>fd. if fd \<in> afds s then None else regs (kern s) e fd)" for e
    using erase_acceptors_reg[OF machine_okD(3)[OF M, of e] pos, of "kern s"] by (auto simp: afds_def fun_eq_iff image_iff)
  have b: "beside regs opens (epfd s) ?k (kern s')"
    using stopLoop_beside[OF M r[unfolded main_stop_def]] by simp
  have same: "mr_Acceptors s' = []" "mainr.more s' = mainr.more s" "epfd s' = epfd s"
    using r by (auto simp: main_stop_def stopLoop_def ebind_eq_Inr)
  have "regs (kern s') e = regs (kern s) e" if "e \<noteq> epfd s" "\<forall>fd \<in> afds s. regs (kern s) e fd = None" for e
    using that b rg[of e] by (auto simp: beside_def fun_eq_iff)
  then show ?thesis
    using b op same by (auto simp: main_moved_def beside_def afds_def)
qed

lemma dispatched_beside:
  assumes "dispatched reg (boost regs opens ep mu (kern s)) sck s sub s'"
  shows "beside regs opens ep (kern s) (kern s')" "mr_Acceptors s' = mr_Acceptors s" "epfd s' = epfd s"
proof -
  have "boost regs opens ep mu (kern s) (kern sub) \<le> boost regs opens ep mu (kern s) (kern s)"
    using assms by (auto simp: dispatched_def enqueued_def)
  then show "beside regs opens ep (kern s) (kern s')"
    using assms by (auto simp: dispatched_def intro: boost_beside)
qed (use assms in \<open>simp_all add: dispatched_def\<close>)

lemma handleRead_effect:
  fixes s :: "'k server"
  assumes M: "machine_ok os regs opens mu" and d: "dispatch_ok s"
    and r: "Acceptor_handleRead os (handleNewConnection os) a s = ret s'"
  shows "main_moved regs opens s s' \<and> (mainr.more s' = mainr.more s \<or> handed regs opens s s')"
proof -
  obtain res k where acc: "acceptConnection os (ac_listenSck a) (kern s) = ret (res, k)"
    and cb: "(case res of None \<Rightarrow> ret (s\<lparr>kern := k\<rparr>) | Some sck \<Rightarrow> Some (handleNewConnection os sck (s\<lparr>kern := k\<rparr>))) = ret s'"
    using r by (auto simp: Acceptor_handleRead_def rbind_eq_ret)
  note eff = accept_effect[OF M acc]
  show ?thesis
  proof (cases res)
    case None
    then have "s' = s\<lparr>kern := k\<rparr>" "beside regs opens (epfd s) (kern s) k"
      using cb eff by (simp_all add: beside_def)
    then show ?thesis
      by (simp add: beside_main_moved)
  next
    case (Some sck)
    let ?s = "s\<lparr>kern := k\<rparr>" and ?ep = "epfd s"
    have "handleNewConnection os sck ?s = Inr s'" "dispatch_ok ?s"
      using cb Some d by (simp_all add: dispatch_ok_def)
    from runs_retD[OF handleNewConnection_runs[OF boosted[OF M, of ?ep k] this(2), of sck], of s'] this(1)
    obtain sub where dis: "dispatched (reg_of regs ?ep) (boost regs opens ?ep mu (kern ?s)) sck ?s sub s'"
      by auto
    note b = dispatched_beside[OF this]
    have op: "so_fd sck \<notin> opens (kern s)" "opens (kern s') = insert (so_fd sck) (opens (kern s))" "regs k = regs (kern s)"
      using eff Some b(1) by (simp_all add: beside_def)
    have "handed regs opens s s'"
      unfolding handed_def using op b(2) dis by (intro exI[of _ sck] exI[of _ k] exI[of _ sub] exI conjI) auto
    moreover have "main_moved regs opens s s'"
      using op b by (auto simp: main_moved_def beside_def afds_def)
    ultimately show ?thesis
      by simp
  qed
qed

lemma loop_kern_effect:
  fixes s s' :: "('k, 'z) mainr_scheme"
  assumes "\<exists>k b. s' = s\<lparr>kern := k, lp_signal := b\<rparr> \<and> reg k = reg (kern s) \<and> boost regs opens (epfd s) mu (kern s) k \<le> boost regs opens (epfd s) mu (kern s) (kern s)"
  shows "main_moved regs opens s s' \<and> mainr.more s' = mainr.more s"
  using assms by (auto intro!: beside_main_moved intro: boost_beside)

lemma main_event_effect:
  fixes s :: "'k server"
  assumes M: "machine_ok os regs opens mu" and I: "main_inv (epfd s) reg s" and d: "dispatch_ok s" and e: "main_evs_ok (e # es) s"
    and r: "handle_channel os (main_owner os (handleNewConnection os)) e s = ret s'"
  shows "main_moved regs opens s s' \<and> (mainr.more s' = mainr.more s \<or> handed regs opens s s')"
proof -
  obtain p rev where pr: "e = (p, rev)" by fastforce
  have rev: "rev AND EPOLLOUT = 0" and cases: "p = EloopChan \<or> p = TimeChan \<or> (\<exists>port \<in> set (map fst (mr_Acceptors s)). p = AcceptChan port)"
    using e by (auto simp: main_evs_ok_def pr)
  have q: "tq_timers (tq s) = []"
    using I by (simp add: main_inv_def)
  note K = boosted[OF M, of "epfd s" "kern s"]
  from cases show ?thesis
  proof (elim disjE bexE)
    assume "p = EloopChan"
    then show ?thesis
      using loop_kern_effect[OF runs_retD[OF eloop_event[OF K rev] r[unfolded pr \<open>p = EloopChan\<close>]]] by simp
  next
    assume "p = TimeChan"
    then show ?thesis
      using runs_retD[OF idle_time_event[OF K rev q] r[unfolded pr \<open>p = TimeChan\<close>]]
      by (auto intro!: beside_main_moved intro: boost_beside)
  next
    fix port
    assume p: "port \<in> set (map fst (mr_Acceptors s))" "p = AcceptChan port"
    then obtain a where a: "map_of (mr_Acceptors s) port = Some a"
      by (metis map_of_eq_None_iff not_None_eq set_map)
    have "Acceptor_handleRead os (handleNewConnection os) a s = ret s' \<or> s' = s"
      using r rev p(2) a by (auto simp: pr handle_channel_def main_owner_def main_channel_def channel_handle_def rbind_eq_ret split: if_splits)
    then show ?thesis
      using handleRead_effect[OF M d] beside_main_moved[of regs opens s s] by auto
  qed
qed

lemma main_step_effect:
  fixes s :: "'k server"
  assumes M: "machine_ok os regs opens mu" and ok: "srv.acc.phase_ok os ep (reg_of regs ep) mu (ph, s)"
    and step: "loop_step os (main_owner os (handleNewConnection os)) (ph, s) (ph', s')"
  shows "main_moved regs opens s s' \<and> (mainr.more s' = mainr.more s \<or> handed regs opens s s')"
proof -
  have I: "main_inv ep (reg_of regs ep) s" "dispatch_ok s"
    using main_phase_ok_inv[OF ok] by simp_all
  then have ep: "epfd s = ep"
    by (simp add: main_inv_def loop_inv_def)
  show ?thesis
  proof (cases ph)
    case Poll
    then obtain chs k where "epoll_poll os ep (signalled s) (kern s) = ret (chs, k)" "s' = s\<lparr>kern := k\<rparr>"
      using step ep by (auto simp: loop_step_def rbind_eq_ret)
    then show ?thesis
      using poll_beside[OF M] ep by (simp add: beside_main_moved)
  next
    case (Events es)
    show ?thesis
    proof (cases es)
      case Nil
      then show ?thesis
        using step by (auto simp: Events loop_step_def beside_main_moved)
    next
      case (Cons e es')
      have "main_evs_ok (e # es') s"
        using ok by (simp add: Events Cons)
      from main_event_effect[OF M _ I(2) this] show ?thesis
        using step I(1) ep by (auto simp: Events Cons loop_step_def rbind_eq_ret)
    qed
  next
    case (Tasks ts)
    show ?thesis
    proof (cases ts)
      case Nil
      then show ?thesis
        using step by (auto simp: Tasks loop_step_def beside_main_moved)
    next
      case (Cons t ts')
      then have "main_task_run os t s = ret s'"
        using step by (auto simp: Tasks loop_step_def rbind_eq_ret main_owner_def)
      then show ?thesis
        using main_listen_effect[OF M] main_stop_effect[OF M I(1)] by (cases t) (auto simp: main_task_run_def)
    qed
  qed
qed

end
