(* ===== verification/ProgramInv.thy ===== *)
theory ProgramInv
  imports Machine Program
begin

section \<open>The invariant of the whole program\<close>

text \<open>
  Each loop keeps its own invariant on the shared kernel while the others run, because what they do
  is, for this loop, a step of its rely. The jobs in the pool refer to connections that exist.
\<close>

subsection \<open>The invariant\<close>

definition phase_of :: "'t phase thread \<Rightarrow> 't phase" where
  "phase_of th = (case th of Active ph \<Rightarrow> ph | _ \<Rightarrow> Poll)"

lemma phase_of_simps [simp]: "phase_of Created = Poll" "phase_of (Active ph) = ph" "phase_of Ended = Poll"
  by (simp_all add: phase_of_def)

text \<open>The descriptors of a sub-reactor: its own two, and those of its connections, also of the queued ones.\<close>

definition sub_fds :: "sub_task list \<Rightarrow> ('k, 'z) subr_scheme \<Rightarrow> int set" where
  "sub_fds ts sub = insert (lp_fd sub) (insert (tq_timeFd (tq sub)) ((\<lambda>x. so_fd (snd x)) ` sockets ts sub))"

definition sub_ok ::
  "'k os \<Rightarrow> (conn_id list \<Rightarrow> conn_id list) \<Rightarrow> 'k instances \<Rightarrow> ('k \<Rightarrow> int set) \<Rightarrow> ('k \<Rightarrow> nat) \<Rightarrow>
   'k server \<Rightarrow> nat \<Rightarrow> sub_task phase \<Rightarrow> bool" where
  "sub_ok os it regs opens mu s i ph \<longleftrightarrow>
     sub.phase_ok os it (epfd (sv_SubReactors s ! i)) (reg_of regs (epfd (sv_SubReactors s ! i))) mu (ph, lend i s) \<and>
     (\<forall>x \<in> sockets (pending ph) (lend i s). fst x < sv_sockets s) \<and>
     sub_fds (pending ph) (lend i s) \<subseteq> opens (kern s) - afds s"

definition pool_jobs :: "'j tp \<Rightarrow> 'j set" where
  "pool_jobs t = set (pl_tasks (tp_pool t)) \<union> set (running_jobs (tp_workers t))"

definition jobs_ok :: "'k server \<Rightarrow> bool" where
  "jobs_ok s \<longleftrightarrow> (\<forall>t. sv_threadpool s = Some t \<longrightarrow> (\<exists>n. 0 < n \<and> tp_reach n t) \<and>
     (\<forall>x \<in> pool_jobs t. fst x < length (sv_SubReactors s) \<and> sr_heap (sv_SubReactors s ! fst x) (fst (snd x)) \<noteq> None))"

definition eps_ok :: "'k server \<Rightarrow> bool" where
  "eps_ok s \<longleftrightarrow> distinct (epfd s # map epfd (sv_SubReactors s))"

definition prog_ok ::
  "'k os \<Rightarrow> (conn_id list \<Rightarrow> conn_id list) \<Rightarrow> 'k instances \<Rightarrow> ('k \<Rightarrow> int set) \<Rightarrow> ('k \<Rightarrow> nat) \<Rightarrow> 'k program \<Rightarrow> bool" where
  "prog_ok os it regs opens mu p \<longleftrightarrow> (let s = pg_server p in
     length (pg_subs p) = length (sv_SubReactors s) \<and> eps_ok s \<and> jobs_ok s \<and> afds s \<subseteq> opens (kern s) \<and>
     srv.acc.phase_ok os (epfd s) (reg_of regs (epfd s)) mu (phase_of (pg_main p), s) \<and>
     (\<forall>i < length (sv_SubReactors s). sub_ok os it regs opens mu s i (phase_of (pg_subs p ! i))))"

subsection \<open>Lending\<close>

lemma lend_fields [simp]:
  "kern (lend i s) = kern s" "epfd (lend i s) = epfd (sv_SubReactors s ! i)" "tq (lend i s) = tq (sv_SubReactors s ! i)"
  "lp_tasks (lend i s) = lp_tasks (sv_SubReactors s ! i)" "lp_stop (lend i s) = lp_stop (sv_SubReactors s ! i)"
  "lp_fd (lend i s) = lp_fd (sv_SubReactors s ! i)" "sr_heap (lend i s) = sr_heap (sv_SubReactors s ! i)"
  "sr_conns (lend i s) = sr_conns (sv_SubReactors s ! i)"
  "lp_signal (lend i s) = lp_signal (sv_SubReactors s ! i)"
  "rc_pool (lend i s) = pool_view i (sv_threadpool s) (rc_pool (sv_SubReactors s ! i))"
  by (simp_all add: lend_def Let_def)

lemma lend_same:
  assumes "sv_SubReactors s' ! i = sv_SubReactors s ! i"
  shows "lend i s' = (lend i s)\<lparr>kern := kern s', rc_pool := pool_view i (sv_threadpool s') (rc_pool (sv_SubReactors s ! i))\<rparr>"
  using assms by (simp add: lend_def Let_def)

text \<open>The kernel moves without touching this instance; the jobs of this loop stay, or lose the first, or the pool stops.\<close>

definition view_step :: "'j pool \<Rightarrow> 'j pool \<Rightarrow> bool" where
  "view_step p p' \<longleftrightarrow> p' = p \<or> (\<exists>j js. pl_tasks p = j # js \<and> p' = p\<lparr>pl_tasks := js\<rparr>) \<or> p' = p\<lparr>pl_stop := True\<rparr>"

lemma phase_ok_lent:
  assumes ok: "sub.phase_ok os it ep reg mu (ph, sub)" and k: "reg k = reg (kern sub)" and v: "view_step (rc_pool sub) rc"
  shows "sub.phase_ok os it ep reg mu (ph, sub\<lparr>kern := k, rc_pool := rc\<rparr>)"
proof -
  let ?sub = "sub\<lparr>kern := k\<rparr>"
  have "sub.any_step os it reg (ph, sub) (ph, ?sub)"
    unfolding sub.any_step_def using sub_rely.clients[OF k] by simp
  then have 1: "sub.phase_ok os it ep reg mu (ph, ?sub)"
    by (rule sub.any_step_keeps[OF ok])
  have rc: "rc_pool ?sub = rc_pool sub"
    by simp
  from v consider "rc = rc_pool ?sub" | j js where "pl_tasks (rc_pool ?sub) = j # js" "rc = (rc_pool ?sub)\<lparr>pl_tasks := js\<rparr>"
    | "rc = (rc_pool ?sub)\<lparr>pl_stop := True\<rparr>"
    by (auto simp: view_step_def)
  then show ?thesis
  proof cases
    case 1
    then show ?thesis
      using \<open>sub.phase_ok os it ep reg mu (ph, ?sub)\<close> by simp
  next
    case (2 j js)
    have "sub.any_step os it reg (ph, ?sub) (ph, ?sub\<lparr>rc_pool := rc\<rparr>)"
      unfolding sub.any_step_def 2(2) using sub_rely.taken[OF 2(1)] by simp
    from sub.any_step_keeps[OF 1 this] show ?thesis
      by simp
  next
    case 3
    have "sub.any_step os it reg (ph, ?sub) (ph, ?sub\<lparr>rc_pool := rc\<rparr>)"
      unfolding sub.any_step_def 3 using sub_rely.pool_stops[of os reg _ ?sub] by simp
    from sub.any_step_keeps[OF 1 this] show ?thesis
      by simp
  qed
qed

text \<open>A sub-reactor whose own record does not change.\<close>

lemma sub_ok_others:
  assumes ok: "sub_ok os it regs opens mu s i ph" and same: "sv_SubReactors s' ! i = sv_SubReactors s ! i"
    and regs: "regs (kern s') (epfd (sv_SubReactors s ! i)) = regs (kern s) (epfd (sv_SubReactors s ! i))"
    and view: "view_step (rc_pool (lend i s)) (rc_pool (lend i s'))"
    and n: "sv_sockets s \<le> sv_sockets s'" and fds: "opens (kern s) - afds s \<subseteq> opens (kern s') - afds s'"
  shows "sub_ok os it regs opens mu s' i ph"
proof -
  have l: "lend i s' = (lend i s)\<lparr>kern := kern s', rc_pool := rc_pool (lend i s')\<rparr>"
    using lend_same[OF same] by (simp add: same)
  have "sockets ts (lend i s') = sockets ts (lend i s)" "sub_fds ts (lend i s') = sub_fds ts (lend i s)" for ts
    by (simp_all add: sub_fds_def sockets_def same)
  moreover have "sub.phase_ok os it (epfd (sv_SubReactors s ! i)) (reg_of regs (epfd (sv_SubReactors s ! i))) mu
      (ph, (lend i s)\<lparr>kern := kern s', rc_pool := rc_pool (lend i s')\<rparr>)"
    by (rule phase_ok_lent) (use ok regs view in \<open>simp_all add: sub_ok_def\<close>)
  note this[folded l]
  ultimately show ?thesis
    using ok n fds unfolding sub_ok_def same by fastforce
qed

text \<open>The main loop does not look at the sub-reactors or the pool.\<close>

lemma main_ok_others:
  fixes s :: "'k server"
  assumes ok: "srv.acc.phase_ok os ep reg mu (ph, s)" and k: "reg k = reg (kern s)" and n: "length subs = length (sv_SubReactors s)"
  shows "srv.acc.phase_ok os ep reg mu (ph, s\<lparr>kern := k, sv_threadpool := tp, sv_SubReactors := subs\<rparr>)"
proof -
  let ?s = "s\<lparr>kern := k, sv_threadpool := tp, sv_SubReactors := subs\<rparr>"
  have "dispatch_ok ?s"
    using main_phase_ok_inv[OF ok] n by (simp add: dispatch_ok_def)
  then have z: "server_sink (mainr.more ?s)"
    by (simp only: server_sink_ok)
  have "?s = mainr.more_update (\<lambda>_. mainr.more ?s) (s\<lparr>kern := k\<rparr>)"
    by (cases s) simp
  then have "handed_on reg server_sink s ?s"
    unfolding handed_on_def using k z by blast
  then have "srv.acc.any_step os reg (ph, s) (ph, ?s)"
    by (auto simp: srv.acc.any_step_def intro: main_rely.others)
  then show ?thesis
    by (rule srv.acc.any_step_keeps[OF ok])
qed

subsection \<open>The pool\<close>

lemma submit_all_simps [simp]:
  "tp_pool (submit_all js t) = (tp_pool t)\<lparr>pl_tasks := pl_tasks (tp_pool t) @ js\<rparr>" "tp_workers (submit_all js t) = tp_workers t"
  "submit_all [] t = t"
  by (simp_all add: submit_all_def)

lemma submit_all_reach: "tp_reach n t \<Longrightarrow> \<not> pl_stop (tp_pool t) \<Longrightarrow> tp_reach n (submit_all js t)"
proof (induction js arbitrary: t)
  case (Cons j js)
  have "tp_step t (submit_all [j] t)"
    using tp_step.submit[of j t] Cons.prems(2) by (simp add: pool_enqueue_def submit_all_def)
  then have "tp_reach n (submit_all js (submit_all [j] t))"
    using Cons.IH[OF tp_reach.step[OF Cons.prems(1)]] Cons.prems(2) by simp
  moreover have "submit_all js (submit_all [j] t) = submit_all (j # js) t"
    by (simp add: submit_all_def)
  ultimately show ?case
    by simp
qed simp

lemma pool_jobs_submit: "pool_jobs (submit_all js t) = pool_jobs t \<union> set js"
  by (auto simp: pool_jobs_def)

text \<open>What a worker or a notification can do to the queue.\<close>

lemma pool_move_cases:
  assumes "tp_step t t' \<or> tp_spurious t t'" and "tp_submitted t' = tp_submitted t" and "tp_finished t' = tp_finished t"
    and "pl_stop (tp_pool t') = pl_stop (tp_pool t)" and "tp_inv t"
  shows "pool_jobs t' \<subseteq> pool_jobs t \<and>
    (tp_pool t' = tp_pool t \<or> (\<exists>j js. pl_tasks (tp_pool t) = j # js \<and> tp_pool t' = (tp_pool t)\<lparr>pl_tasks := js\<rparr>))"
proof -
  have run: "set (running_jobs (ws[i := w])) \<subseteq> set (running_jobs ws) \<union> set (started_by w)" for ws :: "'a wstate list" and i w
    using set_update_subset_insert[of ws i w] by (auto simp: running_jobs_def)
  have wake: "running_jobs (map wake ws) = running_jobs ws" for ws :: "'a wstate list"
  proof -
    have "started_by (wake w) = started_by w" for w :: "'a wstate"
      by (cases w) (simp_all add: wake_def started_by_def)
    then show ?thesis
      by (simp add: running_jobs_def comp_def)
  qed
  from assms(1) show ?thesis
  proof
    assume "tp_step t t'"
    then show ?thesis
    proof cases
      case (check i w p)
      then show ?thesis
        using run[of "tp_workers t" i w]
        by - (rule worker_check_cases[OF check(4)]; auto simp: pool_jobs_def started_by_def)
    qed (use assms run wake in \<open>auto simp: pool_jobs_def started_by_def pool_enqueue_ok\<close>)
  next
    assume "tp_spurious t t'"
    then show ?thesis
      using run by cases (auto simp: pool_jobs_def started_by_def)
  qed
qed

subsection \<open>Giving back\<close>

lemma view_of_new:
  "pool_view i (map_option (submit_all (map (Pair j) js)) tpo) p =
    (case tpo of None \<Rightarrow> p\<lparr>pl_stop := False\<rparr>
     | Some t \<Rightarrow> (pool_view i tpo p)\<lparr>pl_tasks := pl_tasks (pool_view i tpo p) @ (if i = j then js else [])\<rparr>)"
proof -
  have "map (snd \<circ> Pair j) js = js"
    by (simp add: comp_def)
  then show ?thesis
    by (simp add: pool_view_def split: option.split)
qed

lemma give_back_fields [simp]:
  "kern (give_back i sub s) = kern sub" "epfd (give_back i sub s) = epfd s" "mr_Acceptors (give_back i sub s) = mr_Acceptors s"
  "sv_SubReactors (give_back i sub s) = (sv_SubReactors s)[i := sub]" "sv_sockets (give_back i sub s) = sv_sockets s"
  "afds (give_back i sub s) = afds s" "sv_useThreadPool (give_back i sub s) = sv_useThreadPool s"
  by (simp_all add: give_back_def Let_def afds_def)

lemma lend_give_back:
  assumes "i < length (sv_SubReactors s)" and "pl_tasks (rc_pool sub) = pl_tasks (rc_pool (lend i s)) @ js"
    and "pl_stop (rc_pool sub) = pl_stop (rc_pool (lend i s))"
  shows "lend i (give_back i sub s) = sub"
    and "sv_threadpool (give_back i sub s) = map_option (submit_all (map (Pair i) js)) (sv_threadpool s)"
    and "j \<noteq> i \<Longrightarrow> rc_pool (lend j (give_back i sub s)) = rc_pool (lend j s)"
proof -
  show tp: "sv_threadpool (give_back i sub s) = map_option (submit_all (map (Pair i) js)) (sv_threadpool s)"
    using assms by (simp add: give_back_def Let_def)
  have "pool_view i (sv_threadpool (give_back i sub s)) (rc_pool sub) = rc_pool sub"
  proof (cases "sv_threadpool s")
    case None
    then have "pl_stop (rc_pool sub) = False"
      using assms(3) by (simp add: pool_view_def)
    with None show ?thesis
      by (cases "rc_pool sub") (simp add: tp pool_view_def)
  next
    case (Some t)
    have "pl_tasks (pool_view i (Some t) (rc_pool sub)) = pl_tasks (rc_pool (lend i s))"
        "pl_stop (pool_view i (Some t) (rc_pool sub)) = pl_stop (rc_pool (lend i s))"
      by (simp_all add: Some pool_view_def)
    then show ?thesis
      unfolding tp Some view_of_new using assms(2,3) by simp
  qed
  then show "lend i (give_back i sub s) = sub"
    using assms(1) by (simp add: lend_def Let_def)
  show "rc_pool (lend j (give_back i sub s)) = rc_pool (lend j s)" if "j \<noteq> i"
    using that by (simp add: tp view_of_new pool_view_def split: option.split)
qed

subsection \<open>A sub-reactor runs\<close>

lemma prog_okD:
  assumes "prog_ok os it regs opens mu p"
  shows "length (pg_subs p) = length (sv_SubReactors (pg_server p))" "eps_ok (pg_server p)" "jobs_ok (pg_server p)"
    "afds (pg_server p) \<subseteq> opens (kern (pg_server p))"
    "srv.acc.phase_ok os (epfd (pg_server p)) (reg_of regs (epfd (pg_server p))) mu (phase_of (pg_main p), pg_server p)"
    "i < length (sv_SubReactors (pg_server p)) \<Longrightarrow> sub_ok os it regs opens mu (pg_server p) i (phase_of (pg_subs p ! i))"
  using assms by (simp_all add: prog_ok_def Let_def)

lemma eps_okD:
  assumes "eps_ok s" and "i < length (sv_SubReactors s)"
  shows "epfd (sv_SubReactors s ! i) \<noteq> epfd s"
    and "j < length (sv_SubReactors s) \<Longrightarrow> j \<noteq> i \<Longrightarrow> epfd (sv_SubReactors s ! j) \<noteq> epfd (sv_SubReactors s ! i)"
proof -
  have d: "distinct (map epfd (sv_SubReactors s))" "epfd s \<notin> set (map epfd (sv_SubReactors s))"
    using assms(1) by (simp_all add: eps_ok_def)
  show "epfd (sv_SubReactors s ! i) \<noteq> epfd s"
    using d(2) nth_mem[OF assms(2)] by (metis image_eqI set_map)
  show "epfd (sv_SubReactors s ! j) \<noteq> epfd (sv_SubReactors s ! i)" if "j < length (sv_SubReactors s)" "j \<noteq> i"
    using nth_eq_iff_index_eq[OF d(1), of j i] that assms(2) by simp
qed

lemma eps_ok_update:
  assumes "eps_ok s" and "epfd s' = epfd s" and "i < length (sv_SubReactors s)"
    and "sv_SubReactors s' = (sv_SubReactors s)[i := sub]" and "epfd sub = epfd (sv_SubReactors s ! i)"
  shows "eps_ok s'"
proof -
  have "map epfd (sv_SubReactors s') = map epfd (sv_SubReactors s)"
    using assms(3-5) by (simp add: map_update list_update_same_conv)
  then show ?thesis
    using assms(1,2) by (simp add: eps_ok_def)
qed

lemma view_refl [simp]: "view_step p p"
  by (simp add: view_step_def)

lemma jobs_given_back:
  assumes J: "jobs_ok s" and i: "i < length (sv_SubReactors s)"
    and new: "pl_tasks (rc_pool sub) = pl_tasks (rc_pool (lend i s)) @ js" "pl_stop (rc_pool sub) = pl_stop (rc_pool (lend i s))"
    and open_pool: "\<And>t. sv_threadpool s = Some t \<Longrightarrow> \<not> pl_stop (tp_pool t)"
    and refs: "\<And>j. j \<in> set js \<Longrightarrow> sr_heap sub (fst j) \<noteq> None"
    and grows: "\<And>me. sr_heap (sv_SubReactors s ! i) me \<noteq> None \<Longrightarrow> sr_heap sub me \<noteq> None"
  shows "jobs_ok (give_back i sub s)"
  unfolding jobs_ok_def
proof (intro allI impI conjI ballI)
  fix t'
  assume "sv_threadpool (give_back i sub s) = Some t'"
  then obtain t where t: "sv_threadpool s = Some t" and t': "t' = submit_all (map (Pair i) js) t"
    unfolding lend_give_back(2)[OF i new] by auto
  show "\<exists>n. 0 < n \<and> tp_reach n t'"
    using J t submit_all_reach[OF _ open_pool[OF t]] unfolding jobs_ok_def t' by blast
  fix x
  assume "x \<in> pool_jobs t'"
  then consider "x \<in> pool_jobs t" | j where "j \<in> set js" "x = (i, j)"
    unfolding t' pool_jobs_submit by auto
  then have "fst x < length (sv_SubReactors s) \<and> sr_heap ((sv_SubReactors s)[i := sub] ! fst x) (fst (snd x)) \<noteq> None"
  proof cases
    case 1
    then show ?thesis
      using J t grows i unfolding jobs_ok_def by (cases "fst x = i") auto
  next
    case 2
    then show ?thesis
      using refs i by simp
  qed
  then show "fst x < length (sv_SubReactors (give_back i sub s))" "sr_heap (sv_SubReactors (give_back i sub s) ! fst x) (fst (snd x)) \<noteq> None"
    by simp_all
qed

lemma sub_turn_ok:
  assumes M: "machine_ok os regs opens mu" and ok: "prog_ok os it regs opens mu p" and i: "i < length (pg_subs p)"
    and ph: "phase_of (pg_subs p ! i) = ph"
    and step: "loop_step os (sub_owner os it) (ph, lend i (pg_server p)) (ph', sub)"
    and open_pool: "\<And>t. sv_threadpool (pg_server p) = Some t \<Longrightarrow> \<not> pl_stop (tp_pool t)"
  shows "prog_ok os it regs opens mu (p\<lparr>pg_server := give_back i sub (pg_server p), pg_subs := (pg_subs p)[i := Active ph']\<rparr>)"
proof -
  let ?s = "pg_server p"
  let ?ep = "epfd (sv_SubReactors ?s ! i)" and ?s' = "give_back i sub ?s"
  note D = prog_okD[OF ok]
  have i': "i < length (sv_SubReactors ?s)"
    using i D(1) by simp
  have so: "sub_ok os it regs opens mu ?s i ph"
    using D(6)[OF i'] ph by simp
  then have pok: "sub.phase_ok os it ?ep (reg_of regs ?ep) mu (ph, lend i ?s)"
    by (simp add: sub_ok_def)
  note pok' = sub.step_keeps[OF pok step]
  note eff = sub_step_effect[OF M pok step]
  obtain js where js: "pl_tasks (rc_pool sub) = pl_tasks (rc_pool (lend i ?s)) @ js"
    using eff by (auto simp: sub_effect_def)
  have st: "pl_stop (rc_pool sub) = pl_stop (rc_pool (lend i ?s))" and ep: "epfd sub = ?ep" and b: "beside regs opens ?ep (kern ?s) (kern sub)"
    using eff by (simp_all add: sub_effect_def)
  note L = lend_give_back[OF i' js st]
  have I: "sub_inv ?ep (reg_of regs ?ep) (pending ph') sub"
    using phase_ok_inv[OF pok'] by simp
  have jobs: "jobs_ok ?s'"
    by (rule jobs_given_back[OF D(3) i' js st open_pool])
      (use inv_jobs[OF I] js loop_step_grows[OF pok step] in auto)
  have main: "srv.acc.phase_ok os (epfd ?s) (reg_of regs (epfd ?s)) mu (phase_of (pg_main p), ?s')"
    unfolding give_back_def Let_def by (rule main_ok_others[OF D(5)]) (use b eps_okD(1)[OF D(2) i'] in \<open>simp_all add: beside_def\<close>)
  have mine: "sub_ok os it regs opens mu ?s' i ph'"
    using so pok' eff i' by (simp add: sub_ok_def L(1) ep sub_effect_def sub_fds_def beside_def)
  have others: "sub_ok os it regs opens mu ?s' j (phase_of (pg_subs p ! j))" if "j < length (sv_SubReactors ?s)" "j \<noteq> i" for j
    by (rule sub_ok_others[OF D(6)[OF that(1)]])
      (use that b eps_okD(2)[OF D(2) i' that] L(3)[OF that(2)] in \<open>simp_all add: beside_def\<close>)
  have "eps_ok ?s'"
    by (rule eps_ok_update[OF D(2) _ i' _ ep]) simp_all
  then show ?thesis
    using jobs main mine others D(1,4) i b by (simp add: prog_ok_def Let_def beside_def nth_list_update)
qed

subsection \<open>Another thread enqueues on a sub-reactor\<close>

lemma phase_ok_pushed:
  assumes ok: "sub.phase_ok os it ep reg mu (ph, s)" and k: "reg k = reg (kern s)"
    and refs: "\<And>me. task_holds me t \<Longrightarrow> sr_heap s me \<noteq> None"
    and new: "\<And>me sock. t = TAddConnection me sock \<Longrightarrow> new_socket reg (pending ph) me sock s"
  shows "sub.phase_ok os it ep reg mu (ph, (push_task t s)\<lparr>kern := k, lp_signal := True\<rparr>)"
proof -
  have I: "sub_inv ep reg (pending ph) s"
    using phase_ok_inv[OF ok] by simp
  have "sub_inv ep reg (pending ph) ((push_task t s)\<lparr>kern := k, lp_signal := True\<rparr>)"
    by (rule pushed_inv[OF I k refs new])
  moreover have "evs_ok es ((push_task t s)\<lparr>kern := k, lp_signal := True\<rparr>)" if "evs_ok es s" for es
    using that ev_ok_heap[of s _ "(push_task t s)\<lparr>kern := k, lp_signal := True\<rparr>"] by (auto simp: evs_ok_def push_task_def)
  ultimately show ?thesis
    using ok by (cases ph) (auto simp: sub_good_def)
qed

lemma sub_ok_new_socket:
  assumes "sub_ok os it regs opens mu s i ph" and "so_fd sock \<notin> opens (kern s)"
  shows "new_socket reg (pending ph) (sv_sockets s) sock (lend i s)"
proof -
  have ids: "fst x < sv_sockets s" "so_fd (snd x) \<in> opens (kern s)" if "x \<in> sockets (pending ph) (lend i s)" for x
    using assms(1) that by (auto simp: sub_ok_def sub_fds_def)
  have own: "lp_fd (lend i s) \<in> opens (kern s)" "tq_timeFd (tq (lend i s)) \<in> opens (kern s)"
    using assms(1) by (auto simp: sub_ok_def sub_fds_def)
  have heap: "me \<noteq> sv_sockets s \<and> so_fd (cn_sck c) \<noteq> so_fd sock" if "sr_heap (lend i s) me = Some c" for me c
    using ids[of "(me, cn_sck c)"] that assms(2) by (auto simp: sockets_def)
  have queue: "fst x \<noteq> sv_sockets s \<and> so_fd (snd x) \<noteq> so_fd sock" if "x \<in> set (new_conns (pending ph @ lp_tasks (lend i s)))" for x
    using ids[of x] that assms(2) by (auto simp: sockets_def)
  have "sr_heap (lend i s) (sv_sockets s) = None"
    using heap by (metis option.exhaust)
  moreover have "\<not> fd_of (lend i s) me (so_fd sock)" for me
    using heap unfolding fd_of_def by metis
  ultimately show ?thesis
    using own queue assms(2) unfolding new_socket_def by metis
qed

lemma sub_ok_push:
  assumes so: "sub_ok os it regs opens mu s i ph"
    and sub: "sv_SubReactors s' ! i = (push_task t ((sv_SubReactors s ! i)\<lparr>kern := k0\<rparr>))\<lparr>kern := k, lp_signal := True\<rparr> \<or>
      sv_SubReactors s' ! i = (sv_SubReactors s ! i)\<lparr>kern := k0\<rparr>"
    and tp: "sv_threadpool s' = sv_threadpool s"
    and regs: "regs (kern s') (epfd (sv_SubReactors s ! i)) = regs (kern s) (epfd (sv_SubReactors s ! i))"
    and n: "sv_sockets s \<le> sv_sockets s'" and fds: "opens (kern s) - afds s \<subseteq> opens (kern s') - afds s'"
    and refs: "\<And>me. task_holds me t \<Longrightarrow> sr_heap (sv_SubReactors s ! i) me \<noteq> None"
    and new: "\<And>me sock. t = TAddConnection me sock \<Longrightarrow> me = sv_sockets s \<and> sv_sockets s < sv_sockets s' \<and>
      so_fd sock \<notin> opens (kern s) \<and> so_fd sock \<in> opens (kern s') - afds s'"
  shows "sub_ok os it regs opens mu s' i ph"
  using sub
proof
  let ?ep = "epfd (sv_SubReactors s ! i)"
  have ok: "sub.phase_ok os it ?ep (reg_of regs ?ep) mu (ph, lend i s)"
    and ids: "\<And>x. x \<in> sockets (pending ph) (lend i s) \<Longrightarrow> fst x < sv_sockets s"
    and own: "sub_fds (pending ph) (lend i s) \<subseteq> opens (kern s) - afds s"
    using so by (auto simp: sub_ok_def)
  {
    assume s': "sv_SubReactors s' ! i = (push_task t ((sv_SubReactors s ! i)\<lparr>kern := k0\<rparr>))\<lparr>kern := k, lp_signal := True\<rparr>"
    then have l: "lend i s' = (push_task t (lend i s))\<lparr>kern := kern s', lp_signal := True\<rparr>"
      by (simp add: lend_def Let_def tp push_task_def)
    have "sub.phase_ok os it ?ep (reg_of regs ?ep) mu (ph, lend i s')"
      unfolding l by (rule phase_ok_pushed[OF ok]) (use regs refs new sub_ok_new_socket[OF so] in auto)
    moreover have "sockets (pending ph) (lend i s') = sockets (pending ph) (lend i s) \<union> set (new_conns [t])"
      by (auto simp: l sockets_def push_task_def)
    moreover from this have "sub_fds (pending ph) (lend i s') = sub_fds (pending ph) (lend i s) \<union> (\<lambda>x. so_fd (snd x)) ` set (new_conns [t])"
      by (auto simp: sub_fds_def s' push_task_def)
    moreover have "fst x < sv_sockets s' \<and> so_fd (snd x) \<in> opens (kern s') - afds s'" if "x \<in> set (new_conns [t])" for x
      using that new by (cases t) auto
    ultimately show ?thesis
      using ids own n fds s' unfolding sub_ok_def by (fastforce simp: push_task_def)
  next
    assume s': "sv_SubReactors s' ! i = (sv_SubReactors s ! i)\<lparr>kern := k0\<rparr>"
    then have l: "lend i s' = (lend i s)\<lparr>kern := kern s', rc_pool := rc_pool (lend i s)\<rparr>"
      by (simp add: lend_def Let_def tp)
    have "sub.phase_ok os it ?ep (reg_of regs ?ep) mu (ph, lend i s')"
      unfolding l by (rule phase_ok_lent[OF ok]) (use regs in simp_all)
    moreover have "sockets (pending ph) (lend i s') = sockets (pending ph) (lend i s)" "sub_fds (pending ph) (lend i s') = sub_fds (pending ph) (lend i s)"
      by (simp_all add: sub_fds_def sockets_def s')
    ultimately show ?thesis
      using ids own n fds s' unfolding sub_ok_def by fastforce
  }
qed

lemma on_sub_enqueue:
  assumes M: "machine_ok os regs opens mu" and r: "on_sub (int i) (enqueueTask os t) s = Inr s'"
  shows "\<exists>k sub. s' = s\<lparr>kern := k, sv_SubReactors := (sv_SubReactors s)[i := sub]\<rparr> \<and> regs k = regs (kern s) \<and> opens k = opens (kern s) \<and>
    i < length (sv_SubReactors s) \<and>
    (sub = (push_task t ((sv_SubReactors s ! i)\<lparr>kern := kern s\<rparr>))\<lparr>kern := k, lp_signal := True\<rparr> \<or>
     lp_stop (sv_SubReactors s ! i) \<and> sub = (sv_SubReactors s ! i)\<lparr>kern := kern s\<rparr>)"
proof -
  let ?ep = "epfd (sv_SubReactors s ! i)" and ?sub0 = "(sv_SubReactors s ! i)\<lparr>kern := kern s\<rparr>"
  obtain sub where e: "enqueueTask os t ?sub0 = Inr sub" and s': "s' = s\<lparr>kern := kern sub, sv_SubReactors := (sv_SubReactors s)[i := sub]\<rparr>"
    and i: "i < length (sv_SubReactors s)"
    using r by (auto simp: on_sub_def ebind_eq_Inr split: if_splits)
  have "enqueued (reg_of regs ?ep) (boost regs opens ?ep mu (kern s)) t ?sub0 sub"
    using enqueueTask_runs[OF boosted[OF M, of ?ep "kern s"] conn_faults_simps(5), of t ?sub0] e by simp
  then have q: "sub = (push_task t ?sub0)\<lparr>kern := kern sub, lp_signal := True\<rparr> \<and> regs (kern sub) ?ep = regs (kern s) ?ep \<and>
      boost regs opens ?ep mu (kern s) (kern sub) \<le> boost regs opens ?ep mu (kern s) (kern s) \<or>
      lp_stop (sv_SubReactors s ! i) \<and> sub = ?sub0"
    by (auto simp: enqueued_def)
  then have "beside regs opens ?ep (kern s) (kern sub)"
    by (auto intro: boost_beside)
  moreover have "regs (kern sub) ?ep = regs (kern s) ?ep"
    using q by auto
  ultimately have "regs (kern sub) e = regs (kern s) e" "opens (kern sub) = opens (kern s)" for e
    unfolding beside_def by (cases "e = ?ep"; simp)+
  then have "regs (kern sub) = regs (kern s)" "opens (kern sub) = opens (kern s)"
    by (blast intro: ext)+
  with q i show ?thesis
    unfolding s' by (intro exI[of _ "kern sub"] exI[of _ sub]) auto
qed

lemma push_ok:
  assumes M: "machine_ok os regs opens mu" and ok: "prog_ok os it regs opens mu p"
    and r: "on_sub (int i) (enqueueTask os t) (pg_server p) = Inr s'"
    and refs: "\<And>me. task_holds me t \<Longrightarrow> sr_heap (sv_SubReactors (pg_server p) ! i) me \<noteq> None"
    and old: "\<And>me sock. t \<noteq> TAddConnection me sock"
  shows "prog_ok os it regs opens mu (p\<lparr>pg_server := s'\<rparr>)"
proof -
  let ?s = "pg_server p"
  note D = prog_okD[OF ok]
  obtain k sub where s': "s' = ?s\<lparr>kern := k, sv_SubReactors := (sv_SubReactors ?s)[i := sub]\<rparr>"
    and k: "regs k = regs (kern ?s)" "opens k = opens (kern ?s)" and i: "i < length (sv_SubReactors ?s)"
    and sub: "sub = (push_task t ((sv_SubReactors ?s ! i)\<lparr>kern := kern ?s\<rparr>))\<lparr>kern := k, lp_signal := True\<rparr> \<or> sub = (sv_SubReactors ?s ! i)\<lparr>kern := kern ?s\<rparr>"
    using on_sub_enqueue[OF M r] by auto
  have same: "afds s' = afds ?s" "sr_heap sub = sr_heap (sv_SubReactors ?s ! i)" "epfd sub = epfd (sv_SubReactors ?s ! i)"
    using sub by (auto simp: s' afds_def push_task_def)
  have "s' = ?s\<lparr>kern := k, sv_threadpool := sv_threadpool ?s, sv_SubReactors := (sv_SubReactors ?s)[i := sub]\<rparr>"
    unfolding s' by (cases ?s) simp
  then have main: "srv.acc.phase_ok os (epfd ?s) (reg_of regs (epfd ?s)) mu (phase_of (pg_main p), s')"
    using main_ok_others[OF D(5), of k "(sv_SubReactors ?s)[i := sub]" "sv_threadpool ?s"] k by simp
  have subs: "sub_ok os it regs opens mu s' j (phase_of (pg_subs p ! j))" if "j < length (sv_SubReactors ?s)" for j
  proof (cases "j = i")
    case True
    show ?thesis
      unfolding True by (rule sub_ok_push[OF D(6)[OF i], where t = t]) (use sub i k refs old same in \<open>auto simp: s'\<close>)
  next
    case False
    show ?thesis
      by (rule sub_ok_others[OF D(6)[OF that]]) (use False k same in \<open>auto simp: s'\<close>)
  qed
  have "sr_heap (sv_SubReactors s' ! j) = sr_heap (sv_SubReactors ?s ! j)" for j
    using same(2) i by (cases "j = i") (simp_all add: s')
  then have "jobs_ok s'"
    using D(3) by (simp add: jobs_ok_def s')
  moreover have "eps_ok s'"
    by (rule eps_ok_update[OF D(2) _ i _ same(3)]) (simp_all add: s')
  ultimately show ?thesis
    using main subs D(1,4) k same(1) by (simp add: prog_ok_def Let_def s')
qed

text \<open>A step of the pool alone.\<close>

lemma view_tail:
  assumes "pl_tasks (tp_pool t) = j # js" and "tp_pool t' = (tp_pool t)\<lparr>pl_tasks := js\<rparr>"
  shows "view_step (pool_view i (Some t) p) (pool_view i (Some t') p)"
  using assms by (auto simp: view_step_def pool_view_def)

lemma pool_move_ok:
  assumes ok: "prog_ok os it regs opens mu p" and t: "sv_threadpool (pg_server p) = Some t"
    and n: "0 < n" "tp_reach n t'" and jobs: "pool_jobs t' \<subseteq> pool_jobs t"
    and q: "tp_pool t' = tp_pool t \<or> (\<exists>j js. pl_tasks (tp_pool t) = j # js \<and> tp_pool t' = (tp_pool t)\<lparr>pl_tasks := js\<rparr>) \<or>
      tp_pool t' = (tp_pool t)\<lparr>pl_stop := True\<rparr>"
  shows "prog_ok os it regs opens mu (p\<lparr>pg_server := (pg_server p)\<lparr>sv_threadpool := Some t'\<rparr>\<rparr>)"
proof -
  let ?s = "pg_server p" and ?s' = "(pg_server p)\<lparr>sv_threadpool := Some t'\<rparr>"
  note D = prog_okD[OF ok]
  have "?s' = ?s\<lparr>kern := kern ?s, sv_threadpool := Some t', sv_SubReactors := sv_SubReactors ?s\<rparr>"
    by (cases ?s) simp
  then have main: "srv.acc.phase_ok os (epfd ?s) (reg_of regs (epfd ?s)) mu (phase_of (pg_main p), ?s')"
    using main_ok_others[OF D(5), of "kern ?s" "sv_SubReactors ?s" "Some t'"] by simp
  have view: "view_step (pool_view i (Some t) P) (pool_view i (Some t') P)" for i P
    using q view_tail[of t _ _ t' i P] by (auto simp: pool_view_def view_step_def)
  have subs: "sub_ok os it regs opens mu ?s' j (phase_of (pg_subs p ! j))" if "j < length (sv_SubReactors ?s)" for j
    by (rule sub_ok_others[OF D(6)[OF that]]) (use view t in \<open>auto simp: afds_def\<close>)
  have "jobs_ok ?s'"
    using D(3) t n jobs by (auto simp: jobs_ok_def)
  then show ?thesis
    using main subs D(1,2,4) by (simp add: prog_ok_def Let_def eps_ok_def afds_def)
qed

subsection \<open>The main reactor runs\<close>

lemma not_registered:
  assumes "sub_ok os it regs opens mu s i ph" and "fd \<in> afds s"
  shows "regs (kern s) (epfd (sv_SubReactors s ! i)) fd = None"
proof (rule ccontr)
  assume r: "\<not> ?thesis"
  have "sub_inv (epfd (sv_SubReactors s ! i)) (reg_of regs (epfd (sv_SubReactors s ! i))) (pending ph) (lend i s)"
    using assms(1) phase_ok_inv unfolding sub_ok_def by fastforce
  then have "fd = lp_fd (lend i s) \<or> fd = tq_timeFd (tq (lend i s)) \<or> (\<exists>me. fd_of (lend i s) me fd)"
    using r unfolding sub_inv_def fds_inv_def by simp
  moreover have "fd_of (lend i s) me fd \<Longrightarrow> fd \<in> sub_fds (pending ph) (lend i s)" for me
    by (force simp: fd_of_def sub_fds_def sockets_def)
  ultimately have "fd \<in> sub_fds (pending ph) (lend i s)"
    by (auto simp: sub_fds_def)
  then show False
    using assms by (auto simp: sub_ok_def)
qed

lemma main_change_ok:
  assumes ok: "prog_ok os it regs opens mu p"
    and pok: "srv.acc.phase_ok os (epfd (pg_server p)) (reg_of regs (epfd (pg_server p))) mu (phase_of (pg_main p'), pg_server p')"
    and eff: "main_moved regs opens (pg_server p) (pg_server p')"
      "mainr.more (pg_server p') = mainr.more (pg_server p) \<or> handed regs opens (pg_server p) (pg_server p')"
    and subs: "pg_subs p' = pg_subs p"
  shows "prog_ok os it regs opens mu p'"
proof -
  let ?s = "pg_server p" and ?s' = "pg_server p'"
  note D = prog_okD[OF ok]
  have fds: "opens (kern ?s) - afds ?s \<subseteq> opens (kern ?s') - afds ?s'"
    using eff(1) by (auto simp: main_moved_def)
  have ep: "epfd ?s' = epfd ?s" and acc: "afds ?s' \<subseteq> opens (kern ?s')"
    using eff(1) D(4) by (simp_all add: main_moved_def)
  have regs: "regs (kern ?s') (epfd (sv_SubReactors ?s ! i)) = regs (kern ?s) (epfd (sv_SubReactors ?s ! i))"
    if "i < length (sv_SubReactors ?s)" for i
    using eff(1) not_registered[OF D(6)[OF that]] eps_okD(1)[OF D(2) that] by (simp add: main_moved_def)
  from eff(2) show ?thesis
  proof
    assume "mainr.more ?s' = mainr.more ?s"
    note same = server_fields[OF this]
    have "sub_ok os it regs opens mu ?s' i (phase_of (pg_subs p ! i))" if "i < length (sv_SubReactors ?s)" for i
      by (rule sub_ok_others[OF D(6)[OF that]]) (use same regs[OF that] fds in simp_all)
    moreover have "jobs_ok ?s'" "eps_ok ?s'"
      using D(2,3) same ep by (simp_all add: jobs_ok_def eps_ok_def)
    ultimately show ?thesis
      using D(1) acc pok same ep subs by (simp add: prog_ok_def Let_def)
  next
    assume "handed regs opens ?s ?s'"
    then obtain sck k sub mu' where sck: "so_fd sck \<notin> opens (kern ?s)" "so_fd sck \<in> opens (kern ?s')" "mr_Acceptors ?s' = mr_Acceptors ?s"
      and d: "dispatched (reg_of regs (epfd ?s)) mu' sck (?s\<lparr>kern := k\<rparr>) sub ?s'"
      by (auto simp: handed_def)
    let ?i = "nat (sv_subIdx ?s)"
    have i: "?i < length (sv_SubReactors ?s)"
      using main_phase_ok_inv[OF D(5)] by (auto simp: dispatch_ok_def)
    have s': "sv_SubReactors ?s' = (sv_SubReactors ?s)[?i := sub]" "sv_threadpool ?s' = sv_threadpool ?s" "sv_sockets ?s' = sv_sockets ?s + 1"
      using d by (simp_all add: dispatched_def)
    have sub: "sub = (push_task (TAddConnection (sv_sockets ?s) sck) ((sv_SubReactors ?s ! ?i)\<lparr>kern := k\<rparr>))\<lparr>kern := kern sub, lp_signal := True\<rparr> \<or>
        sub = (sv_SubReactors ?s ! ?i)\<lparr>kern := k\<rparr>"
      using d by (auto simp: dispatched_def enqueued_def)
    have heap: "sr_heap sub = sr_heap (sv_SubReactors ?s ! ?i)" "epfd sub = epfd (sv_SubReactors ?s ! ?i)"
      using sub by (auto simp: push_task_def dest: arg_cong[where f = sr_heap] arg_cong[where f = epfd])
    have "so_fd sck \<notin> afds ?s'"
      using sck D(4) by (auto simp: afds_def)
    then have "sub_ok os it regs opens mu ?s' ?i (phase_of (pg_subs p ! ?i))"
      by (intro sub_ok_push[OF D(6)[OF i], where t = "TAddConnection (sv_sockets ?s) sck" and ?k0.0 = k and k = "kern sub"])
        (use sub i s' regs[OF i] fds sck in auto)
    moreover have "sub_ok os it regs opens mu ?s' j (phase_of (pg_subs p ! j))" if "j < length (sv_SubReactors ?s)" "j \<noteq> ?i" for j
      by (rule sub_ok_others[OF D(6)[OF that(1)]]) (use that s' regs[OF that(1)] fds in simp_all)
    moreover have "sr_heap (sv_SubReactors ?s' ! j) = sr_heap (sv_SubReactors ?s ! j)" for j
      using heap(1) i s'(1) by (cases "j = ?i") simp_all
    then have "jobs_ok ?s'"
      using D(3) by (simp add: jobs_ok_def s')
    moreover have "eps_ok ?s'"
      by (rule eps_ok_update[OF D(2) ep i s'(1) heap(2)])
    ultimately show ?thesis
      using D(1) acc pok ep subs s'(1) by (auto simp: prog_ok_def Let_def)
  qed
qed

lemma main_turn_ok:
  assumes M: "machine_ok os regs opens mu" and ok: "prog_ok os it regs opens mu p" and ph: "phase_of (pg_main p) = ph"
    and step: "loop_step os (main_owner os (handleNewConnection os)) (ph, pg_server p) (ph', s')"
  shows "prog_ok os it regs opens mu (p\<lparr>pg_server := s', pg_main := Active ph'\<rparr>)"
proof -
  note pok = prog_okD(5)[OF ok, unfolded ph]
  note eff = main_step_effect[OF M pok step]
  show ?thesis
    by (rule main_change_ok[OF ok]) (use srv.acc.step_keeps[OF pok step] eff in simp_all)
qed

lemma main_push_ok:
  assumes M: "machine_ok os regs opens mu" and ok: "prog_ok os it regs opens mu p" and r: "enqueueTask os t (pg_server p) = Inr s'"
    and rely: "main_rely os (reg_of regs (epfd (pg_server p))) server_sink (pg_server p) s'"
  shows "prog_ok os it regs opens mu (p\<lparr>pg_server := s'\<rparr>)"
proof -
  let ?s = "pg_server p"
  note pok = prog_okD(5)[OF ok]
  have "enqueued (reg_of regs (epfd ?s)) (boost regs opens (epfd ?s) mu (kern ?s)) t ?s s'"
    using enqueueTask_runs[OF boosted[OF M, of "epfd ?s" "kern ?s"], of main_faults t ?s] r by simp
  then have e: "boost regs opens (epfd ?s) mu (kern ?s) (kern s') \<le> boost regs opens (epfd ?s) mu (kern ?s) (kern ?s)"
      "epfd s' = epfd ?s" "mr_Acceptors s' = mr_Acceptors ?s" "mainr.more s' = mainr.more ?s"
    by (auto simp: enqueued_def push_task_def)
  have "srv.acc.any_step os (reg_of regs (epfd ?s)) (phase_of (pg_main p), ?s) (phase_of (pg_main p), s')"
    using rely by (simp add: srv.acc.any_step_def)
  from srv.acc.any_step_keeps[OF pok this] show ?thesis
    by (intro main_change_ok[OF ok]) (use beside_main_moved[OF boost_beside[OF e(1)] e(2,3)] e(4) in simp_all)
qed

lemma main_stop_task_ok:
  assumes M: "machine_ok os regs opens mu" and ok: "prog_ok os it regs opens mu p" and r: "MainReactor_stop os (pg_server p) = Inr s'"
  shows "prog_ok os it regs opens mu (p\<lparr>pg_server := s'\<rparr>)"
  by (rule main_push_ok[OF M ok, of MStop]) (use r in \<open>simp_all add: MainReactor_stop_def[symmetric] main_rely.stopping\<close>)

lemma main_listen_task_ok:
  assumes M: "machine_ok os regs opens mu" and ok: "prog_ok os it regs opens mu p"
    and r: "MainReactor_listenPort os port (pg_server p) = Inr s'"
  shows "prog_ok os it regs opens mu (p\<lparr>pg_server := s'\<rparr>)"
  by (rule main_push_ok[OF M ok, of "MListen port"])
    (use r in \<open>simp_all add: MainReactor_listenPort_def[symmetric] main_rely.listening[of _ port]\<close>)

lemma clients_ok:
  assumes ok: "prog_ok os it regs opens mu p" and k: "regs k = regs (kern (pg_server p))" "opens k = opens (kern (pg_server p))"
  shows "prog_ok os it regs opens mu (p\<lparr>pg_server := (pg_server p)\<lparr>kern := k\<rparr>\<rparr>)"
proof -
  let ?s = "pg_server p"
  have "?s\<lparr>kern := k, sv_threadpool := sv_threadpool ?s, sv_SubReactors := sv_SubReactors ?s\<rparr> = ?s\<lparr>kern := k\<rparr>"
    by (cases ?s) simp
  then have "srv.acc.phase_ok os (epfd ?s) (reg_of regs (epfd ?s)) mu (phase_of (pg_main p), ?s\<lparr>kern := k\<rparr>)"
    using main_ok_others[OF prog_okD(5)[OF ok], of k "sv_SubReactors ?s" "sv_threadpool ?s"] k by simp
  then show ?thesis
    by (intro main_change_ok[OF ok]) (use k in \<open>simp_all add: beside_main_moved beside_def\<close>)
qed

end
