(* ===== verification/ProgramSafety.thy ===== *)
theory ProgramSafety
  imports ProgramInv
begin

section \<open>The whole program is safe and stops in order\<close>

subsection \<open>Where the threads are\<close>

definition all_subs :: "('a \<Rightarrow> bool) \<Rightarrow> nat \<Rightarrow> 'a list \<Rightarrow> bool" where
  "all_subs P n ths \<longleftrightarrow> (\<forall>i < n. P (ths ! i))"

definition threads_ok :: "'k program \<Rightarrow> bool" where
  "threads_ok p \<longleftrightarrow> (let n = length (pg_subs p); started = all_subs (\<lambda>th. th \<noteq> Created) in
     case pg_ctl p of
       StartSub i \<Rightarrow> i \<le> n \<and> pg_main p = Created \<and> (\<forall>j < n. pg_subs p ! j = Created \<longleftrightarrow> i \<le> j)
     | StartMain \<Rightarrow> pg_main p = Created \<and> started n (pg_subs p)
     | Waiting \<Rightarrow> pg_main p \<noteq> Created \<and> started n (pg_subs p)
     | StopMain \<Rightarrow> pg_main p \<noteq> Created \<and> started n (pg_subs p)
     | JoinMain \<Rightarrow> pg_main p \<noteq> Created \<and> started n (pg_subs p)
     | StopSub i \<Rightarrow> i \<le> n \<and> pg_main p = Ended \<and> started n (pg_subs p) \<and> all_subs (\<lambda>th. th = Ended) i (pg_subs p)
     | JoinSub i \<Rightarrow> i < n \<and> pg_main p = Ended \<and> started n (pg_subs p) \<and> all_subs (\<lambda>th. th = Ended) i (pg_subs p)
     | _ \<Rightarrow> pg_main p = Ended \<and> all_subs (\<lambda>th. th = Ended) n (pg_subs p))"

text \<open>The pool is stopped after every loop has ended, and joined before \<open>stop\<close> returns.\<close>

definition pool_flag_ok :: "'k program \<Rightarrow> bool" where
  "pool_flag_ok p \<longleftrightarrow>
     (sv_useThreadPool (pg_server p) \<longleftrightarrow> sv_threadpool (pg_server p) \<noteq> None) \<and>
     (pg_ctl p = StopPool \<longrightarrow> sv_useThreadPool (pg_server p)) \<and> (pg_ctl p = JoinPool \<longrightarrow> sv_useThreadPool (pg_server p)) \<and>
     (\<forall>t. sv_threadpool (pg_server p) = Some t \<longrightarrow>
        (pl_stop (tp_pool t) \<longleftrightarrow> pg_ctl p = JoinPool \<or> pg_ctl p = Returned) \<and> (pg_ctl p = Returned \<longrightarrow> all_joined t))"

definition ended_ok :: "'k program \<Rightarrow> bool" where
  "ended_ok p \<longleftrightarrow> (pg_main p = Ended \<longrightarrow> lp_stop (pg_server p)) \<and>
     (\<forall>i < length (pg_subs p). pg_subs p ! i = Ended \<longrightarrow> lp_stop (sv_SubReactors (pg_server p) ! i))"

text \<open>The stop task of the main reactor is the last of its tasks.\<close>

fun before_stop :: "ctl \<Rightarrow> bool" where
  "before_stop (StartSub i) = True"
| "before_stop StartMain = True"
| "before_stop Waiting = True"
| "before_stop StopMain = True"
| "before_stop _ = False"

definition mstop_ok :: "bool \<Rightarrow> main_task list \<Rightarrow> bool \<Rightarrow> (int \<times> acceptor) list \<Rightarrow> bool" where
  "mstop_ok before q stopped as \<longleftrightarrow>
     (if before then MStop \<notin> set q \<and> \<not> stopped
      else stopped \<and> q = [] \<and> as = [] \<or> \<not> stopped \<and> (\<exists>pre. q = pre @ [MStop] \<and> MStop \<notin> set pre))"

definition main_stop_ok :: "'k program \<Rightarrow> bool" where
  "main_stop_ok p \<longleftrightarrow> mstop_ok (before_stop (pg_ctl p)) (pending (phase_of (pg_main p)) @ lp_tasks (pg_server p))
     (lp_stop (pg_server p)) (mr_Acceptors (pg_server p))"

text \<open>The sub-reactors that have been asked to stop.\<close>

fun asked :: "ctl \<Rightarrow> nat \<Rightarrow> bool" where
  "asked (JoinSub j) i \<longleftrightarrow> i \<le> j"
| "asked (StopSub j) i \<longleftrightarrow> i < j"
| "asked StopPool i \<longleftrightarrow> True"
| "asked JoinPool i \<longleftrightarrow> True"
| "asked Returned i \<longleftrightarrow> True"
| "asked _ i \<longleftrightarrow> False"

definition asked_ok :: "'k program \<Rightarrow> bool" where
  "asked_ok p \<longleftrightarrow> (\<forall>i < length (pg_subs p). asked (pg_ctl p) i \<longrightarrow>
     stop_asked (pending (phase_of (pg_subs p ! i))) (sv_SubReactors (pg_server p) ! i))"

definition ctl_ok :: "'k program \<Rightarrow> bool" where
  "ctl_ok p \<longleftrightarrow> threads_ok p \<and> pool_flag_ok p \<and> ended_ok p \<and> main_stop_ok p \<and> asked_ok p"

subsection \<open>The queue of the main reactor\<close>

lemma main_task_effect:
  "main_task_run os t s = ret s' \<Longrightarrow>
   lp_tasks s' = lp_tasks s \<and> (if t = MStop then lp_stop s' \<and> mr_Acceptors s' = [] else lp_stop s' = lp_stop s)"
  by (cases t) (auto simp: main_task_run_def main_listen_def main_stop_def stopLoop_def ebind_eq_Inr split: if_splits)

lemma main_step_queue:
  fixes s :: "'k server"
  assumes M: "machine_ok os regs opens mu" and ok: "srv.acc.phase_ok os ep (reg_of regs ep) mu (ph, s)"
    and step: "loop_step os (main_owner os (handleNewConnection os)) (ph, s) (ph', s')"
  shows "pending ph' @ lp_tasks s' = pending ph @ lp_tasks s \<and> lp_stop s' = lp_stop s \<and> mr_Acceptors s' = mr_Acceptors s \<or>
    (\<exists>t. pending ph @ lp_tasks s = t # (pending ph' @ lp_tasks s') \<and>
       (if t = MStop then lp_stop s' \<and> mr_Acceptors s' = [] else lp_stop s' = lp_stop s))"
proof -
  have I: "main_inv ep (reg_of regs ep) s" "dispatch_ok s"
    using main_phase_ok_inv[OF ok] by simp_all
  show ?thesis
  proof (cases ph)
    case Poll
    then obtain chs k where "ph' = Events chs" "s' = s\<lparr>kern := k\<rparr>"
      using step by (auto simp: loop_step_def rbind_eq_ret)
    then show ?thesis
      using Poll by simp
  next
    case (Events es)
    show ?thesis
    proof (cases es)
      case Nil
      then have "ph' = Tasks (lp_tasks s)" "s' = s\<lparr>lp_tasks := []\<rparr>"
        using step by (auto simp: Events loop_step_def)
      then show ?thesis
        using Events by simp
    next
      case (Cons e es')
      then have h: "handle_channel os (main_owner os (handleNewConnection os)) e s = ret s'" "ph' = phase.Events es'"
        using step by (auto simp: Events loop_step_def rbind_eq_ret)
      have "server_sink (mainr.more s)" "main_evs_ok (e # es') s"
        using I(2) ok by (simp_all add: Events Cons server_sink_ok)
      from runs_retD[OF srv.main_event_runs[OF machine_okD(3)[OF M] machine_okD(1)[OF M] I(1) this] h(1)] show ?thesis
        using event_done_same(1) by (auto simp: Events h(2))
    qed
  next
    case (Tasks ts)
    show ?thesis
    proof (cases ts)
      case Nil
      then have "ph' = Poll" "s' = s"
        using step by (auto simp: Tasks loop_step_def)
      then show ?thesis
        using Tasks Nil by simp
    next
      case (Cons t ts')
      then have t: "main_task_run os t s = ret s'" "ph' = phase.Tasks ts'"
        using step by (auto simp: Tasks loop_step_def rbind_eq_ret main_owner_def)
      from main_task_effect[OF t(1)] show ?thesis
        by (simp add: Tasks Cons t(2))
    qed
  qed
qed

lemma mstop_ok_step:
  assumes "mstop_ok b q stopped as" and
    "q' = q \<and> stopped' = stopped \<and> as' = as \<or>
     (\<exists>t. q = t # q' \<and> (if t = MStop then stopped' \<and> as' = [] else stopped' = stopped))"
  shows "mstop_ok b q' stopped' as'"
  using assms by (auto simp: mstop_ok_def append_eq_Cons_conv split: if_splits)

text \<open>What a step of the main reactor does to the sub-reactors.\<close>

definition subs_kept :: "'k server \<Rightarrow> 'k server \<Rightarrow> bool" where
  "subs_kept s s' \<longleftrightarrow> length (sv_SubReactors s') = length (sv_SubReactors s) \<and> sv_threadpool s' = sv_threadpool s \<and>
     sv_useThreadPool s' = sv_useThreadPool s \<and>
     (\<forall>i < length (sv_SubReactors s). (lp_stop (sv_SubReactors s ! i) \<longrightarrow> lp_stop (sv_SubReactors s' ! i)) \<and>
        set (lp_tasks (sv_SubReactors s ! i)) \<subseteq> set (lp_tasks (sv_SubReactors s' ! i)))"

lemma main_step_subs:
  assumes "mainr.more s' = mainr.more s \<or> handed regs opens s s'"
  shows "subs_kept s s'"
  using assms
proof
  assume "mainr.more s' = mainr.more s"
  from server_fields[OF this] show ?thesis
    by (simp add: subs_kept_def)
next
  assume "handed regs opens s s'"
  then obtain sck k sub mu where d: "dispatched (reg_of regs (epfd s)) mu sck (s\<lparr>kern := k\<rparr>) sub s'"
    by (auto simp: handed_def)
  let ?old = "sv_SubReactors s ! nat (sv_subIdx s)"
  have "(lp_stop ?old \<longrightarrow> lp_stop sub) \<and> set (lp_tasks ?old) \<subseteq> set (lp_tasks sub)"
    using d by (auto simp: dispatched_def enqueued_def push_task_def)
  then have "lp_stop (sv_SubReactors s ! i) \<longrightarrow> lp_stop ((sv_SubReactors s)[nat (sv_subIdx s) := sub] ! i)"
      "set (lp_tasks (sv_SubReactors s ! i)) \<subseteq> set (lp_tasks ((sv_SubReactors s)[nat (sv_subIdx s) := sub] ! i))"
      if "i < length (sv_SubReactors s)" for i
      using that by (cases "i = nat (sv_subIdx s)"; simp)+
  then show ?thesis
    using d by (simp add: subs_kept_def dispatched_def)
qed

subsection \<open>Every step keeps the invariant\<close>

lemma prog_ok_threads:
  assumes "prog_ok os it regs opens mu p" and "pg_server p' = pg_server p" and "phase_of (pg_main p') = phase_of (pg_main p)"
    and "length (pg_subs p') = length (pg_subs p)"
    and "\<And>i. i < length (pg_subs p) \<Longrightarrow> phase_of (pg_subs p' ! i) = phase_of (pg_subs p ! i)"
  shows "prog_ok os it regs opens mu p'"
  using assms by (simp add: prog_ok_def Let_def)

lemma all_subs_update: "all_subs P n ths \<Longrightarrow> P th \<Longrightarrow> n \<le> length ths \<Longrightarrow> all_subs P n (ths[i := th])"
  unfolding all_subs_def by (metis nth_list_update_eq nth_list_update_neq order.strict_trans2)

lemma all_subs_Suc: "all_subs P (Suc n) ths \<longleftrightarrow> all_subs P n ths \<and> P (ths ! n)"
  by (auto simp: all_subs_def less_Suc_eq)

lemma all_subs_0 [simp]: "all_subs P 0 ths"
  by (simp add: all_subs_def)

lemma ctl_ok_cong:
  assumes "pg_main p' = pg_main p" "pg_subs p' = pg_subs p" "pg_ctl p' = pg_ctl p"
    and "lp_tasks (pg_server p') = lp_tasks (pg_server p)" "lp_stop (pg_server p') = lp_stop (pg_server p)"
    "mr_Acceptors (pg_server p') = mr_Acceptors (pg_server p)" "sv_SubReactors (pg_server p') = sv_SubReactors (pg_server p)"
    "sv_threadpool (pg_server p') = sv_threadpool (pg_server p)" "sv_useThreadPool (pg_server p') = sv_useThreadPool (pg_server p)"
  shows "ctl_ok p' = ctl_ok p"
  unfolding ctl_ok_def threads_ok_def pool_flag_ok_def ended_ok_def main_stop_ok_def asked_ok_def by (simp only: assms)

lemma start_step_ok:
  assumes step: "start_step p p'" and ok: "prog_ok os it regs opens mu p" and c: "ctl_ok p"
  shows "prog_ok os it regs opens mu p' \<and> ctl_ok p'"
  using step
proof cases
  case (start_sub i)
  then have created: "pg_subs p ! i = Created"
    using c by (simp add: ctl_ok_def threads_ok_def)
  have "prog_ok os it regs opens mu p'"
    by (rule prog_ok_threads[OF ok]) (use start_sub created in \<open>auto simp: nth_list_update\<close>)
  moreover have "threads_ok p'"
    using c start_sub by (auto simp: ctl_ok_def threads_ok_def nth_list_update)
  moreover have "pool_flag_ok p'" "ended_ok p'" "main_stop_ok p'" "asked_ok p'"
    using c start_sub by (auto simp: ctl_ok_def pool_flag_ok_def ended_ok_def main_stop_ok_def asked_ok_def nth_list_update)
  ultimately show ?thesis
    by (simp add: ctl_ok_def)
next
  case subs_started
  then show ?thesis
    using c prog_ok_threads[OF ok, of p']
    by (auto simp: ctl_ok_def threads_ok_def pool_flag_ok_def ended_ok_def main_stop_ok_def asked_ok_def all_subs_def)
next
  case start_main
  then show ?thesis
    using c prog_ok_threads[OF ok, of p']
    by (auto simp: ctl_ok_def threads_ok_def pool_flag_ok_def ended_ok_def main_stop_ok_def asked_ok_def all_subs_def)
qed

lemma wait_step_ok:
  assumes step: "wait_step p p'" and ok: "prog_ok os it regs opens mu p" and c: "ctl_ok p"
  shows "prog_ok os it regs opens mu p' \<and> ctl_ok p'"
  using step
proof cases
  case asleep
  then show ?thesis
    using ok c by simp
next
  case signalled
  then show ?thesis
    using c prog_ok_threads[OF ok, of p']
    by (auto simp: ctl_ok_def threads_ok_def pool_flag_ok_def ended_ok_def main_stop_ok_def asked_ok_def all_subs_def)
qed

lemma outside_step_ok:
  assumes step: "outside_step env p p'" and ok: "prog_ok os it regs opens mu p" and c: "ctl_ok p"
    and env: "\<And>k k'. env k k' \<Longrightarrow> regs k' = regs k \<and> opens k' = opens k"
  shows "prog_ok os it regs opens mu p' \<and> ctl_ok p'"
  using step
proof cases
  case signal
  then show ?thesis
    using c prog_ok_threads[OF ok, of p'] ctl_ok_cong[of p' p] by (simp add: onStopSignal_def)
next
  case (clients k)
  then show ?thesis
    using c clients_ok[OF ok, of k] ctl_ok_cong[of p' p] env by simp
qed

text \<open>Other threads only add to the queue of a sub-reactor, and no loop is started again.\<close>

definition subs_grow :: "'k server \<Rightarrow> 'k server \<Rightarrow> bool" where
  "subs_grow s s' \<longleftrightarrow> (\<forall>i < length (sv_SubReactors s). (lp_stop (sv_SubReactors s ! i) \<longrightarrow> lp_stop (sv_SubReactors s' ! i)) \<and>
     set (lp_tasks (sv_SubReactors s ! i)) \<subseteq> set (lp_tasks (sv_SubReactors s' ! i)))"

lemma ended_ok_grow:
  "ended_ok p \<Longrightarrow> length (pg_subs p) = length (sv_SubReactors (pg_server p)) \<Longrightarrow> subs_grow (pg_server p) (pg_server p') \<Longrightarrow>
   pg_subs p' = pg_subs p \<Longrightarrow> (pg_main p' = Ended \<Longrightarrow> lp_stop (pg_server p')) \<Longrightarrow> ended_ok p'"
  by (simp add: ended_ok_def subs_grow_def)

lemma asked_ok_grow:
  "asked_ok p \<Longrightarrow> length (pg_subs p) = length (sv_SubReactors (pg_server p)) \<Longrightarrow> subs_grow (pg_server p) (pg_server p') \<Longrightarrow>
   pg_subs p' = pg_subs p \<Longrightarrow> pg_ctl p' = pg_ctl p \<Longrightarrow> asked_ok p'"
  by (fastforce simp: asked_ok_def subs_grow_def stop_asked_def)

lemma on_sub_grow:
  assumes "on_sub (int i) (enqueueTask os t) s = Inr s'"
  shows "subs_grow s s'" "length (sv_SubReactors s') = length (sv_SubReactors s)" "lp_tasks s' = lp_tasks s" "lp_stop s' = lp_stop s"
    "mr_Acceptors s' = mr_Acceptors s" "sv_threadpool s' = sv_threadpool s" "sv_useThreadPool s' = sv_useThreadPool s"
    "i < length (sv_SubReactors s)" "t \<in> set (lp_tasks (sv_SubReactors s' ! i)) \<or> lp_stop (sv_SubReactors s' ! i)"
proof -
  obtain sub where sub: "enqueueTask os t ((sv_SubReactors s ! i)\<lparr>kern := kern s\<rparr>) = Inr sub"
    and s': "s' = s\<lparr>kern := kern sub, sv_SubReactors := (sv_SubReactors s)[i := sub]\<rparr>" and i: "i < length (sv_SubReactors s)"
    using assms by (auto simp: on_sub_def ebind_eq_Inr split: if_splits)
  have q: "lp_stop sub = lp_stop (sv_SubReactors s ! i)" "set (lp_tasks (sv_SubReactors s ! i)) \<subseteq> set (lp_tasks sub)"
    "t \<in> set (lp_tasks sub) \<or> lp_stop sub"
    using sub by (auto simp: enqueueTask_def wakeup_write_def push_task_def ebind_eq_Inr split: if_splits prod.splits)
  then show "subs_grow s s'"
    using i by (auto simp: subs_grow_def s' nth_list_update)
  show "length (sv_SubReactors s') = length (sv_SubReactors s)" "lp_tasks s' = lp_tasks s" "lp_stop s' = lp_stop s"
    "mr_Acceptors s' = mr_Acceptors s" "sv_threadpool s' = sv_threadpool s" "sv_useThreadPool s' = sv_useThreadPool s"
    "i < length (sv_SubReactors s)" "t \<in> set (lp_tasks (sv_SubReactors s' ! i)) \<or> lp_stop (sv_SubReactors s' ! i)"
    using i q(3) by (simp_all add: s')
qed

lemma main_stop_ok_same:
  assumes "main_stop_ok p" and "pg_main p' = pg_main p" and "lp_tasks (pg_server p') = lp_tasks (pg_server p)"
    and "lp_stop (pg_server p') = lp_stop (pg_server p)" and "mr_Acceptors (pg_server p') = mr_Acceptors (pg_server p)"
    and "before_stop (pg_ctl p') = before_stop (pg_ctl p)"
  shows "main_stop_ok p'"
  using assms(1) unfolding main_stop_ok_def assms(2-6) .

lemma SubReactor_stop_enqueues: "SubReactor_stop os = enqueueTask os TStop"
  by (rule ext) (simp add: SubReactor_stop_def)

lemma stop_sub_ok:
  assumes M: "machine_ok os regs opens mu" and ok: "prog_ok os it regs opens mu p" and c: "ctl_ok p"
    and i: "pg_ctl p = StopSub i" "i < length (pg_subs p)" and r: "on_sub (int i) (SubReactor_stop os) (pg_server p) = Inr s"
  shows "prog_ok os it regs opens mu (p\<lparr>pg_server := s, pg_ctl := JoinSub i\<rparr>) \<and> ctl_ok (p\<lparr>pg_server := s, pg_ctl := JoinSub i\<rparr>)"
proof
  let ?p = "p\<lparr>pg_server := s, pg_ctl := JoinSub i\<rparr>"
  note g = on_sub_grow[OF r[unfolded SubReactor_stop_enqueues]]
  have "prog_ok os it regs opens mu (p\<lparr>pg_server := s\<rparr>)"
    by (rule push_ok[OF M ok r[unfolded SubReactor_stop_enqueues]]) simp_all
  then show "prog_ok os it regs opens mu ?p"
    by (rule prog_ok_threads) simp_all
  note len = prog_okD(1)[OF ok]
  have "main_stop_ok ?p"
    by (rule main_stop_ok_same[of p]) (use c i g(3-5) in \<open>simp_all add: ctl_ok_def\<close>)
  moreover have "threads_ok ?p" "pool_flag_ok ?p"
    using c i g(6,7) by (simp_all add: ctl_ok_def threads_ok_def pool_flag_ok_def)
  moreover have "ended_ok ?p"
    by (rule ended_ok_grow[of p]) (use c g(1,4) len in \<open>simp_all add: ctl_ok_def ended_ok_def\<close>)
  moreover have "asked_ok (p\<lparr>pg_server := s\<rparr>)"
    by (rule asked_ok_grow[of p]) (use c g(1) len in \<open>simp_all add: ctl_ok_def\<close>)
  then have "asked_ok ?p"
    using i g(9) by (auto simp: asked_ok_def stop_asked_def le_less)
  ultimately show "ctl_ok ?p"
    by (simp add: ctl_ok_def)
qed

lemma stop_main_ok:
  assumes M: "machine_ok os regs opens mu" and ok: "prog_ok os it regs opens mu p" and c: "ctl_ok p"
    and i: "pg_ctl p = StopMain" and r: "MainReactor_stop os (pg_server p) = Inr s"
  shows "prog_ok os it regs opens mu (p\<lparr>pg_server := s, pg_ctl := JoinMain\<rparr>) \<and> ctl_ok (p\<lparr>pg_server := s, pg_ctl := JoinMain\<rparr>)"
proof
  let ?p = "p\<lparr>pg_server := s, pg_ctl := JoinMain\<rparr>"
  have "prog_ok os it regs opens mu (p\<lparr>pg_server := s\<rparr>)"
    by (rule main_stop_task_ok[OF M ok r])
  then show "prog_ok os it regs opens mu ?p"
    by (rule prog_ok_threads) simp_all
  have run: "\<not> lp_stop (pg_server p)" "MStop \<notin> set (pending (phase_of (pg_main p)) @ lp_tasks (pg_server p))"
    using c i by (simp_all add: ctl_ok_def main_stop_ok_def mstop_ok_def)
  then have s: "lp_tasks s = lp_tasks (pg_server p) @ [MStop]" "lp_stop s = lp_stop (pg_server p)" "mainr.more s = mainr.more (pg_server p)"
    using r by (auto simp: MainReactor_stop_def enqueueTask_def wakeup_write_def push_task_def ebind_eq_Inr split: prod.splits)
  note f = server_fields[OF s(3)]
  have "main_stop_ok ?p"
    using run s by (auto simp: main_stop_ok_def mstop_ok_def)
  then show "ctl_ok ?p"
    using c i f s(2) by (simp add: ctl_ok_def threads_ok_def pool_flag_ok_def ended_ok_def asked_ok_def)
qed

text \<open>Only the control thread has moved.\<close>

lemma ctl_moved:
  assumes ok: "prog_ok os it regs opens mu p" and c: "ctl_ok p" and b: "before_stop ct = before_stop (pg_ctl p)"
    and th: "threads_ok (p\<lparr>pg_ctl := ct\<rparr>)" and fl: "pool_flag_ok (p\<lparr>pg_ctl := ct\<rparr>)"
    and asked: "\<And>i. i < length (pg_subs p) \<Longrightarrow> asked ct i \<Longrightarrow> asked (pg_ctl p) i"
  shows "prog_ok os it regs opens mu (p\<lparr>pg_ctl := ct\<rparr>) \<and> ctl_ok (p\<lparr>pg_ctl := ct\<rparr>)"
proof -
  have "prog_ok os it regs opens mu (p\<lparr>pg_ctl := ct\<rparr>)"
    by (rule prog_ok_threads[OF ok]) simp_all
  moreover have "main_stop_ok (p\<lparr>pg_ctl := ct\<rparr>)"
    by (rule main_stop_ok_same[of p]) (use c b in \<open>simp_all add: ctl_ok_def\<close>)
  moreover have "ended_ok (p\<lparr>pg_ctl := ct\<rparr>)" "asked_ok (p\<lparr>pg_ctl := ct\<rparr>)"
    using c asked by (simp_all add: ctl_ok_def ended_ok_def asked_ok_def)
  ultimately show ?thesis
    using th fl by (simp add: ctl_ok_def)
qed

lemma stop_step_ok:
  assumes M: "machine_ok os regs opens mu" and step: "stop_step os p p'" and ok: "prog_ok os it regs opens mu p" and c: "ctl_ok p"
  shows "prog_ok os it regs opens mu p' \<and> ctl_ok p'"
proof -
  have c': "threads_ok p" "pool_flag_ok p"
    using c by (simp_all add: ctl_ok_def)
  from step show ?thesis
  proof cases
    case (stop_main s)
    then show ?thesis
      using stop_main_ok[OF M ok c] by simp
  next
    case join_main
    show ?thesis
      unfolding join_main(1) by (rule ctl_moved[OF ok c]) (use c' join_main in \<open>simp_all add: threads_ok_def pool_flag_ok_def\<close>)
  next
    case (stop_sub i s)
    then show ?thesis
      using stop_sub_ok[OF M ok c] by simp
  next
    case (join_sub i)
    have "all_subs P (Suc i) ths \<longleftrightarrow> all_subs P i ths \<and> P (ths ! i)" for P and ths :: "sub_task phase thread list"
      by (rule all_subs_Suc)
    then show ?thesis
      unfolding join_sub(1)
      by - (rule ctl_moved[OF ok c]; use c' join_sub in \<open>simp_all add: threads_ok_def pool_flag_ok_def Let_def less_Suc_eq_le\<close>)
  next
    case subs_stopped
    show ?thesis
      unfolding subs_stopped(1)
      by (rule ctl_moved[OF ok c]) (use c' subs_stopped in \<open>auto simp: threads_ok_def pool_flag_ok_def Let_def\<close>)
  next
    case (stop_pool t)
    let ?t = "t\<lparr>tp_pool := (tp_pool t)\<lparr>pl_stop := True\<rparr>, tp_bcast := True\<rparr>"
    let ?p = "p\<lparr>pg_server := (pg_server p)\<lparr>sv_threadpool := Some ?t\<rparr>\<rparr>"
    obtain n where n: "0 < n" "tp_reach n t"
      using prog_okD(3)[OF ok] stop_pool by (auto simp: jobs_ok_def)
    have "\<not> pl_stop (tp_pool t)"
      using c' stop_pool by (auto simp: pool_flag_ok_def)
    then have "tp_reach n ?t"
      using tp_step.set_stop n(2) tp_reach.step by blast
    then have "prog_ok os it regs opens mu ?p"
      using stop_pool by (intro pool_move_ok[OF ok _ n(1)]) (auto simp: pool_jobs_def)
    then have "prog_ok os it regs opens mu p'"
      by (rule prog_ok_threads) (simp_all add: stop_pool)
    moreover have "main_stop_ok p'"
      by (rule main_stop_ok_same[of p]) (use c stop_pool in \<open>simp_all add: ctl_ok_def\<close>)
    moreover have "ended_ok p'" "asked_ok p'" "threads_ok p'" "pool_flag_ok p'"
      using c stop_pool by (simp_all add: ctl_ok_def ended_ok_def asked_ok_def threads_ok_def pool_flag_ok_def)
    ultimately show ?thesis
      by (simp add: ctl_ok_def)
  next
    case (join_pool t)
    show ?thesis
      unfolding join_pool(1) by (rule ctl_moved[OF ok c]) (use c' join_pool in \<open>simp_all add: threads_ok_def pool_flag_ok_def\<close>)
  qed
qed

lemma pool_flag_ok_same:
  assumes "pool_flag_ok p" and "sv_useThreadPool (pg_server p') = sv_useThreadPool (pg_server p)" and "pg_ctl p' = pg_ctl p"
    and "sv_threadpool (pg_server p') = sv_threadpool (pg_server p)"
  shows "pool_flag_ok p'"
  using assms(1) unfolding pool_flag_ok_def assms(2-4) .

lemma threads_ok_same:
  assumes "threads_ok p" and "pg_main p' = pg_main p" and "pg_subs p' = pg_subs p" and "pg_ctl p' = pg_ctl p"
  shows "threads_ok p'"
  using assms(1) unfolding threads_ok_def assms(2-4) .

text \<open>A step of the main reactor.\<close>

lemma subs_kept_grow: "subs_kept s s' \<Longrightarrow> subs_grow s s'"
  by (simp add: subs_kept_def subs_grow_def)

lemma main_turn_safe:
  assumes M: "machine_ok os regs opens mu" and ok: "prog_ok os it regs opens mu p" and c: "ctl_ok p" and ph: "pg_main p = Active ph"
    and step: "loop_step os (main_owner os (handleNewConnection os)) (ph, pg_server p) (ph', s)"
  shows "prog_ok os it regs opens mu (p\<lparr>pg_server := s, pg_main := Active ph'\<rparr>) \<and> ctl_ok (p\<lparr>pg_server := s, pg_main := Active ph'\<rparr>)"
proof
  let ?p = "p\<lparr>pg_server := s, pg_main := Active ph'\<rparr>"
  have ph0: "phase_of (pg_main p) = ph"
    by (simp add: ph)
  note pok = prog_okD(5)[OF ok, unfolded ph0]
  show "prog_ok os it regs opens mu ?p"
    by (rule main_turn_ok[OF M ok ph0 step])
  have kept: "subs_kept (pg_server p) s"
    using main_step_subs main_step_effect[OF M pok step] by blast
  note len = prog_okD(1)[OF ok]
  have "main_stop_ok ?p"
    using c mstop_ok_step[OF _ main_step_queue[OF M pok step]] by (simp add: ctl_ok_def main_stop_ok_def ph)
  moreover have "ended_ok ?p"
    by (rule ended_ok_grow[of p]) (use c len subs_kept_grow[OF kept] in \<open>simp_all add: ctl_ok_def\<close>)
  moreover have "asked_ok ?p"
    by (rule asked_ok_grow[of p]) (use c len subs_kept_grow[OF kept] in \<open>simp_all add: ctl_ok_def\<close>)
  moreover have "pool_flag_ok ?p"
    by (rule pool_flag_ok_same[of p]) (use c kept in \<open>simp_all add: ctl_ok_def subs_kept_def\<close>)
  moreover have "threads_ok ?p"
    using c ph by (cases "pg_ctl p") (simp_all add: ctl_ok_def threads_ok_def)
  ultimately show "ctl_ok ?p"
    by (simp add: ctl_ok_def)
qed

lemma main_end_safe:
  assumes ok: "prog_ok os it regs opens mu p" and c: "ctl_ok p" and ph: "pg_main p = Active ph" and e: "loop_ended (ph, pg_server p)"
  shows "prog_ok os it regs opens mu (p\<lparr>pg_main := Ended\<rparr>) \<and> ctl_ok (p\<lparr>pg_main := Ended\<rparr>)"
proof -
  have stop: "ph = Poll" "lp_stop (pg_server p)"
    using e by (auto simp: loop_ended_def)
  have "main_stop_ok (p\<lparr>pg_main := Ended\<rparr>)"
    using c by (simp add: ctl_ok_def main_stop_ok_def ph stop(1))
  moreover have "threads_ok (p\<lparr>pg_main := Ended\<rparr>)"
    using c ph by (cases "pg_ctl p") (simp_all add: ctl_ok_def threads_ok_def)
  moreover have "prog_ok os it regs opens mu (p\<lparr>pg_main := Ended\<rparr>)"
    by (rule prog_ok_threads[OF ok]) (simp_all add: ph stop(1))
  moreover have "pool_flag_ok (p\<lparr>pg_main := Ended\<rparr>)"
    by (rule pool_flag_ok_same[of p]) (use c in \<open>simp_all add: ctl_ok_def\<close>)
  ultimately show ?thesis
    using c stop(2) by (simp add: ctl_ok_def ended_ok_def asked_ok_def)
qed

text \<open>A step of a sub-reactor.\<close>

lemma active_threads_ok:
  assumes "threads_ok p" and "i < length (pg_subs p)" and "pg_subs p ! i = Active ph" and "th \<noteq> Created"
    and "pg_subs p' = (pg_subs p)[i := th]" and "pg_main p' = pg_main p" and "pg_ctl p' = pg_ctl p"
  shows "threads_ok p'"
proof -
  have same: "all_subs P n ths \<Longrightarrow> P th \<or> \<not> P (Active ph) \<Longrightarrow> ths ! i = Active ph \<Longrightarrow> i < length ths \<Longrightarrow> all_subs P n (ths[i := th])"
    for P n and ths :: "sub_task phase thread list"
    unfolding all_subs_def by (metis nth_list_update_eq nth_list_update_neq)
  have l: "length (pg_subs p') = length (pg_subs p)"
    by (simp add: assms(5))
  have 1: "all_subs (\<lambda>t. t \<noteq> Created) n (pg_subs p) \<Longrightarrow> all_subs (\<lambda>t. t \<noteq> Created) n (pg_subs p')" for n
    unfolding assms(5) by (rule same) (use assms in simp_all)
  have 2: "all_subs (\<lambda>t. t = Ended) n (pg_subs p) \<Longrightarrow> all_subs (\<lambda>t. t = Ended) n (pg_subs p')" for n
    unfolding assms(5) by (rule same) (use assms in simp_all)
  have 3: "pg_subs p' ! j = Created \<longleftrightarrow> pg_subs p ! j = Created" if "j < length (pg_subs p)" for j
    using assms that by (cases "j = i") simp_all
  show ?thesis
    using assms(1,6,7) 1 2 3 l unfolding threads_ok_def by (cases "pg_ctl p") (simp_all add: Let_def)
qed

lemma running_open_pool:
  assumes c: "ctl_ok p" and i: "i < length (pg_subs p)" "pg_subs p ! i \<noteq> Ended"
    and t: "sv_threadpool (pg_server p) = Some t"
  shows "\<not> pl_stop (tp_pool t)"
proof
  assume "pl_stop (tp_pool t)"
  then have "pg_ctl p = JoinPool \<or> pg_ctl p = Returned"
    using c t by (simp add: ctl_ok_def pool_flag_ok_def)
  then have "all_subs (\<lambda>th. th = Ended) (length (pg_subs p)) (pg_subs p)"
    using c by (auto simp: ctl_ok_def threads_ok_def Let_def)
  then show False
    using i by (simp add: all_subs_def)
qed

lemma running_pool_view:
  assumes "ctl_ok p" and "i < length (pg_subs p)" "pg_subs p ! i \<noteq> Ended"
  shows "\<not> pl_stop (rc_pool (lend i (pg_server p)))"
  using running_open_pool[OF assms] by (simp add: pool_view_def split: option.split)

lemma sub_turn_safe:
  assumes M: "machine_ok os regs opens mu" and ok: "prog_ok os it regs opens mu p" and c: "ctl_ok p"
    and i: "i < length (pg_subs p)" "pg_subs p ! i = Active ph"
    and step: "loop_step os (sub_owner os it) (ph, lend i (pg_server p)) (ph', sub)"
  shows "prog_ok os it regs opens mu (p\<lparr>pg_server := give_back i sub (pg_server p), pg_subs := (pg_subs p)[i := Active ph']\<rparr>) \<and>
    ctl_ok (p\<lparr>pg_server := give_back i sub (pg_server p), pg_subs := (pg_subs p)[i := Active ph']\<rparr>)"
proof
  let ?s = "pg_server p"
  let ?p = "p\<lparr>pg_server := give_back i sub ?s, pg_subs := (pg_subs p)[i := Active ph']\<rparr>"
  have ph0: "phase_of (pg_subs p ! i) = ph"
    by (simp add: i)
  have open_pool: "\<not> pl_stop (tp_pool t)" if "sv_threadpool ?s = Some t" for t
    by (rule running_open_pool[OF c i(1) _ that]) (simp add: i)
  show "prog_ok os it regs opens mu ?p"
    by (rule sub_turn_ok[OF M ok i(1) ph0 step open_pool])
  have i': "i < length (sv_SubReactors ?s)"
    using i(1) prog_okD(1)[OF ok] by simp
  have "sub.phase_ok os it (epfd (sv_SubReactors ?s ! i)) (reg_of regs (epfd (sv_SubReactors ?s ! i))) mu (ph, lend i ?s)"
    using prog_okD(6)[OF ok i'] ph0 by (simp add: sub_ok_def)
  note eff = sub_step_effect[OF M this step]
  have same: "lp_tasks (give_back i sub ?s) = lp_tasks ?s" "lp_stop (give_back i sub ?s) = lp_stop ?s"
    by (simp_all add: give_back_def Let_def)
  have "main_stop_ok ?p"
    by (rule main_stop_ok_same[of p]) (use c same in \<open>simp_all add: ctl_ok_def\<close>)
  moreover have "ended_ok ?p"
    using c same i i' prog_okD(1)[OF ok] by (auto simp: ctl_ok_def ended_ok_def nth_list_update)
  moreover have "asked_ok ?p"
    using c i i' eff by (auto simp: ctl_ok_def asked_ok_def nth_list_update sub_effect_def stop_asked_def)
  moreover have "threads_ok ?p"
    by (rule active_threads_ok[of p i ph]) (use c i in \<open>simp_all add: ctl_ok_def\<close>)
  moreover have "pool_flag_ok ?p"
    using c open_pool by (auto simp: ctl_ok_def pool_flag_ok_def give_back_def Let_def all_joined_def)
  ultimately show "ctl_ok ?p"
    by (simp add: ctl_ok_def)
qed

lemma sub_end_safe:
  assumes ok: "prog_ok os it regs opens mu p" and c: "ctl_ok p" and i: "i < length (pg_subs p)" "pg_subs p ! i = Active ph"
    and e: "loop_ended (ph, lend i (pg_server p))"
  shows "prog_ok os it regs opens mu (p\<lparr>pg_subs := (pg_subs p)[i := Ended]\<rparr>) \<and> ctl_ok (p\<lparr>pg_subs := (pg_subs p)[i := Ended]\<rparr>)"
proof -
  let ?p = "p\<lparr>pg_subs := (pg_subs p)[i := Ended]\<rparr>"
  have stop: "ph = Poll" "lp_stop (sv_SubReactors (pg_server p) ! i)"
    using e by (auto simp: loop_ended_def)
  have phase: "phase_of ((pg_subs p)[i := Ended] ! j) = phase_of (pg_subs p ! j)" for j
    using i stop(1) by (cases "j = i") simp_all
  have "prog_ok os it regs opens mu ?p"
    by (rule prog_ok_threads[OF ok]) (simp_all add: phase)
  moreover have "main_stop_ok ?p"
    by (rule main_stop_ok_same[of p]) (use c in \<open>simp_all add: ctl_ok_def\<close>)
  moreover have "pool_flag_ok ?p"
    by (rule pool_flag_ok_same[of p]) (use c in \<open>simp_all add: ctl_ok_def\<close>)
  moreover have "threads_ok ?p"
    by (rule active_threads_ok[of p i ph]) (use c i in \<open>simp_all add: ctl_ok_def\<close>)
  moreover have "ended_ok ?p"
    using c stop(2) i(1) by (auto simp: ctl_ok_def ended_ok_def nth_list_update split: if_splits)
  moreover have "asked_ok ?p"
    using c phase by (simp add: ctl_ok_def asked_ok_def)
  ultimately show ?thesis
    by (simp add: ctl_ok_def)
qed

text \<open>A step of the pool, and a worker that hands its response over.\<close>

lemma joined_stays:
  assumes "tp_step t t' \<or> tp_spurious t t'" and "all_joined t"
  shows "all_joined t'"
proof -
  have none: "i < length (tp_workers t) \<Longrightarrow> tp_workers t ! i = Exited" for i
    using assms(2) by (simp add: all_joined_def list_all_length)
  from assms(1) show ?thesis
  proof
    assume "tp_step t t'"
    then show ?thesis
      using none assms(2) by cases (auto simp: all_joined_def list_all_iff wake_def dest!: none)
  next
    assume "tp_spurious t t'"
    then show ?thesis
      using none by cases auto
  qed
qed

lemma ctl_ok_pool:
  assumes "ctl_ok p" and "sv_threadpool (pg_server p) = Some t" and "pl_stop (tp_pool t') = pl_stop (tp_pool t)"
    and "all_joined t \<Longrightarrow> all_joined t'"
  shows "ctl_ok (p\<lparr>pg_server := (pg_server p)\<lparr>sv_threadpool := Some t'\<rparr>\<rparr>)"
proof -
  have "main_stop_ok (p\<lparr>pg_server := (pg_server p)\<lparr>sv_threadpool := Some t'\<rparr>\<rparr>)"
    by (rule main_stop_ok_same[of p]) (use assms(1) in \<open>simp_all add: ctl_ok_def\<close>)
  moreover have "threads_ok (p\<lparr>pg_server := (pg_server p)\<lparr>sv_threadpool := Some t'\<rparr>\<rparr>)"
    by (rule threads_ok_same[of p]) (use assms(1) in \<open>simp_all add: ctl_ok_def\<close>)
  moreover have "pool_flag_ok (p\<lparr>pg_server := (pg_server p)\<lparr>sv_threadpool := Some t'\<rparr>\<rparr>)"
    using assms by (auto simp: ctl_ok_def pool_flag_ok_def)
  ultimately show ?thesis
    using assms(1) by (simp add: ctl_ok_def ended_ok_def asked_ok_def)
qed

lemma pool_turn_safe:
  assumes ok: "prog_ok os it regs opens mu p" and c: "ctl_ok p" and t: "sv_threadpool (pg_server p) = Some t"
    and step: "tp_step t t' \<or> tp_spurious t t'" and same: "tp_submitted t' = tp_submitted t" "tp_finished t' = tp_finished t"
      "pl_stop (tp_pool t') = pl_stop (tp_pool t)"
  shows "prog_ok os it regs opens mu (p\<lparr>pg_server := (pg_server p)\<lparr>sv_threadpool := Some t'\<rparr>\<rparr>) \<and>
    ctl_ok (p\<lparr>pg_server := (pg_server p)\<lparr>sv_threadpool := Some t'\<rparr>\<rparr>)"
proof
  obtain n where n: "0 < n" "tp_reach n t"
    using prog_okD(3)[OF ok] t by (auto simp: jobs_ok_def)
  have "tp_inv t"
    using tp_reach_inv[OF n(2)] by simp
  note m = pool_move_cases[OF step same this]
  have "tp_reach n t'"
    using n(2) step tp_reach.intros(2,3) by blast
  then show "prog_ok os it regs opens mu (p\<lparr>pg_server := (pg_server p)\<lparr>sv_threadpool := Some t'\<rparr>\<rparr>)"
    using m by (intro pool_move_ok[OF ok t n(1)]) blast+
  show "ctl_ok (p\<lparr>pg_server := (pg_server p)\<lparr>sv_threadpool := Some t'\<rparr>\<rparr>)"
    by (rule ctl_ok_pool[OF c t same(3) joined_stays[OF step]])
qed

lemma respond_safe:
  assumes M: "machine_ok os regs opens mu" and ok: "prog_ok os it regs opens mu p" and c: "ctl_ok p"
    and t: "sv_threadpool (pg_server p) = Some t" and w: "w < length (tp_workers t)" "tp_workers t ! w = Running (i, j)"
    and r: "on_sub (int i) (enqueueTask os (worker_job j)) (pg_server p) = Inr s"
  shows "prog_ok os it regs opens mu (p\<lparr>pg_server := s\<lparr>sv_threadpool :=
      Some (t\<lparr>tp_workers := (tp_workers t)[w := Checking], tp_finished := tp_finished t @ [(i, j)]\<rparr>)\<rparr>\<rparr>) \<and>
    ctl_ok (p\<lparr>pg_server := s\<lparr>sv_threadpool :=
      Some (t\<lparr>tp_workers := (tp_workers t)[w := Checking], tp_finished := tp_finished t @ [(i, j)]\<rparr>)\<rparr>\<rparr>)"
proof -
  let ?t = "t\<lparr>tp_workers := (tp_workers t)[w := Checking], tp_finished := tp_finished t @ [(i, j)]\<rparr>"
  let ?p = "p\<lparr>pg_server := s\<rparr>"
  note g = on_sub_grow[OF r]
  obtain n where n: "0 < n" "tp_reach n t"
    using prog_okD(3)[OF ok] t by (auto simp: jobs_ok_def)
  have mem: "(i, j) \<in> pool_jobs t"
    using w nth_mem[OF w(1)] by (force simp: pool_jobs_def running_jobs_def)
  then have heap: "sr_heap (sv_SubReactors (pg_server p) ! i) (fst j) \<noteq> None"
    using prog_okD(3)[OF ok] t unfolding jobs_ok_def by fastforce
  have ok1: "prog_ok os it regs opens mu ?p"
    by (rule push_ok[OF M ok r]) (use heap in \<open>auto simp: worker_job_def split: prod.splits\<close>)
  note len = prog_okD(1)[OF ok]
  have "main_stop_ok ?p" "pool_flag_ok ?p"
    using c g(3-7) by (auto intro: main_stop_ok_same[of p] pool_flag_ok_same[of p] simp: ctl_ok_def)
  moreover have "ended_ok ?p"
    by (rule ended_ok_grow[of p]) (use c g(1,4) len in \<open>simp_all add: ctl_ok_def ended_ok_def\<close>)
  moreover have "asked_ok ?p"
    by (rule asked_ok_grow[of p]) (use c g(1) len in \<open>simp_all add: ctl_ok_def\<close>)
  moreover have "threads_ok ?p"
    by (rule threads_ok_same[of p]) (use c in \<open>simp_all add: ctl_ok_def\<close>)
  ultimately have c1: "ctl_ok ?p"
    using c by (simp add: ctl_ok_def)
  have t1: "sv_threadpool (pg_server ?p) = Some t"
    using g(6) t by simp
  have "tp_step t ?t"
    by (rule tp_step.finish[OF w])
  then have "tp_reach n ?t"
    by (rule tp_reach.step[OF n(2)])
  moreover have "pool_jobs ?t \<subseteq> pool_jobs t"
    using set_update_subset_insert[of "tp_workers t" w Checking] by (auto simp: pool_jobs_def running_jobs_def)
  ultimately have "prog_ok os it regs opens mu (?p\<lparr>pg_server := (pg_server ?p)\<lparr>sv_threadpool := Some ?t\<rparr>\<rparr>)"
    by (intro pool_move_ok[OF ok1 t1 n(1)]) simp_all
  moreover have "ctl_ok (?p\<lparr>pg_server := (pg_server ?p)\<lparr>sv_threadpool := Some ?t\<rparr>\<rparr>)"
    by (rule ctl_ok_pool[OF c1 t1]) (use w in \<open>auto simp: all_joined_def list_all_length nth_list_update\<close>)
  ultimately show ?thesis
    by simp
qed

lemma main_thread_step_ok:
  assumes M: "machine_ok os regs opens mu" and step: "main_thread_step os p p'" and ok: "prog_ok os it regs opens mu p" and c: "ctl_ok p"
  shows "prog_ok os it regs opens mu p' \<and> ctl_ok p'"
  using step by cases (use main_turn_safe[OF M ok c] main_end_safe[OF ok c] in simp_all)

lemma sub_thread_step_ok:
  assumes M: "machine_ok os regs opens mu" and step: "sub_thread_step os it p p'" and ok: "prog_ok os it regs opens mu p" and c: "ctl_ok p"
  shows "prog_ok os it regs opens mu p' \<and> ctl_ok p'"
  using step by cases (use sub_turn_safe[OF M ok c] sub_end_safe[OF ok c] in simp_all)

lemma worker_step_ok:
  assumes M: "machine_ok os regs opens mu" and step: "worker_step os p p'" and ok: "prog_ok os it regs opens mu p" and c: "ctl_ok p"
  shows "prog_ok os it regs opens mu p' \<and> ctl_ok p'"
  using step by cases (use pool_turn_safe[OF ok c] respond_safe[OF M ok c] in simp_all)

text \<open>All together.\<close>

lemma prog_step_ok:
  assumes M: "machine_ok os regs opens mu" and env: "\<And>k k'. env k k' \<Longrightarrow> regs k' = regs k \<and> opens k' = opens k"
    and step: "prog_step os it env p p'" and ok: "prog_ok os it regs opens mu p \<and> ctl_ok p"
  shows "prog_ok os it regs opens mu p' \<and> ctl_ok p'"
  using step ok start_step_ok[of p p'] wait_step_ok[of p p'] stop_step_ok[OF M, of p p'] main_thread_step_ok[OF M, of p p']
    sub_thread_step_ok[OF M, of it p p'] worker_step_ok[OF M, of p p'] outside_step_ok[of env p p' os it regs opens mu] env
  unfolding prog_step_def inside_step_def by blast

lemma prog_steps_ok:
  assumes M: "machine_ok os regs opens mu" and env: "\<And>k k'. env k k' \<Longrightarrow> regs k' = regs k \<and> opens k' = opens k"
    and "(prog_step os it env)\<^sup>*\<^sup>* p p'" and "prog_ok os it regs opens mu p \<and> ctl_ok p"
  shows "prog_ok os it regs opens mu p' \<and> ctl_ok p'"
  using assms(3,4) by (induction rule: rtranclp_induct) (use prog_step_ok[OF M env] in blast)+

end
