(* ===== verification/ProgramStart.thy ===== *)
theory ProgramStart
  imports ProgramSafety
begin

section \<open>The state in which the threads are started\<close>

text \<open>
  The constructors of the loops open their descriptors and set up one epoll instance each, and
  leave the instances that exist already alone. So the server that \<open>main\<close> builds satisfies the
  invariant of the whole program.
\<close>

subsection \<open>The constructors\<close>

text \<open>A constructor leaves what it finds: open descriptors stay open, and their instances as they are.\<close>

definition adds :: "'k instances \<Rightarrow> ('k \<Rightarrow> int set) \<Rightarrow> 'k \<Rightarrow> 'k \<Rightarrow> bool" where
  "adds regs opens k k' \<longleftrightarrow> opens k \<subseteq> opens k' \<and> (\<forall>e \<in> opens k. regs k' e = regs k e)"

lemma adds_refl [simp]: "adds regs opens k k"
  by (simp add: adds_def)

lemma adds_trans: "adds regs opens a b \<Longrightarrow> adds regs opens b c \<Longrightarrow> adds regs opens a c"
  by (auto simp: adds_def)

lemma machine_new_fds:
  assumes M: "machine_ok os regs opens mu"
  shows "os_eventfd os k = (Inr fd, k') \<Longrightarrow> regs k' = regs k \<and> fd \<notin> opens k \<and> opens k' = insert fd (opens k)"
    and "os_timerfd os k = (Inr fd, k') \<Longrightarrow> regs k' = regs k \<and> fd \<notin> opens k \<and> opens k' = insert fd (opens k)"
    and "os_epoll_create os k = (Inr fd, k') \<Longrightarrow>
      regs k' = regs k \<and> regs k fd = (\<lambda>_. None) \<and> fd \<notin> opens k \<and> opens k' = insert fd (opens k)"
proof -
  have F: "fresh_fds os (reg_of regs e)" for e
    by (rule machine_okD(4)[OF M])
  note A = machine_okD(5)[OF M]
  have op: "opened opens k (fst (os_eventfd os k)) (snd (os_eventfd os k))" "opened opens k (fst (os_timerfd os k)) (snd (os_timerfd os k))"
      "opened opens k (fst (os_epoll_create os k)) (snd (os_epoll_create os k))"
      "\<And>ep k'. os_epoll_create os k = (Inr ep, k') \<Longrightarrow> regs k ep = (\<lambda>_. None)"
    using A by (simp_all add: apart_def)
  show "os_eventfd os k = (Inr fd, k') \<Longrightarrow> regs k' = regs k \<and> fd \<notin> opens k \<and> opens k' = insert fd (opens k)"
    using F op(1) unfolding fresh_fds_def by (auto simp: opened_def)
  show "os_timerfd os k = (Inr fd, k') \<Longrightarrow> regs k' = regs k \<and> fd \<notin> opens k \<and> opens k' = insert fd (opens k)"
    using F op(2) unfolding fresh_fds_def by (auto simp: opened_def)
  show "os_epoll_create os k = (Inr fd, k') \<Longrightarrow>
      regs k' = regs k \<and> regs k fd = (\<lambda>_. None) \<and> fd \<notin> opens k \<and> opens k' = insert fd (opens k)"
    using F op(3,4) unfolding fresh_fds_def by (auto simp: opened_def)
qed

lemma EventLoop_new_effect:
  fixes l :: "('cb, 'k, 't) eloop"
  assumes M: "machine_ok os regs opens mu" and new: "EventLoop_new os k = Inr l"
  shows "adds regs opens k (kern l) \<and> epfd l \<notin> opens k \<and> lp_fd l \<notin> opens k \<and> tq_timeFd (tq l) \<notin> opens k \<and>
    {epfd l, lp_fd l, tq_timeFd (tq l)} \<subseteq> opens (kern l)"
    and "regs k (epfd l) = (\<lambda>_. None)"
proof -
  obtain fd k1 e k2 c k3 and q :: "'cb timerq" and k4 where steps: "os_eventfd os k = (Inr fd, k1)" "os_epoll_create os k1 = (Inr e, k2)"
      "epoll_updateChannel os e EloopChan ((Channel_new fd)\<lparr>ch_events := EPOLLIN OR EPOLLET\<rparr>) k2 = Inr (c, k3)" "TimerQueue_new os e k3 = Inr (q, k4)"
    and l: "l = \<lparr>kern = k4, epfd = e, tq = q, lp_tasks = [], lp_stop = False, lp_fd = fd, lp_chan = c, lp_signal = False\<rparr>"
    using new by (auto simp: EventLoop_new_def Epoll_new_def enableReading_def Channel_new_def ebind_eq_Inr split: prod.splits sum.splits)
  obtain tfd k5 c' where t: "os_timerfd os k3 = (Inr tfd, k5)" "enableReading os e TimeChan (Channel_new tfd) k5 = Inr (c', k4)"
    and q: "tq_timeFd q = tfd"
    using steps(4) by (auto simp: TimerQueue_new_def ebind_eq_Inr split: prod.splits sum.splits)
  note 1 = machine_new_fds(1)[OF M steps(1)] and 2 = machine_new_fds(3)[OF M steps(2)] and 3 = updateChannel_beside[OF M steps(3)]
  note 4 = machine_new_fds(2)[OF M t(1)] and 5 = updateChannel_beside[OF M t(2)[unfolded enableReading_def]]
  show "adds regs opens k (kern l) \<and> epfd l \<notin> opens k \<and> lp_fd l \<notin> opens k \<and> tq_timeFd (tq l) \<notin> opens k \<and>
      {epfd l, lp_fd l, tq_timeFd (tq l)} \<subseteq> opens (kern l)"
    using 1 2 3 4 5 by (auto simp: l q adds_def beside_def)
  show "regs k (epfd l) = (\<lambda>_. None)"
    using 1 2 by (simp add: l)
qed

subsection \<open>The sub-reactors\<close>

text \<open>A sub-reactor that has not been used yet.\<close>

definition fresh_sub :: "'k os \<Rightarrow> 'k instances \<Rightarrow> ('k \<Rightarrow> int set) \<Rightarrow> 'k \<Rightarrow> 'k subr \<Rightarrow> bool" where
  "fresh_sub os regs opens k sub \<longleftrightarrow> sub_inv (epfd sub) (reg_of regs (epfd sub)) [] (sub\<lparr>kern := k\<rparr>) \<and>
     {epfd sub, lp_fd sub, tq_timeFd (tq sub)} \<subseteq> opens k \<and> sr_heap sub = (\<lambda>_. None) \<and> lp_tasks sub = [] \<and> lp_stop sub = False \<and>
     rc_pool sub = pool_new"

lemma fresh_sub_adds:
  assumes "fresh_sub os regs opens k sub" and "adds regs opens k k'"
  shows "fresh_sub os regs opens k' sub"
proof -
  have "regs k' (epfd sub) = regs k (epfd sub)" "opens k \<subseteq> opens k'"
    using assms by (auto simp: fresh_sub_def adds_def)
  moreover have "sub_inv (epfd sub) (reg_of regs (epfd sub)) [] ((sub\<lparr>kern := k\<rparr>)\<lparr>kern := k'\<rparr>)"
    by (rule sub_inv_kern) (use assms(1) calculation in \<open>simp_all add: fresh_sub_def\<close>)
  ultimately show ?thesis
    using assms(1) by (auto simp: fresh_sub_def)
qed

lemma SubReactor_new_fresh:
  assumes M: "machine_ok os regs opens mu" and new: "SubReactor_new os b k = Inr s"
  shows "fresh_sub os regs opens (kern s) s \<and> adds regs opens k (kern s) \<and> epfd s \<notin> opens k \<and> lp_fd s \<notin> opens k \<and>
    tq_timeFd (tq s) \<notin> opens k"
proof -
  obtain l where l: "EventLoop_new os k = Inr l" and s: "s = \<lparr>kern = kern l, epfd = epfd l, tq = tq l, lp_tasks = lp_tasks l,
      lp_stop = lp_stop l, lp_fd = lp_fd l, lp_chan = lp_chan l, lp_signal = lp_signal l, rc_pool = pool_new, sr_useThreadPool = b,
      sr_heap = (\<lambda>_. None), sr_conns = [], sr_selfptr = []\<rparr>"
    using new by (auto simp: SubReactor_new_def ebind_eq_Inr)
  note e = EventLoop_new_effect[OF M l]
  have "regs k (epfd s) = (\<lambda>_. None)"
    using e(2) by (simp add: s)
  then have I: "sub_inv (epfd s) (reg_of regs (epfd s)) [] s"
    by (rule SubReactor_new_inv(1)[OF machine_okD(1)[OF M] machine_okD(4)[OF M] _ new refl])
  have "s\<lparr>kern := kern s\<rparr> = s"
    by (cases s) simp
  moreover have "lp_tasks l = []" "lp_stop l = False"
    using l by (auto simp: EventLoop_new_def ebind_eq_Inr split: prod.splits sum.splits)
  ultimately show ?thesis
    using e(1) I by (simp add: fresh_sub_def) (simp add: s)
qed

lemma new_SubReactors_fresh:
  assumes M: "machine_ok os regs opens mu"
  shows "new_SubReactors os f n k = Inr (subs, k') \<Longrightarrow>
    adds regs opens k k' \<and> distinct (map epfd subs) \<and> length subs = n \<and>
    (\<forall>sub \<in> set subs. fresh_sub os regs opens k' sub \<and> epfd sub \<notin> opens k \<and> lp_fd sub \<notin> opens k \<and> tq_timeFd (tq sub) \<notin> opens k)"
proof (induction n arbitrary: k subs k')
  case (Suc n)
  obtain sub rest where s: "SubReactor_new os f k = Inr sub" "new_SubReactors os f n (kern sub) = Inr (rest, k')" "subs = sub # rest"
    using Suc.prems by (auto simp: ebind_eq_Inr)
  note a = SubReactor_new_fresh[OF M s(1)] and b = Suc.IH[OF s(2)]
  have "epfd sub \<in> opens (kern sub)"
    using a by (simp add: fresh_sub_def)
  then have "epfd sub \<notin> epfd ` set rest"
    using b by (auto dest!: bspec)
  moreover have "fresh_sub os regs opens k' sub"
    by (rule fresh_sub_adds[OF conjunct1[OF a] conjunct1[OF b]])
  moreover have out: "x \<notin> opens k" if "x \<notin> opens (kern sub)" for x
    using a that by (auto simp: adds_def)
  have "\<forall>r \<in> set rest. fresh_sub os regs opens k' r \<and> epfd r \<notin> opens k \<and> lp_fd r \<notin> opens k \<and> tq_timeFd (tq r) \<notin> opens k"
    using b out by blast
  moreover have "adds regs opens k k'"
    using a b adds_trans[of regs opens k "kern sub" k'] by blast
  moreover have "distinct (map epfd rest)" "length rest = n"
    using b by simp_all
  moreover have "epfd sub \<notin> opens k \<and> lp_fd sub \<notin> opens k \<and> tq_timeFd (tq sub) \<notin> opens k"
    using a by simp
  ultimately show ?case
    by (simp add: s(3))
qed simp

subsection \<open>The server\<close>

lemma fresh_sub_ok:
  assumes M: "machine_ok os regs opens mu" and it: "it_ok it" and f: "fresh_sub os regs opens (kern s) (sv_SubReactors s ! i)"
    and tp: "\<And>t. sv_threadpool s = Some t \<Longrightarrow> tp_pool t = pool_new" and a: "mr_Acceptors s = []"
  shows "sub_ok os it regs opens mu s i Poll"
proof -
  let ?sub = "sv_SubReactors s ! i"
  have "pool_view i (sv_threadpool s) pool_new = pool_new"
    using tp by (auto simp: pool_view_def pool_new_def split: option.split)
  then have "lend i s = ?sub\<lparr>kern := kern s\<rparr>"
    using f by (cases ?sub) (simp add: lend_def Let_def fresh_sub_def)
  then show ?thesis
    using f it a machine_okD(1,2)[OF M] by (simp add: sub_ok_def sub_good_def fresh_sub_def sockets_def sub_fds_def afds_def)
qed

lemma Server_new_ok:
  assumes M: "machine_ok os regs opens mu" and it: "it_ok it" and new: "Server_new os hw f k = Inr s"
  shows "prog_ok os it regs opens mu (program_new s)" and "lp_tasks s = []" and "lp_stop s = False"
    and "sv_useThreadPool s = f" and "\<And>t. sv_threadpool s = Some t \<Longrightarrow> \<not> pl_stop (tp_pool t)" and "f \<longleftrightarrow> sv_threadpool s \<noteq> None"
proof -
  let ?n = "if hw = 0 then 4 else hw"
  obtain m subs k1 where m: "MainReactor_new os k = Inr m" and subs: "new_SubReactors os f ?n (kern m) = Inr (subs, k1)"
    and s: "s = \<lparr>kern = k1, epfd = epfd m, tq = tq m, lp_tasks = lp_tasks m, lp_stop = lp_stop m, lp_fd = lp_fd m,
      lp_chan = lp_chan m, lp_signal = lp_signal m, mr_Acceptors = mr_Acceptors m, sv_useThreadPool = f,
      sv_threadpool = (if f then Some (ThreadPool_new ?n) else None), sv_SubReactors = subs, sv_subIdx = 0, sv_sockets = 0\<rparr>"
    using new by (auto simp: Server_new_def Let_def ebind_eq_Inr)
  obtain l where l: "EventLoop_new os k = Inr l" and m': "m = \<lparr>kern = kern l, epfd = epfd l, tq = tq l, lp_tasks = lp_tasks l,
      lp_stop = lp_stop l, lp_fd = lp_fd l, lp_chan = lp_chan l, lp_signal = lp_signal l, mr_Acceptors = []\<rparr>"
    using m by (auto simp: MainReactor_new_def ebind_eq_Inr)
  then have ml: "epfd m = epfd l" "kern m = kern l"
    by simp_all
  note e = EventLoop_new_effect[OF M l] and S = new_SubReactors_fresh[OF M subs]
  have I: "main_inv (epfd m) (reg_of regs (epfd m)) m \<and> lp_tasks m = [] \<and> lp_stop m = False \<and> mr_Acceptors m = []"
    by (rule MainReactor_new_inv[OF machine_okD(1)[OF M] machine_okD(4)[OF M] _ m refl]) (simp add: e(2) ml)
  have eps: "epfd s = epfd m"
    by (simp add: s)
  have ep: "epfd m \<in> opens (kern m)"
    using e(1) by (simp add: ml)
  have "main_inv (epfd m) (reg_of regs (epfd m)) s"
    by (rule main_inv_cong) (use I S ep in \<open>auto simp: s adds_def\<close>)
  moreover have "dispatch_ok s"
    using S by (simp add: dispatch_ok_def s)
  ultimately have main: "srv.acc.phase_ok os (epfd s) (reg_of regs (epfd s)) mu (Poll, s)"
    using machine_okD(1-3)[OF M] eps by (simp add: main_good_def server_sink_ok)
  have tp: "tp_pool t = pool_new \<and> t = ThreadPool_new ?n" if "sv_threadpool s = Some t" for t
    using that by (auto simp: s ThreadPool_new_def split: if_splits)
  have "sub_ok os it regs opens mu s i Poll" if "i < length subs" for i
    by (rule fresh_sub_ok[OF M it]) (use that S tp I nth_mem[OF that] in \<open>simp_all add: s\<close>)
  moreover have "eps_ok s"
    using S ep by (auto simp: eps_ok_def s)
  moreover have "jobs_ok s"
    unfolding jobs_ok_def
  proof (intro allI impI conjI)
    fix t
    assume "sv_threadpool s = Some t"
    then have t: "t = ThreadPool_new ?n"
      using tp by blast
    have "0 < ?n" "tp_reach ?n t"
      unfolding t by (simp, rule tp_reach.start)
    then show "\<exists>n. 0 < n \<and> tp_reach n t"
      by blast
    have "pool_jobs t = {}"
      by (simp add: t pool_jobs_def ThreadPool_new_def pool_new_def running_Checking)
    then show "\<forall>x \<in> pool_jobs t. fst x < length (sv_SubReactors s) \<and> sr_heap (sv_SubReactors s ! fst x) (fst (snd x)) \<noteq> None"
      by simp
  qed
  moreover have "afds s = {}" "sv_SubReactors s = subs"
    using I by (simp_all add: s afds_def)
  moreover have "pg_server (program_new s) = s" "phase_of (pg_main (program_new s)) = Poll"
      "pg_subs (program_new s) = replicate (length (sv_SubReactors s)) Created"
    by (simp_all add: program_new_def)
  ultimately show "prog_ok os it regs opens mu (program_new s)"
    using main unfolding prog_ok_def Let_def by simp
  show "lp_tasks s = []" "lp_stop s = False" "sv_useThreadPool s = f" "f \<longleftrightarrow> sv_threadpool s \<noteq> None"
    using I by (simp_all add: s)
  show "\<not> pl_stop (tp_pool t)" if "sv_threadpool s = Some t" for t
    using conjunct1[OF tp[OF that]] by (simp add: pool_new_def)
qed

text \<open>What \<open>main\<close> builds satisfies the invariant.\<close>

lemma server_main_ok:
  assumes M: "machine_ok os regs opens mu" and it: "it_ok it" and main: "server_main os hw args k = Inr (Some p)"
  shows "prog_ok os it regs opens mu p \<and> ctl_ok p"
proof -
  obtain f s0 s where s: "Server_new os hw f k = Inr s0" "MainReactor_listenPort os 8888 s0 = Inr s" "p = program_new s"
    using main by (auto simp: server_main_def server_setup_def Server_listenPort_def ebind_eq_Inr split: option.splits)
  note N = Server_new_ok[OF M it s(1)]
  have more: "mainr.more s = mainr.more s0" and q: "lp_tasks s = [MListen 8888]" "lp_stop s = False"
    using s(2) N(2,3) by (auto simp: MainReactor_listenPort_def enqueueTask_def wakeup_write_def push_task_def ebind_eq_Inr split: prod.splits)
  note same = server_fields[OF more]
  have p: "p = (program_new s0)\<lparr>pg_server := s\<rparr>"
    using same by (simp add: s(3) program_new_def)
  have "prog_ok os it regs opens mu p"
    unfolding p by (rule main_listen_task_ok[OF M N(1), of 8888]) (simp add: program_new_def s(2))
  moreover have "ctl_ok p"
    using N(4,5,6) q same
    by (simp add: ctl_ok_def threads_ok_def pool_flag_ok_def ended_ok_def main_stop_ok_def mstop_ok_def asked_ok_def s(3) program_new_def)
  ultimately show ?thesis
    by simp
qed


end
