(* ===== verification/Wake.thy ===== *)
theory Wake
  imports ProgramStart
begin

section \<open>No loop sleeps on its tasks\<close>

text \<open>
  \<open>epoll_wait\<close> has no timeout, so a task that was enqueued without a wake-up would never run. This is
  excluded: whoever enqueues a task leaves the eventfd of the loop readable, and the loop empties it
  before it takes the queue over.
\<close>

subsection \<open>One loop\<close>

text \<open>While the events of a turn are handled the queue is still to be taken over, so nothing is required.\<close>

definition wake_ok :: "'t phase \<Rightarrow> ('cb, 'k, 't, 'z) eloop_scheme \<Rightarrow> bool" where
  "wake_ok ph s \<longleftrightarrow> (case ph of Events es \<Rightarrow> True | _ \<Rightarrow> lp_tasks s \<noteq> [] \<and> \<not> lp_stop s \<longrightarrow> lp_signal s)"

lemma wake_ok_simps [simp]:
  "wake_ok Poll s \<longleftrightarrow> (lp_tasks s \<noteq> [] \<and> \<not> lp_stop s \<longrightarrow> lp_signal s)" "wake_ok (Events es) s"
  "wake_ok (Tasks ts) s \<longleftrightarrow> (lp_tasks s \<noteq> [] \<and> \<not> lp_stop s \<longrightarrow> lp_signal s)"
  by (simp_all add: wake_ok_def)

lemma wake_ok_same:
  "wake_ok ph s \<Longrightarrow> lp_tasks s' = lp_tasks s \<Longrightarrow> lp_stop s' = lp_stop s \<Longrightarrow> lp_signal s' = lp_signal s \<Longrightarrow> wake_ok ph s'"
  by (cases ph) simp_all

lemma enqueueTask_wakes: "enqueueTask os t s = Inr s' \<Longrightarrow> wake_ok ph s \<Longrightarrow> wake_ok ph s'"
  by (cases ph) (auto simp: enqueueTask_def wakeup_write_def push_task_def ebind_eq_Inr split: if_splits prod.splits)

lemma enqueued_wakes: "enqueued reg mu t s s' \<Longrightarrow> wake_ok ph s \<Longrightarrow> wake_ok ph s'"
  by (cases ph) (auto simp: enqueued_def)

lemma loop_step_wakes:
  assumes step: "loop_step os ow (ph, s) (ph', s')" and ok: "wake_ok ph s"
    and task: "\<And>t ts. ph = Tasks (t # ts) \<Longrightarrow> ow_task ow t s = ret s' \<Longrightarrow> (if lp_stop s' then True else \<not> lp_stop s \<and> rung s s')"
  shows "wake_ok ph' s'"
proof (cases ph)
  case Poll
  then show ?thesis
    using step by (auto simp: loop_step_def rbind_eq_ret)
next
  case (Events es)
  then show ?thesis
    using step by (cases es) (auto simp: loop_step_def rbind_eq_ret)
next
  case (Tasks ts)
  then show ?thesis
    using step ok task by (cases ts) (auto simp: loop_step_def rbind_eq_ret rung_def split: if_splits)
qed

text \<open>A loop that has been asked to stop does not go to sleep.\<close>

lemma will_wake:
  assumes "loop_inv ep reg s" and "wake_ok ph s" and "t \<in> set (pending ph @ lp_tasks s) \<or> lp_stop s"
    and "\<not> loop_ended (ph, s)"
  shows "\<not> waits os (ph, s)"
  using assms loop_inv_signalled[OF assms(1)] by (cases ph) (auto simp: asleep_def loop_ended_def)

subsection \<open>All loops of the program\<close>

definition awake_ok :: "'k program \<Rightarrow> bool" where
  "awake_ok p \<longleftrightarrow> wake_ok (phase_of (pg_main p)) (pg_server p) \<and>
     (\<forall>i < length (sv_SubReactors (pg_server p)). wake_ok (phase_of (pg_subs p ! i)) (sv_SubReactors (pg_server p) ! i))"

lemma awake_okD:
  assumes "awake_ok p"
  shows "wake_ok (phase_of (pg_main p)) (pg_server p)"
    "i < length (sv_SubReactors (pg_server p)) \<Longrightarrow> wake_ok (phase_of (pg_subs p ! i)) (sv_SubReactors (pg_server p) ! i)"
  using assms by (simp_all add: awake_ok_def)

text \<open>A step that leaves the loops and their places in the turn alone.\<close>

lemma awake_ok_same:
  assumes "awake_ok p" and "phase_of (pg_main p') = phase_of (pg_main p)"
    and "\<And>i. i < length (sv_SubReactors (pg_server p)) \<Longrightarrow> phase_of (pg_subs p' ! i) = phase_of (pg_subs p ! i)"
    and "lp_tasks (pg_server p') = lp_tasks (pg_server p)" "lp_stop (pg_server p') = lp_stop (pg_server p)"
      "lp_signal (pg_server p') = lp_signal (pg_server p)" "sv_SubReactors (pg_server p') = sv_SubReactors (pg_server p)"
  shows "awake_ok p'"
  using assms(1) unfolding awake_ok_def assms(2,7) by (auto simp: assms(3) intro: wake_ok_same[OF _ assms(4-6)])

lemma on_sub_wakes:
  assumes r: "on_sub (int i) (enqueueTask os t) (pg_server p) = Inr s" and ok: "awake_ok p"
  shows "awake_ok (p\<lparr>pg_server := s\<rparr>)"
proof -
  let ?s = "pg_server p"
  obtain sub where sub: "enqueueTask os t ((sv_SubReactors ?s ! i)\<lparr>kern := kern ?s\<rparr>) = Inr sub" and i: "i < length (sv_SubReactors ?s)"
    and s: "s = ?s\<lparr>kern := kern sub, sv_SubReactors := (sv_SubReactors ?s)[i := sub]\<rparr>"
    using r by (auto simp: on_sub_def ebind_eq_Inr split: if_splits)
  have "wake_ok (phase_of (pg_subs p ! i)) ((sv_SubReactors ?s ! i)\<lparr>kern := kern ?s\<rparr>)"
    by (rule wake_ok_same[OF awake_okD(2)[OF ok i]]) simp_all
  from enqueueTask_wakes[OF sub this] have "wake_ok (phase_of (pg_subs p ! i)) sub" .
  moreover have "wake_ok (phase_of (pg_main p)) s"
    by (rule wake_ok_same[OF awake_okD(1)[OF ok]]) (simp_all add: s)
  ultimately show ?thesis
    using awake_okD(2)[OF ok] i by (auto simp: awake_ok_def s nth_list_update)
qed

lemma main_task_rung: "main_task_run os t s = ret s' \<Longrightarrow> (if lp_stop s' then True else \<not> lp_stop s \<and> rung s s')"
  by (cases t) (auto simp: main_task_run_def main_listen_def main_stop_def stopLoop_def ebind_eq_Inr rung_def split: if_splits)

lemma main_turn_wakes:
  assumes M: "machine_ok os regs opens mu" and ok: "prog_ok os it regs opens mu p" and a: "awake_ok p"
    and ph: "pg_main p = Active ph" and step: "loop_step os (main_owner os (handleNewConnection os)) (ph, pg_server p) (ph', s)"
  shows "awake_ok (p\<lparr>pg_server := s, pg_main := Active ph'\<rparr>)"
proof -
  let ?s = "pg_server p"
  have "wake_ok ph ?s"
    using awake_okD(1)[OF a] ph by simp
  then have main: "wake_ok ph' s"
    by (rule loop_step_wakes[OF step]) (auto simp: main_owner_def dest: main_task_rung)
  have "srv.acc.phase_ok os (epfd ?s) (reg_of regs (epfd ?s)) mu (ph, ?s)"
    using prog_okD(5)[OF ok] ph by simp
  from main_step_effect[OF M this step] consider "mainr.more s = mainr.more ?s" | "handed regs opens ?s s"
    by blast
  then have subs: "wake_ok (phase_of (pg_subs p ! i)) (sv_SubReactors s ! i) \<and> length (sv_SubReactors s) = length (sv_SubReactors ?s)"
    if i: "i < length (sv_SubReactors ?s)" for i
  proof cases
    case 1
    then show ?thesis
      using awake_okD(2)[OF a i] server_fields[OF 1] by simp
  next
    case 2
    then obtain sck k sub mu' where d: "dispatched (reg_of regs (epfd ?s)) mu' sck (?s\<lparr>kern := k\<rparr>) sub s"
      by (auto simp: handed_def)
    let ?i = "nat (sv_subIdx ?s)"
    have e: "enqueued (reg_of regs (epfd ?s)) mu' (TAddConnection (sv_sockets ?s) sck) ((sv_SubReactors ?s ! ?i)\<lparr>kern := k\<rparr>) sub"
      and s: "sv_SubReactors s = (sv_SubReactors ?s)[?i := sub]"
      using d by (simp_all add: dispatched_def)
    have "wake_ok (phase_of (pg_subs p ! i)) sub" if "?i = i"
      by (rule enqueued_wakes[OF e], rule wake_ok_same[OF awake_okD(2)[OF a i]]) (simp_all add: that)
    then show ?thesis
      using awake_okD(2)[OF a i] i by (cases "?i = i") (simp_all add: s)
  qed
  have "length (sv_SubReactors s) = length (sv_SubReactors ?s)"
    using main_step_subs main_step_effect[OF M \<open>srv.acc.phase_ok os (epfd ?s) (reg_of regs (epfd ?s)) mu (ph, ?s)\<close> step]
    by (auto simp: subs_kept_def)
  then show ?thesis
    using main subs by (simp add: awake_ok_def)
qed

lemma sub_turn_wakes:
  assumes ok: "prog_ok os it regs opens mu p" and a: "awake_ok p" and i: "i < length (pg_subs p)" and ph: "pg_subs p ! i = Active ph"
    and step: "loop_step os (sub_owner os it) (ph, lend i (pg_server p)) (ph', sub)"
  shows "awake_ok (p\<lparr>pg_server := give_back i sub (pg_server p), pg_subs := (pg_subs p)[i := Active ph']\<rparr>)"
proof -
  let ?s = "pg_server p" and ?ep = "epfd (sv_SubReactors (pg_server p) ! i)"
  have len: "i < length (sv_SubReactors ?s)"
    using i prog_okD(1)[OF ok] by simp
  have pok: "sub.phase_ok os it ?ep (reg_of regs ?ep) mu (ph, lend i ?s)"
    using prog_okD(6)[OF ok len] ph by (simp add: sub_ok_def)
  have "wake_ok ph (sv_SubReactors ?s ! i)"
    using awake_okD(2)[OF a len] ph by simp
  then have "wake_ok ph (lend i ?s)"
    by (rule wake_ok_same) simp_all
  then have "wake_ok ph' sub"
  proof (rule loop_step_wakes[OF step])
    fix t ts
    assume t: "ph = Tasks (t # ts)" "ow_task (sub_owner os it) t (lend i ?s) = ret sub"
    have I: "sub_inv ?ep (reg_of regs ?ep) (t # ts) (lend i ?s)" and L: "kernel_ok os ?ep (reg_of regs ?ep) mu" "it_ok it"
      using phase_ok_inv[OF pok] phase_ok_laws[OF pok] t by simp_all
    from runs_retD[OF task_runs[OF L I] t(2)] show "if lp_stop sub then True else \<not> lp_stop (lend i ?s) \<and> rung (lend i ?s) sub"
      by (auto split: if_splits)
  qed
  moreover have "wake_ok (phase_of (pg_main p)) (give_back i sub ?s)"
    by (rule wake_ok_same[OF awake_okD(1)[OF a]]) (simp_all add: give_back_def Let_def)
  ultimately show ?thesis
    using awake_okD(2)[OF a] len i by (auto simp: awake_ok_def give_back_def Let_def nth_list_update)
qed

lemma prog_step_wakes:
  assumes M: "machine_ok os regs opens mu" and ok: "prog_ok os it regs opens mu p" and c: "ctl_ok p" and a: "awake_ok p"
    and step: "prog_step os it env p p'"
  shows "awake_ok p'"
  using step unfolding prog_step_def inside_step_def
proof (elim disjE)
  assume "start_step p p'"
  then show ?thesis
  proof cases
    case (start_sub i)
    then have "pg_subs p ! i = Created"
      using c by (simp add: ctl_ok_def threads_ok_def)
    then show ?thesis
      using start_sub by (intro awake_ok_same[OF a]) (auto simp: nth_list_update)
  next
    case start_main
    then have "pg_main p = Created"
      using c by (simp add: ctl_ok_def threads_ok_def)
    then show ?thesis
      using start_main by (intro awake_ok_same[OF a]) simp_all
  qed (simp add: awake_ok_same[OF a])
next
  assume "wait_step p p'"
  then show ?thesis
    by cases (simp_all add: a awake_ok_same[OF a])
next
  assume "stop_step os p p'"
  then show ?thesis
  proof cases
    case (stop_main s)
    have more: "mainr.more s = mainr.more (pg_server p)"
      using stop_main by (auto simp: MainReactor_stop_def enqueueTask_def wakeup_write_def push_task_def ebind_eq_Inr split: prod.splits if_splits)
    have "wake_ok (phase_of (pg_main p)) s"
      using stop_main enqueueTask_wakes[OF _ awake_okD(1)[OF a]] by (simp add: MainReactor_stop_def)
    then show ?thesis
      using a server_fields[OF more] by (simp add: awake_ok_def stop_main)
  next
    case (stop_sub i s)
    have "awake_ok (p\<lparr>pg_server := s\<rparr>)"
      by (rule on_sub_wakes[OF _ a]) (use stop_sub in \<open>simp add: SubReactor_stop_enqueues\<close>)
    then show ?thesis
      by (simp add: awake_ok_def stop_sub)
  qed (simp_all add: awake_ok_same[OF a])
next
  assume "main_thread_step os p p'"
  then show ?thesis
  proof cases
    case (main_turn ph ph' s)
    then show ?thesis
      using main_turn_wakes[OF M ok a] by simp
  next
    case (main_end ph)
    then show ?thesis
      by (intro awake_ok_same[OF a]) (simp_all add: loop_ended_def)
  qed
next
  assume "sub_thread_step os it p p'"
  then show ?thesis
  proof cases
    case (sub_turn i ph ph' sub)
    then show ?thesis
      using sub_turn_wakes[OF ok a] by simp
  next
    case (sub_end i ph)
    then show ?thesis
      by (intro awake_ok_same[OF a]) (auto simp: loop_ended_def nth_list_update)
  qed
next
  assume "worker_step os p p'"
  then show ?thesis
  proof cases
    case (pool t t')
    then show ?thesis
      by (intro awake_ok_same[OF a]) simp_all
  next
    case (respond t w i j s)
    have "awake_ok (p\<lparr>pg_server := s\<rparr>)"
      by (rule on_sub_wakes[OF respond(5) a])
    then show ?thesis
      unfolding respond(1) by (rule awake_ok_same) simp_all
  qed
next
  assume "outside_step env p p'"
  then show ?thesis
    by cases (simp_all add: awake_ok_same[OF a] onStopSignal_def)
qed

subsection \<open>From the start on\<close>

lemma server_main_awake:
  assumes "machine_ok os regs opens mu" and "it_ok it" and main: "server_main os hw args k = Inr (Some p)"
  shows "awake_ok p"
proof -
  obtain f s0 s where s: "Server_new os hw f k = Inr s0" "MainReactor_listenPort os 8888 s0 = Inr s" "p = program_new s"
    using main by (auto simp: server_main_def server_setup_def Server_listenPort_def ebind_eq_Inr split: option.splits)
  have "lp_tasks s0 = []"
    by (rule Server_new_ok(2)[OF assms(1,2) s(1)])
  then have "wake_ok (Poll :: main_task phase) s0"
    by simp
  then have "wake_ok (Poll :: main_task phase) s"
    by (rule enqueueTask_wakes[OF s(2)[unfolded MainReactor_listenPort_def]])
  moreover have more: "mainr.more s = mainr.more s0"
    using s(2) by (auto simp: MainReactor_listenPort_def enqueueTask_def wakeup_write_def push_task_def ebind_eq_Inr split: prod.splits if_splits)
  have "\<forall>sub \<in> set (sv_SubReactors s0). lp_tasks sub = []"
    using Server_new_ready[OF s(1)] by blast
  then have "lp_tasks (sv_SubReactors s ! i) = []" if "i < length (sv_SubReactors s)" for i
    using that server_fields[OF more] by simp
  ultimately show ?thesis
    by (simp add: awake_ok_def s(3) program_new_def)
qed

lemma prog_steps_wake:
  assumes M: "machine_ok os regs opens mu" and env: "\<And>k k'. env k k' \<Longrightarrow> regs k' = regs k \<and> opens k' = opens k"
    and "(prog_step os it env)\<^sup>*\<^sup>* p p'" and "prog_ok os it regs opens mu p" "ctl_ok p" "awake_ok p"
  shows "awake_ok p'"
  using assms(3)
proof (induction rule: rtranclp_induct)
  case (step q r)
  have "prog_ok os it regs opens mu q \<and> ctl_ok q"
    by (rule prog_steps_ok[OF M env step(1)]) (use assms(4,5) in simp_all)
  then show ?case
    using prog_step_wakes[OF M _ _ step(3,2)] by blast
qed (rule assms(6))

end
