(* ===== verification/ProgramStops.thy ===== *)
theory ProgramStops
  imports Wake
begin

section \<open>The program can always be brought to its end\<close>

text \<open>
  After the signal no deadlock is possible: from every reachable state the threads can go on, without
  any help from the clients, until \<open>main\<close> returns, unless a system call fails for one of the listed
  reasons. The argument is a measure for each thread that \<open>stop\<close> waits for.
\<close>

subsection \<open>A loop that has been asked to stop\<close>

text \<open>The rest of the current turn, then at most one further turn, in which the stop task is run.\<close>

fun to_stop :: "'t \<Rightarrow> 't phase \<times> ('cb, 'k, 't, 'z) eloop_scheme \<Rightarrow> nat \<times> nat" where
  "to_stop stop (Poll, s) = (if lp_stop s then 0 else 2, 0)"
| "to_stop stop (Events es, s) = (1, length es)"
| "to_stop stop (Tasks ts, s) = (if stop \<in> set ts \<or> lp_stop s then 0 else 3, Suc (length ts))"

definition will_stop :: "'t \<Rightarrow> 't phase \<times> ('cb, 'k, 't, 'z) eloop_scheme \<Rightarrow> bool" where
  "will_stop stop c \<longleftrightarrow> stop \<in> set (pending (fst c) @ lp_tasks (snd c)) \<or> lp_stop (snd c)"

definition nearer :: "((nat \<times> nat) \<times> (nat \<times> nat)) set" where
  "nearer = less_than <*lex*> less_than"

lemma wf_nearer: "wf nearer"
  by (simp add: nearer_def wf_lex_prod)

lemma to_stop_decreases:
  assumes step: "loop_step os ow (ph, s) (ph', s')" and asked: "will_stop stop (ph, s)" and asked': "will_stop stop (ph', s')"
    and task: "\<And>t ts. ph = Tasks (t # ts) \<Longrightarrow> (t = stop \<longrightarrow> lp_stop s') \<and> (lp_stop s \<longrightarrow> lp_stop s')"
  shows "(to_stop stop (ph', s'), to_stop stop (ph, s)) \<in> nearer"
proof (cases ph)
  case Poll
  then show ?thesis
    using step by (auto simp: loop_step_def loop_ended_def rbind_eq_ret nearer_def)
next
  case (Events es)
  then show ?thesis
    using step asked by (cases es) (auto simp: loop_step_def rbind_eq_ret will_stop_def nearer_def)
next
  case (Tasks ts)
  then show ?thesis
    using step asked task by (cases ts) (auto simp: loop_step_def rbind_eq_ret will_stop_def nearer_def)
qed

subsection \<open>Exits\<close>

text \<open>A thread is about to end the process, for a reason that the program knows.\<close>

definition can_exit :: "'k os \<Rightarrow> (conn_id list \<Rightarrow> conn_id list) \<Rightarrow> 'k program \<Rightarrow> bool" where
  "can_exit os it p \<longleftrightarrow> (let s = pg_server p in
     (\<exists>ph e. pg_main p = Active ph \<and> loop_next os (main_owner os (handleNewConnection os)) (ph, s) = fail e \<and> e \<in> main_faults) \<or>
     (\<exists>i ph e. i < length (pg_subs p) \<and> pg_subs p ! i = Active ph \<and>
        loop_next os (sub_owner os it) (ph, lend i s) = fail e \<and> e \<in> sub_faults False) \<or>
     (pg_ctl p = StopMain \<and> MainReactor_stop os s = Inl (Exit ''eloopFd write error'')) \<or>
     (\<exists>i. pg_ctl p = StopSub i \<and> on_sub (int i) (SubReactor_stop os) s = Inl (Exit ''eloopFd write error'')))"

lemma enqueueTask_cases: "enqueueTask os t s = Inl (Exit ''eloopFd write error'') \<or> (\<exists>s'. enqueueTask os t s = Inr s')"
  by (auto simp: enqueueTask_def wakeup_write_def errif_def split: prod.split)

subsection \<open>The program's own steps\<close>

definition good :: "'k os \<Rightarrow> (conn_id list \<Rightarrow> conn_id list) \<Rightarrow> 'k instances \<Rightarrow> ('k \<Rightarrow> int set) \<Rightarrow> ('k \<Rightarrow> nat) \<Rightarrow> 'k program \<Rightarrow> bool" where
  "good os it regs opens mu p \<longleftrightarrow> prog_ok os it regs opens mu p \<and> ctl_ok p \<and> awake_ok p"

lemma inside_good: "machine_ok os regs opens mu \<Longrightarrow> inside_step os it p p' \<Longrightarrow> good os it regs opens mu p \<Longrightarrow> good os it regs opens mu p'"
  using prog_step_ok[of os regs opens mu "\<lambda>k k'. False" it p p'] prog_step_wakes[of os regs opens mu it p "\<lambda>k k'. False" p']
  unfolding good_def prog_step_def by blast

text \<open>\<open>leads os it P p\<close>: the program can go on by itself until \<open>P\<close>, or to an exit.\<close>

definition leads :: "'k os \<Rightarrow> (conn_id list \<Rightarrow> conn_id list) \<Rightarrow> ('k program \<Rightarrow> bool) \<Rightarrow> 'k program \<Rightarrow> bool" where
  "leads os it P p \<longleftrightarrow> (\<exists>p'. (inside_step os it)\<^sup>*\<^sup>* p p' \<and> (P p' \<or> can_exit os it p'))"

lemma leads_now: "P p \<Longrightarrow> leads os it P p"
  by (auto simp: leads_def)

lemma leads_exit: "can_exit os it p \<Longrightarrow> leads os it P p"
  by (auto simp: leads_def)

lemma leads_step: "inside_step os it p p' \<Longrightarrow> leads os it P p' \<Longrightarrow> leads os it P p"
  unfolding leads_def by (blast intro: converse_rtranclp_into_rtranclp)

lemma steps_good:
  assumes M: "machine_ok os regs opens mu"
  shows "(inside_step os it)\<^sup>*\<^sup>* p p' \<Longrightarrow> good os it regs opens mu p \<Longrightarrow> good os it regs opens mu p'"
  by (induction rule: rtranclp_induct) (use inside_good[OF M] in blast)+

lemma inside_subs: "inside_step os it p p' \<Longrightarrow> length (pg_subs p') = length (pg_subs p)"
  by (auto simp: inside_step_def elim: start_step.cases wait_step.cases stop_step.cases main_thread_step.cases sub_thread_step.cases worker_step.cases)

lemma steps_subs: "(inside_step os it)\<^sup>*\<^sup>* p p' \<Longrightarrow> length (pg_subs p') = length (pg_subs p)"
  by (induction rule: rtranclp_induct) (simp_all add: inside_subs)

lemma leads_trans:
  assumes M: "machine_ok os regs opens mu" and g: "good os it regs opens mu p" and 1: "leads os it Q p"
    and 2: "\<And>p'. good os it regs opens mu p' \<Longrightarrow> length (pg_subs p') = length (pg_subs p) \<Longrightarrow> Q p' \<Longrightarrow> leads os it P p'"
  shows "leads os it P p"
proof -
  obtain q where q: "(inside_step os it)\<^sup>*\<^sup>* p q" "Q q \<or> can_exit os it q"
    using 1 by (auto simp: leads_def)
  then have "leads os it P q"
    using 2[OF steps_good[OF M q(1) g] steps_subs[OF q(1)]] leads_exit by blast
  then show ?thesis
    using q(1) unfolding leads_def by (blast intro: rtranclp_trans)
qed

subsection \<open>The main reactor ends\<close>

lemma main_ends:
  assumes M: "machine_ok os regs opens mu"
  shows "good os it regs opens mu p \<Longrightarrow> pg_main p = Active ph \<Longrightarrow> pg_ctl p = JoinMain \<Longrightarrow>
    leads os it (\<lambda>p'. pg_main p' = Ended \<and> pg_ctl p' = JoinMain) p"
proof (induction "to_stop MStop (ph, pg_server p)" arbitrary: p ph rule: wf_induct_rule[OF wf_nearer])
  case 1
  let ?ow = "main_owner os (handleNewConnection os)"
  have asked: "will_stop MStop (ph', pg_server q)"
    if "good os it regs opens mu q" "pg_main q = Active ph'" "pg_ctl q = JoinMain" for q ph'
  proof -
    have "mstop_ok False (pending ph' @ lp_tasks (pg_server q)) (lp_stop (pg_server q)) (mr_Acceptors (pg_server q))"
      using that by (simp add: good_def ctl_ok_def main_stop_ok_def)
    then show ?thesis
      unfolding mstop_ok_def will_stop_def by (metis fst_conv snd_conv in_set_conv_decomp)
  qed
  show ?case
  proof (cases "loop_ended (ph, pg_server p)")
    case True
    have "inside_step os it p (p\<lparr>pg_main := Ended\<rparr>)"
      using main_thread_step.main_end[OF 1(3) True] by (simp add: inside_step_def)
    then show ?thesis
      by (rule leads_step) (rule leads_now, simp add: 1(4))
  next
    case False
    have pok: "srv.acc.phase_ok os (epfd (pg_server p)) (reg_of regs (epfd (pg_server p))) mu (ph, pg_server p)"
      using prog_okD(5)[of os it regs opens mu p] 1(2,3) by (simp add: good_def)
    have li: "loop_inv (epfd (pg_server p)) (reg_of regs (epfd (pg_server p))) (pg_server p)"
      using main_phase_ok_inv[OF pok] by (simp add: main_inv_def)
    have wake: "wake_ok ph (pg_server p)"
      using awake_okD(1)[of p] 1(2,3) by (simp add: good_def)
    have "\<not> waits os (ph, pg_server p)"
      by (rule will_wake[OF li wake _ False, of MStop]) (use asked[OF 1(2,3,4)] in \<open>simp add: will_stop_def\<close>)
    from srv.acc.next_runs[OF pok this] show ?thesis
    proof (cases rule: runs_cases)
      case (fault e)
      then show ?thesis
        using 1(3) by (intro leads_exit) (auto simp: can_exit_def Let_def)
    next
      case (normal c)
      obtain ph' s where c: "c = (ph', s)" by fastforce
      have step: "loop_step os ?ow (ph, pg_server p) (ph', s)"
        using normal(1) False by (simp add: loop_step_def c)
      let ?p = "p\<lparr>pg_server := s, pg_main := Active ph'\<rparr>"
      have in_step: "inside_step os it p ?p"
        using main_thread_step.main_turn[OF 1(3) step] by (simp add: inside_step_def)
      note g = inside_good[OF M in_step 1(2)]
      have "(t = MStop \<longrightarrow> lp_stop s) \<and> (lp_stop (pg_server p) \<longrightarrow> lp_stop s)" if "ph = Tasks (t # ts)" for t ts
        using step that by (auto simp: loop_step_def rbind_eq_ret main_owner_def dest!: main_task_effect split: if_splits)
      then have "(to_stop MStop (ph', pg_server ?p), to_stop MStop (ph, pg_server p)) \<in> nearer"
        using to_stop_decreases[OF step asked[OF 1(2,3,4)]] asked[OF g, of ph'] 1(4) by simp
      then have "leads os it (\<lambda>p'. pg_main p' = Ended \<and> pg_ctl p' = JoinMain) ?p"
        by (rule 1(1)) (use g 1(4) in simp_all)
      with in_step show ?thesis
        by (rule leads_step)
    qed
  qed
qed

subsection \<open>A sub-reactor ends\<close>

lemma sub_ends:
  assumes M: "machine_ok os regs opens mu"
  shows "good os it regs opens mu p \<Longrightarrow> pg_subs p ! i = Active ph \<Longrightarrow> pg_ctl p = JoinSub i \<Longrightarrow>
    leads os it (\<lambda>p'. pg_subs p' ! i = Ended \<and> pg_ctl p' = JoinSub i) p"
proof (induction "to_stop TStop (ph, lend i (pg_server p))" arbitrary: p ph rule: wf_induct_rule[OF wf_nearer])
  case 1
  let ?ow = "sub_owner os it" and ?s = "pg_server p"
  have i: "i < length (pg_subs q) \<and> i < length (sv_SubReactors (pg_server q))"
    if "good os it regs opens mu q" "pg_ctl q = JoinSub i" for q
    using that prog_okD(1)[of os it regs opens mu q] by (auto simp: good_def ctl_ok_def threads_ok_def Let_def)
  have asked: "will_stop TStop (ph', lend i (pg_server q))"
    if "good os it regs opens mu q" "pg_subs q ! i = Active ph'" "pg_ctl q = JoinSub i" for q ph'
  proof -
    have "stop_asked (pending ph') (sv_SubReactors (pg_server q) ! i)"
      using that i[OF that(1,3)] by (fastforce simp: good_def ctl_ok_def asked_ok_def)
    then show ?thesis
      by (simp add: stop_asked_def will_stop_def)
  qed
  note i0 = i[OF 1(2,4)]
  let ?ep = "epfd (sv_SubReactors ?s ! i)"
  have pok: "sub.phase_ok os it ?ep (reg_of regs ?ep) mu (ph, lend i ?s)"
    using prog_okD(6)[of os it regs opens mu p i] i0 1(2,3) by (simp add: good_def sub_ok_def)
  show ?case
  proof (cases "loop_ended (ph, lend i ?s)")
    case True
    have "inside_step os it p (p\<lparr>pg_subs := (pg_subs p)[i := Ended]\<rparr>)"
      using sub_thread_step.sub_end[OF conjunct1[OF i0] 1(3) True] by (simp add: inside_step_def)
    then show ?thesis
      by (rule leads_step) (rule leads_now, simp add: 1(4) i0)
  next
    case False
    have li: "loop_inv ?ep (reg_of regs ?ep) (lend i ?s)"
      using phase_ok_inv[OF pok] by (simp add: sub_inv_def)
    have "wake_ok ph (sv_SubReactors ?s ! i)"
      using awake_okD(2)[of p i] 1(2,3) i0 by (simp add: good_def)
    then have wake: "wake_ok ph (lend i ?s)"
      by (rule wake_ok_same) simp_all
    have aw: "\<not> waits os (ph, lend i ?s)"
      by (rule will_wake[OF li wake _ False, of TStop]) (use asked[OF 1(2,3,4)] in \<open>simp add: will_stop_def\<close>)
    have "\<not> pl_stop (rc_pool (lend i ?s))"
      by (rule running_pool_view) (use i0 1(2,3) in \<open>simp_all add: good_def\<close>)
    then have "runs (sub_faults False) (loop_next os ?ow (ph, lend i ?s)) (\<lambda>c. True)"
      using runs_mono[OF sub_next_runs[OF pok aw, of False]] by simp
    then show ?thesis
    proof (cases rule: runs_cases)
      case (fault e)
      then show ?thesis
        using 1(3) i0 by (intro leads_exit) (auto simp: can_exit_def Let_def)
    next
      case (normal c)
      obtain ph' sub where c: "c = (ph', sub)" by fastforce
      have step: "loop_step os ?ow (ph, lend i ?s) (ph', sub)"
        using normal(1) False by (simp add: loop_step_def c)
      let ?p = "p\<lparr>pg_server := give_back i sub ?s, pg_subs := (pg_subs p)[i := Active ph']\<rparr>"
      have in_step: "inside_step os it p ?p"
        using sub_thread_step.sub_turn[OF conjunct1[OF i0] 1(3) step] by (simp add: inside_step_def)
      note g = inside_good[OF M in_step 1(2)]
      note eff = sub_step_effect[OF M pok step]
      then obtain js where js: "pl_tasks (rc_pool sub) = pl_tasks (rc_pool (lend i ?s)) @ js" "pl_stop (rc_pool sub) = pl_stop (rc_pool (lend i ?s))"
        by (auto simp: sub_effect_def)
      have lent: "lend i (pg_server ?p) = sub"
        using lend_give_back(1)[OF conjunct2[OF i0] js] by simp
      have "(t = TStop \<longrightarrow> lp_stop sub) \<and> (lp_stop (lend i ?s) \<longrightarrow> lp_stop sub)" if "ph = Tasks (t # ts)" for t ts
      proof -
        have I: "sub_inv ?ep (reg_of regs ?ep) (t # ts) (lend i ?s)" and L: "kernel_ok os ?ep (reg_of regs ?ep) mu" "it_ok it"
          using phase_ok_inv[OF pok] phase_ok_laws[OF pok] that by simp_all
        have "ow_task ?ow t (lend i ?s) = ret sub"
          using step that by (auto simp: loop_step_def rbind_eq_ret)
        from runs_retD[OF task_runs[OF L I] this] show ?thesis
          by simp
      qed
      then have "(to_stop TStop (ph', lend i (pg_server ?p)), to_stop TStop (ph, lend i ?s)) \<in> nearer"
        unfolding lent using to_stop_decreases[OF step asked[OF 1(2,3,4)]] asked[OF g, of ph'] 1(4) i0 lent by simp
      then have "leads os it (\<lambda>p'. pg_subs p' ! i = Ended \<and> pg_ctl p' = JoinSub i) ?p"
        by (rule 1(1)) (use g 1(4) i0 in simp_all)
      with in_step show ?thesis
        by (rule leads_step)
    qed
  qed
qed

subsection \<open>The pool ends\<close>

lemma joining_subs:
  assumes g: "good os it regs opens mu p" and ct: "pg_ctl p = JoinPool \<or> pg_ctl p = StopPool" and i: "i < length (sv_SubReactors (pg_server p))"
  shows "lp_stop (sv_SubReactors (pg_server p) ! i)"
proof -
  have "i < length (pg_subs p)" "all_subs (\<lambda>th. th = Ended) (length (pg_subs p)) (pg_subs p)"
    using g ct i prog_okD(1)[of os it regs opens mu p] by (auto simp: good_def ctl_ok_def threads_ok_def Let_def)
  then show ?thesis
    using g by (auto simp: good_def ctl_ok_def ended_ok_def all_subs_def)
qed

lemma pool_turn:
  assumes g: "good os it regs opens mu p" and ct: "pg_ctl p = JoinPool" and t: "sv_threadpool (pg_server p) = Some t" and step: "tp_step t u"
  shows "\<exists>p'. inside_step os it p p' \<and> pg_ctl p' = JoinPool \<and> sv_threadpool (pg_server p') = Some u"
proof -
  have stopped: "pl_stop (tp_pool t)"
    using g ct t by (simp add: good_def ctl_ok_def pool_flag_ok_def)
  have alone: ?thesis if "tp_submitted u = tp_submitted t" "tp_finished u = tp_finished t" "pl_stop (tp_pool u) = pl_stop (tp_pool t)"
    using worker_step.pool[OF t disjI1[OF step] that, of os] ct unfolding inside_step_def by (intro exI conjI) (blast, simp_all)
  from step show ?thesis
  proof cases
    case (finish w j)
    obtain i k where j: "j = (i, k)"
      by (rule prod.exhaust)
    have "(i, k) \<in> pool_jobs t"
      using finish nth_mem[OF finish(2)] by (force simp: pool_jobs_def running_jobs_def j)
    then have i: "i < length (sv_SubReactors (pg_server p))"
      using g t prog_okD(3)[of os it regs opens mu p] unfolding good_def jobs_ok_def by fastforce
    obtain s where s: "on_sub (int i) (enqueueTask os (worker_job k)) (pg_server p) = Inr s"
      using i joining_subs[OF g disjI1[OF ct] i] by (simp add: on_sub_def enqueueTask_def)
    from worker_step.respond[OF t finish(2) finish(3)[unfolded j] s]
    show ?thesis
      using ct unfolding inside_step_def finish(1) j by (intro exI conjI) (blast, simp_all)
  next
    case (check w v q)
    then have "pl_stop q = pl_stop (tp_pool t)"
      by (auto elim: worker_check_cases)
    then show ?thesis
      using check(1) by (intro alone) simp_all
  qed (use stopped alone in \<open>simp_all add: pool_enqueue_ok\<close>)
qed

lemma pool_ends:
  assumes M: "machine_ok os regs opens mu"
  shows "good os it regs opens mu p \<Longrightarrow> pg_ctl p = JoinPool \<Longrightarrow> sv_threadpool (pg_server p) = Some t \<Longrightarrow>
    leads os it (\<lambda>p'. pg_ctl p' = Returned) p"
proof (induction "pool_work t" arbitrary: p t rule: less_induct)
  case less
  obtain n where n: "tp_reach n t"
    using less.prems prog_okD(3)[of os it regs opens mu p] by (auto simp: good_def jobs_ok_def)
  have stopped: "pl_stop (tp_pool t)"
    using less.prems by (simp add: good_def ctl_ok_def pool_flag_ok_def)
  show ?case
  proof (cases "all_joined t")
    case True
    have "inside_step os it p (p\<lparr>pg_ctl := Returned\<rparr>)"
      using stop_step.join_pool[OF less.prems(2,3) True] by (simp add: inside_step_def)
    then show ?thesis
      by (rule leads_step) (rule leads_now, simp)
  next
    case False
    then obtain u where u: "tp_step t u"
      using stopped_not_stuck stopped tp_reach_inv[OF n] by blast
    obtain p' where p': "inside_step os it p p'" "pg_ctl p' = JoinPool" "sv_threadpool (pg_server p') = Some u"
      using pool_turn[OF less.prems u] by blast
    have "leads os it (\<lambda>p'. pg_ctl p' = Returned) p'"
      by (rule less.hyps[OF _ inside_good[OF M p'(1) less.prems(1)] p'(2,3)]) (use stopped_step_decreases[OF u stopped] in simp)
    with p'(1) show ?thesis
      by (rule leads_step)
  qed
qed

lemma pool_stops:
  assumes M: "machine_ok os regs opens mu" and g: "good os it regs opens mu p" and ct: "pg_ctl p = StopPool"
  shows "leads os it (\<lambda>p'. pg_ctl p' = Returned) p"
proof -
  obtain t where t: "sv_threadpool (pg_server p) = Some t"
    using g ct by (auto simp: good_def ctl_ok_def pool_flag_ok_def)
  note step = stop_step.stop_pool[OF ct t, of os]
  then have in_step: "inside_step os it p (p\<lparr>pg_server := (pg_server p)\<lparr>sv_threadpool := Some (t\<lparr>tp_pool := (tp_pool t)\<lparr>pl_stop := True\<rparr>, tp_bcast := True\<rparr>)\<rparr>,
      pg_ctl := JoinPool\<rparr>)"
    by (simp add: inside_step_def)
  then show ?thesis
    by (rule leads_step) (rule pool_ends[OF M inside_good[OF M in_step g]], simp_all)
qed

subsection \<open>The sub-reactors end, one after the other\<close>

lemma sub_joined:
  assumes M: "machine_ok os regs opens mu" and g: "good os it regs opens mu p" and ct: "pg_ctl p = JoinSub i"
  shows "leads os it (\<lambda>p'. pg_ctl p' = StopSub (Suc i)) p"
proof -
  have joins: "leads os it (\<lambda>p'. pg_ctl p' = StopSub (Suc i)) q" if "pg_subs q ! i = Ended \<and> pg_ctl q = JoinSub i" for q :: "'a program"
  proof -
    have "inside_step os it q (q\<lparr>pg_ctl := StopSub (Suc i)\<rparr>)"
      using stop_step.join_sub[of q i os] that by (simp add: inside_step_def)
    then show ?thesis
      by (rule leads_step) (rule leads_now, simp)
  qed
  have "pg_subs p ! i \<noteq> Created"
    using g ct by (auto simp: good_def ctl_ok_def threads_ok_def Let_def all_subs_def)
  then show ?thesis
  proof (cases "pg_subs p ! i")
    case (Active ph)
    from leads_trans[OF M g sub_ends[OF M g this ct] joins] show ?thesis .
  qed (use joins ct in simp_all)
qed

lemma subs_stop:
  assumes M: "machine_ok os regs opens mu"
  shows "good os it regs opens mu p \<Longrightarrow> pg_ctl p = StopSub i \<Longrightarrow> leads os it (\<lambda>p'. pg_ctl p' = Returned) p"
proof (induction "length (pg_subs p) - i" arbitrary: p i rule: less_induct)
  case less
  have i: "i \<le> length (pg_subs p)"
    using less.prems by (simp add: good_def ctl_ok_def threads_ok_def Let_def)
  show ?case
  proof (cases "i = length (pg_subs p)")
    case True
    let ?p = "p\<lparr>pg_ctl := (if sv_useThreadPool (pg_server p) then StopPool else Returned)\<rparr>"
    have step: "inside_step os it p ?p"
      using stop_step.subs_stopped[of p os] less.prems(2) True by (simp add: inside_step_def)
    note g = inside_good[OF M step less.prems(1)]
    have "leads os it (\<lambda>p'. pg_ctl p' = Returned) ?p"
      by (cases "sv_useThreadPool (pg_server p)") (use pool_stops[OF M g] in \<open>auto intro: leads_now\<close>)
    with step show ?thesis
      by (rule leads_step)
  next
    case False
    then have i: "i < length (pg_subs p)" "i < length (sv_SubReactors (pg_server p))"
      using i less.prems(1) prog_okD(1)[of os it regs opens mu p] by (simp_all add: good_def)
    show ?thesis
    proof (cases "on_sub (int i) (SubReactor_stop os) (pg_server p)")
      case (Inl e)
      then have "e = Exit ''eloopFd write error''"
        using i enqueueTask_cases[of os TStop "(sv_SubReactors (pg_server p) ! i)\<lparr>kern := kern (pg_server p)\<rparr>"]
        by (auto simp: on_sub_def SubReactor_stop_def)
      then show ?thesis
        using Inl less.prems(2) by (intro leads_exit) (auto simp: can_exit_def)
    next
      case (Inr s)
      let ?p = "p\<lparr>pg_server := s, pg_ctl := JoinSub i\<rparr>"
      have step: "inside_step os it p ?p"
        using stop_step.stop_sub[OF less.prems(2) i(1) Inr] by (simp add: inside_step_def)
      note g = inside_good[OF M step less.prems(1)]
      have "leads os it (\<lambda>p'. pg_ctl p' = Returned) ?p"
      proof (rule leads_trans[OF M g sub_joined[OF M g, of i]])
        fix q :: "'a program"
        assume q: "good os it regs opens mu q" "length (pg_subs q) = length (pg_subs ?p)" "pg_ctl q = StopSub (Suc i)"
        show "leads os it (\<lambda>p'. pg_ctl p' = Returned) q"
          by (rule less.hyps[OF _ q(1,3)]) (use q(2) i in simp)
      qed simp
      with step show ?thesis
        by (rule leads_step)
    qed
  qed
qed

subsection \<open>The rest of the control thread\<close>

lemma main_joined:
  assumes M: "machine_ok os regs opens mu" and g: "good os it regs opens mu p" and ct: "pg_ctl p = JoinMain"
  shows "leads os it (\<lambda>p'. pg_ctl p' = Returned) p"
proof -
  have joins: "leads os it (\<lambda>p'. pg_ctl p' = Returned) q"
    if "good os it regs opens mu q" "pg_main q = Ended \<and> pg_ctl q = JoinMain" for q :: "'a program"
  proof -
    have step: "inside_step os it q (q\<lparr>pg_ctl := StopSub 0\<rparr>)"
      using stop_step.join_main[of q os] that by (simp add: inside_step_def)
    then show ?thesis
      by (rule leads_step) (rule subs_stop[OF M inside_good[OF M step that(1)]], simp)
  qed
  show ?thesis
  proof (cases "pg_main p")
    case Created
    then show ?thesis
      using g ct by (simp add: good_def ctl_ok_def threads_ok_def Let_def)
  next
    case (Active ph)
    show ?thesis
      by (rule leads_trans[OF M g main_ends[OF M g Active ct] joins])
  next
    case Ended
    then show ?thesis
      using joins[OF g] ct by simp
  qed
qed

lemma main_stops:
  assumes M: "machine_ok os regs opens mu" and g: "good os it regs opens mu p" and ct: "pg_ctl p = StopMain"
  shows "leads os it (\<lambda>p'. pg_ctl p' = Returned) p"
proof (cases "MainReactor_stop os (pg_server p)")
  case (Inl e)
  then have "e = Exit ''eloopFd write error''"
    using enqueueTask_cases[of os MStop "pg_server p"] by (auto simp: MainReactor_stop_def)
  then show ?thesis
    using Inl ct by (intro leads_exit) (simp add: can_exit_def)
next
  case (Inr s)
  have step: "inside_step os it p (p\<lparr>pg_server := s, pg_ctl := JoinMain\<rparr>)"
    using stop_step.stop_main[OF ct Inr] by (simp add: inside_step_def)
  then show ?thesis
    by (rule leads_step) (rule main_joined[OF M inside_good[OF M step g]], simp)
qed

lemma waiting_stops:
  assumes M: "machine_ok os regs opens mu" and g: "good os it regs opens mu p" and ct: "pg_ctl p = Waiting" and sig: "g_stop_requested p"
  shows "leads os it (\<lambda>p'. pg_ctl p' = Returned) p"
proof -
  have step: "inside_step os it p (p\<lparr>pg_ctl := StopMain\<rparr>)"
    using wait_step.signalled[OF ct sig] by (simp add: inside_step_def)
  then show ?thesis
    by (rule leads_step) (rule main_stops[OF M inside_good[OF M step g]], simp)
qed

lemma start_ends:
  assumes M: "machine_ok os regs opens mu"
  shows "good os it regs opens mu p \<Longrightarrow> pg_ctl p = StartSub i \<Longrightarrow> g_stop_requested p \<Longrightarrow> leads os it (\<lambda>p'. pg_ctl p' = Returned) p"
proof (induction "length (pg_subs p) - i" arbitrary: p i rule: less_induct)
  case less
  show ?case
  proof (cases "i < length (pg_subs p)")
    case True
    have step: "inside_step os it p (p\<lparr>pg_subs := (pg_subs p)[i := Active Poll], pg_ctl := StartSub (Suc i)\<rparr>)"
      using start_step.start_sub[OF less.prems(2) True] by (simp add: inside_step_def)
    then show ?thesis
      by (rule leads_step) (rule less.hyps[OF _ inside_good[OF M step less.prems(1)]], use less.prems True in simp_all)
  next
    case False
    then have i: "i = length (pg_subs p)"
      using less.prems by (simp add: good_def ctl_ok_def threads_ok_def Let_def)
    have 1: "inside_step os it p (p\<lparr>pg_ctl := StartMain\<rparr>)"
      using start_step.subs_started[of p] less.prems(2) i by (simp add: inside_step_def)
    have 2: "inside_step os it (p\<lparr>pg_ctl := StartMain\<rparr>) (p\<lparr>pg_main := Active Poll, pg_ctl := Waiting\<rparr>)"
      using start_step.start_main[of "p\<lparr>pg_ctl := StartMain\<rparr>"] by (simp add: inside_step_def)
    note g = inside_good[OF M 2 inside_good[OF M 1 less.prems(1)]]
    have "leads os it (\<lambda>p'. pg_ctl p' = Returned) (p\<lparr>pg_main := Active Poll, pg_ctl := Waiting\<rparr>)"
      by (rule waiting_stops[OF M g]) (simp_all add: less.prems(3))
    with 1 2 show ?thesis
      by (blast intro: leads_step)
  qed
qed

lemma stops:
  assumes M: "machine_ok os regs opens mu" and g: "good os it regs opens mu p" and sig: "g_stop_requested p \<or> \<not> before_stop (pg_ctl p) \<or> pg_ctl p = StopMain"
  shows "leads os it (\<lambda>p'. pg_ctl p' = Returned) p"
proof (cases "pg_ctl p")
  case (StartSub i)
  then show ?thesis
    using start_ends[OF M g] sig by simp
next
  case StartMain
  have step: "inside_step os it p (p\<lparr>pg_main := Active Poll, pg_ctl := Waiting\<rparr>)"
    using start_step.start_main[OF StartMain] by (simp add: inside_step_def)
  then show ?thesis
    by (rule leads_step) (rule waiting_stops[OF M inside_good[OF M step g]], use sig StartMain in simp_all)
next
  case (JoinSub i)
  show ?thesis
    by (rule leads_trans[OF M g sub_joined[OF M g JoinSub] subs_stop[OF M]])
next
  case JoinPool
  then obtain t where "sv_threadpool (pg_server p) = Some t"
    using g by (auto simp: good_def ctl_ok_def pool_flag_ok_def)
  then show ?thesis
    using pool_ends[OF M g JoinPool] by blast
qed (use sig waiting_stops[OF M g] main_stops[OF M g] main_joined[OF M g] subs_stop[OF M g] pool_stops[OF M g] in \<open>auto intro: leads_now\<close>)

end
