(* ===== verification/ProgramDemo.thy ===== *)
theory ProgramDemo
  imports ProgramStops
begin

section \<open>A kernel with several epoll instances, and a run of the whole program on it\<close>

text \<open>
  The witnesses on the whole program need a kernel that meets the laws of Machine.thy. This one keeps
  the open descriptors and one interest list for all instances; clients wait to be accepted and send
  nothing, and epoll reports the newest registration that is for reading and ready: a listening socket
  with a waiting client, or else the eventfd.
\<close>

subsection \<open>The kernel\<close>

record mkern =
  mk_open :: "int list"
  mk_interest :: "((int \<times> int) \<times> (chan_id \<times> 32 word)) list"
  mk_clients :: nat

definition mk_new :: "mkern \<Rightarrow> (errno + int) \<times> mkern" where
  "mk_new k = (let fd = fold max (mk_open k @ concat (map (\<lambda>x. [fst (fst x), snd (fst x)]) (mk_interest k))) 0 + 1 in
     (Inr fd, k\<lparr>mk_open := fd # mk_open k\<rparr>))"

definition mk_regs :: "mkern instances" where
  "mk_regs k ep fd = map_of (mk_interest k) (ep, fd)"

definition mk_opens :: "mkern \<Rightarrow> int set" where
  "mk_opens k = set (mk_open k)"

definition mk_ctl :: "int \<Rightarrow> ctl_op \<Rightarrow> int \<Rightarrow> (chan_id \<times> 32 word) option \<Rightarrow> mkern \<Rightarrow> (errno + unit) \<times> mkern" where
  "mk_ctl ep op fd ev k =
     (let reg = map_of (mk_interest k) (ep, fd); rest = filter (\<lambda>x. fst x \<noteq> (ep, fd)) (mk_interest k) in
      case op of
        CTL_ADD \<Rightarrow> (if reg = None then (Inr (), k\<lparr>mk_interest := ((ep, fd), the ev) # rest\<rparr>) else (Inl (EOTHER 17), k))
      | CTL_MOD \<Rightarrow> (if reg = None then (Inl (EOTHER 2), k) else (Inr (), k\<lparr>mk_interest := ((ep, fd), the ev) # rest\<rparr>))
      | CTL_DEL \<Rightarrow> (if reg = None then (Inl (EOTHER 2), k) else (Inr (), k\<lparr>mk_interest := rest\<rparr>)))"

definition mk_live :: "mkern \<Rightarrow> chan_id \<Rightarrow> bool" where
  "mk_live k p = (case p of EloopChan \<Rightarrow> True | AcceptChan port \<Rightarrow> 0 < mk_clients k | _ \<Rightarrow> False)"

definition mk_ready :: "int \<Rightarrow> mkern \<Rightarrow> bool" where
  "mk_ready ep k \<longleftrightarrow> list_ex (\<lambda>x. fst (fst x) = ep \<and> fst (snd x) \<noteq> EloopChan \<and> mk_live k (fst (snd x)) \<and> snd (snd x) AND EPOLLIN \<noteq> 0)
     (mk_interest k)"

definition mk_wait :: "int \<Rightarrow> nat \<Rightarrow> mkern \<Rightarrow> (errno + (chan_id \<times> 32 word) list) \<times> mkern" where
  "mk_wait ep n k =
     (Inr (case filter (\<lambda>x. fst (fst x) = ep \<and> mk_live k (fst (snd x)) \<and> snd (snd x) AND EPOLLIN \<noteq> 0 \<and>
         mk_regs k ep (snd (fst x)) = Some (snd x)) (mk_interest k) of
       [] \<Rightarrow> [] | x # _ \<Rightarrow> [(fst (snd x), EPOLLIN)]), k)"

definition mk_accept :: "int \<Rightarrow> mkern \<Rightarrow> (errno + int \<times> peer_addr) \<times> mkern" where
  "mk_accept fd k =
     (if mk_clients k = 0 then (Inl EAGAIN, k)
      else (case mk_new k of (r, k') \<Rightarrow> (map_sum id (\<lambda>fd. (fd, ''peer'')) r, k'\<lparr>mk_clients := mk_clients k - 1\<rparr>)))"

definition pos :: "mkern os" where
  "pos = \<lparr>os_readv = (\<lambda>fd n k. (Inl EAGAIN, k)), os_write = (\<lambda>fd s k. (Inr (length s), k)),
     os_read8 = (\<lambda>fd k. (Inr 8, k)), os_write8 = (\<lambda>fd k. (Inr 8, k)), os_epoll_ctl = mk_ctl, os_epoll_wait = mk_wait, os_ready = mk_ready,
     os_settime = (\<lambda>fd t k. (Inr (), k)), os_now = (\<lambda>k. (Inr ts_zero, k)), os_eventfd = mk_new, os_timerfd = mk_new,
     os_epoll_create = mk_new, os_socket = mk_new, os_getfl = (\<lambda>fd k. (0, k)), os_setfl = (\<lambda>fd f k. k),
     os_reuseaddr = (\<lambda>fd k. k), os_bind = (\<lambda>fd p k. (Inr (), k)), os_listen = (\<lambda>fd n k. (Inr (), k)), os_accept = mk_accept,
     os_close = (\<lambda>fd k. k\<lparr>mk_open := filter (\<lambda>x. x \<noteq> fd) (mk_open k), mk_interest := filter (\<lambda>x. snd (fst x) \<noteq> fd) (mk_interest k)\<rparr>),
     os_errno = (\<lambda>k. EAGAIN)\<rparr>"

lemma pos_simps [simp]:
  "os_readv pos fd n k = (Inl EAGAIN, k)" "os_write pos fd s k = (Inr (length s), k)" "os_read8 pos fd k = (Inr 8, k)"
  "os_write8 pos fd k = (Inr 8, k)" "os_epoll_ctl pos = mk_ctl" "os_epoll_wait pos = mk_wait" "os_ready pos = mk_ready" "os_settime pos fd t k = (Inr (), k)"
  "os_now pos k = (Inr ts_zero, k)" "os_eventfd pos = mk_new" "os_timerfd pos = mk_new" "os_epoll_create pos = mk_new"
  "os_socket pos = mk_new" "os_getfl pos fd k = (0, k)" "os_setfl pos fd f k = k" "os_reuseaddr pos fd k = k"
  "os_bind pos fd p k = (Inr (), k)" "os_listen pos fd m k = (Inr (), k)" "os_accept pos = mk_accept"
  "os_close pos fd k = k\<lparr>mk_open := filter (\<lambda>x. x \<noteq> fd) (mk_open k), mk_interest := filter (\<lambda>x. snd (fst x) \<noteq> fd) (mk_interest k)\<rparr>"
  by (simp_all add: pos_def)

subsection \<open>It meets the laws\<close>

lemma mk_new_fresh:
  assumes "mk_new k = (r, k')"
  shows "\<exists>fd. r = Inr fd \<and> 0 \<le> fd \<and> fd \<notin> mk_opens k \<and> mk_opens k' = insert fd (mk_opens k) \<and> mk_regs k' = mk_regs k \<and>
    mk_regs k fd = (\<lambda>_. None) \<and> mk_regs k ep fd = None"
proof -
  let ?xs = "mk_open k @ concat (map (\<lambda>x. [fst (fst x), snd (fst x)]) (mk_interest k))"
  have ge: "0 \<le> fold max ?xs 0" "x \<in> set ?xs \<Longrightarrow> x < fold max ?xs 0 + 1" for x
    using fold_max_ge[of 0 ?xs x] by auto
  have r: "r = Inr (fold max ?xs 0 + 1)" "k' = k\<lparr>mk_open := (fold max ?xs 0 + 1) # mk_open k\<rparr>"
    using assms by (simp_all add: mk_new_def Let_def)
  have none: "map_of (mk_interest k) (e, f) = None" if "e = fold max ?xs 0 + 1 \<or> f = fold max ?xs 0 + 1" for e f
  proof (rule ccontr)
    assume "map_of (mk_interest k) (e, f) \<noteq> None"
    then obtain v where "((e, f), v) \<in> set (mk_interest k)"
      by (auto dest: map_of_SomeD)
    then have "e \<in> set ?xs" "f \<in> set ?xs"
      by force+
    then show False
      using ge(2)[of e] ge(2)[of f] that by auto
  qed
  have "fold max ?xs 0 + 1 \<notin> set ?xs"
    using ge(2) by blast
  then show ?thesis
    using ge(1) none by (auto simp: r mk_opens_def mk_regs_def fun_eq_iff)
qed

lemma mk_ctl_frame: "e \<noteq> ep \<Longrightarrow> mk_regs (snd (mk_ctl ep op fd ev k)) e = mk_regs k e" "mk_opens (snd (mk_ctl ep op fd ev k)) = mk_opens k"
  by (auto simp: mk_ctl_def mk_regs_def mk_opens_def fun_eq_iff map_of_filter_neq Let_def split: ctl_op.split)

lemma pos_kernel_ok: "kernel_ok pos ep (reg_of mk_regs ep) (\<lambda>k. 0)"
proof -
  have "epoll_ctl_spec pos ep (reg_of mk_regs ep)"
    by (auto simp: epoll_ctl_spec_def mk_ctl_def mk_regs_def ctl_applicable_def Let_def fun_eq_iff map_of_filter_neq
        split: ctl_op.splits if_splits)
  moreover have "epoll_ctl_complete pos ep (reg_of mk_regs ep)"
    by (auto simp: epoll_ctl_complete_def mk_ctl_def mk_regs_def ctl_applicable_def Let_def split: ctl_op.splits)
  ultimately show ?thesis
    by (simp add: kernel_ok_def write_bounded_def reg_kept_def finite_supply_def)
qed

lemma pos_epoll_wait: "epoll_wait_spec pos ep (reg_of mk_regs ep) (\<lambda>k. 0)"
proof -
  have "EPOLLIN AND EPOLLOUT = 0"
    by (simp add: EPOLLIN_def EPOLLOUT_def)
  then show ?thesis
    by (auto simp: epoll_wait_spec_def mk_wait_def filter_eq_Cons_iff split: list.splits) blast
qed

lemma map_of_filter_key: "map_of (filter (\<lambda>x. P (fst x)) xs) a = (if P a then map_of xs a else None)"
  by (induction xs) auto

lemma pos_sockets: "socket_spec pos (reg_of mk_regs ep) (\<lambda>k. 0)"
proof -
  have "mk_regs k' = mk_regs k \<and> (r = Inl EINTR \<longrightarrow> False)" if "mk_accept fd k = (r, k')" for fd k r k'
    using that mk_new_fresh by (fastforce simp: mk_accept_def mk_regs_def fun_eq_iff split: if_splits prod.splits)
  moreover have "mk_regs (k\<lparr>mk_open := os, mk_interest := filter (\<lambda>x. snd (fst x) \<noteq> fd) (mk_interest k)\<rparr>) ep = (mk_regs k ep)(fd := None)" for k os fd
    by (simp add: mk_regs_def fun_eq_iff map_of_filter_key[of "\<lambda>a. snd a \<noteq> fd"])
  ultimately show ?thesis
    using mk_new_fresh by (fastforce simp: socket_spec_def)
qed

lemma pos_fresh_fds: "fresh_fds pos (reg_of mk_regs ep)"
  using mk_new_fresh by (fastforce simp: fresh_fds_def)

lemma pos_apart: "apart pos mk_regs mk_opens"
proof -
  have new: "opened mk_opens k (fst (mk_new k)) (snd (mk_new k))" for k
  proof -
    obtain r k' where "mk_new k = (r, k')"
      by fastforce
    from this mk_new_fresh[OF this, of 0] show ?thesis
      by (auto simp: opened_def)
  qed
  have "opened mk_opens k (map_sum id fst (fst (mk_accept fd k))) (snd (mk_accept fd k))" for fd k
  proof -
    obtain r k' where "mk_new k = (r, k')"
      by fastforce
    then show ?thesis
      using new[of k] by (cases r) (simp_all add: mk_accept_def opened_def mk_opens_def)
  qed
  moreover have "mk_regs k ep = (\<lambda>_. None)" if "mk_new k = (Inr ep, k')" for k ep k'
    using mk_new_fresh[OF that] by auto
  moreover have "beside mk_regs mk_opens ep k (snd (mk_ctl ep op fd ev k))" for ep op fd ev k
    by (simp add: beside_def mk_ctl_frame)
  moreover have "mk_opens (k\<lparr>mk_open := filter (\<lambda>x. x \<noteq> fd) (mk_open k), mk_interest := is\<rparr>) = mk_opens k - {fd}" for k fd "is"
    by (auto simp: mk_opens_def)
  ultimately show ?thesis
    using new by (auto simp: apart_def mk_wait_def)
qed

lemma pos_machine: "machine_ok pos mk_regs mk_opens (\<lambda>k. 0)"
  by (simp add: machine_ok_def pos_kernel_ok pos_epoll_wait pos_sockets pos_fresh_fds pos_apart)

subsection \<open>The run\<close>

definition kern0 :: mkern where
  "kern0 = \<lparr>mk_open = [0, 1, 2], mk_interest = [], mk_clients = 2\<rparr>"

definition fd_chan :: "int \<Rightarrow> channel" where
  "fd_chan fd = \<lparr>ch_fd = fd, ch_events = EPOLLIN OR EPOLLET, ch_revents = 0, ch_inEpoll = True\<rparr>"

definition fd_timers :: "int \<Rightarrow> 'cb timerq" where
  "fd_timers fd = \<lparr>tq_timerId = 0, tq_timeFd = fd, tq_chan = fd_chan fd, tq_timers = []\<rparr>"

definition kern1 :: mkern where
  "kern1 = \<lparr>mk_open = [8, 7, 6, 5, 4, 3, 0, 1, 2], mk_interest = [((7, 8), TimeChan, EPOLLIN OR EPOLLET),
     ((7, 6), EloopChan, EPOLLIN OR EPOLLET), ((4, 5), TimeChan, EPOLLIN OR EPOLLET), ((4, 3), EloopChan, EPOLLIN OR EPOLLET)], mk_clients = 2\<rparr>"

definition sub0 :: "mkern subr" where
  "sub0 = \<lparr>kern = kern1, epfd = 7, tq = fd_timers 8, lp_tasks = [], lp_stop = False, lp_fd = 6, lp_chan = fd_chan 6, lp_signal = False,
     rc_pool = pool_new, sr_useThreadPool = True, sr_heap = (\<lambda>_. None), sr_conns = [], sr_selfptr = []\<rparr>"

definition server0 :: "mkern server" where
  "server0 = \<lparr>kern = kern1, epfd = 4, tq = fd_timers 5, lp_tasks = [MListen 8888], lp_stop = False, lp_fd = 3, lp_chan = fd_chan 3, lp_signal = True,
     mr_Acceptors = [], sv_useThreadPool = True, sv_threadpool = Some (ThreadPool_new 1), sv_SubReactors = [sub0], sv_subIdx = 0, sv_sockets = 0\<rparr>"

lemma demo_start: "server_main pos 1 [''-t'', ''on''] kern0 = Inr (Some (program_new server0))"
proof -
  have "EPOLLIN OR EPOLLET \<noteq> 0"
    by (simp add: EPOLLIN_def EPOLLET_def)
  then show ?thesis
    by (simp add: server_main_def server_args_def server_setup_def Server_new_def MainReactor_new_def SubReactor_new_def EventLoop_new_def
        Epoll_new_def TimerQueue_new_def enableReading_def epoll_updateChannel_def Channel_new_def mk_ctl_def mk_new_def kern0_def Let_def
        Server_listenPort_def MainReactor_listenPort_def enqueueTask_def wakeup_write_def push_task_def
        server0_def sub0_def kern1_def fd_chan_def fd_timers_def)
qed

text \<open>Turns of a loop as steps of the program.\<close>

lemma main_turns:
  "loop_steps os (main_owner os (handleNewConnection os)) (ph, s) (ph', s') \<Longrightarrow> pg_server p = s \<Longrightarrow> pg_main p = Active ph \<Longrightarrow>
   (inside_step os it)\<^sup>*\<^sup>* p (p\<lparr>pg_server := s', pg_main := Active ph'\<rparr>)"
proof (induction "(ph', s')" arbitrary: ph' s' rule: rtranclp_induct)
  case base
  then show ?case
    by (cases p) simp
next
  case (step c)
  obtain ph1 s1 where c: "c = (ph1, s1)" by fastforce
  let ?p = "p\<lparr>pg_server := s1, pg_main := Active ph1\<rparr>"
  have "main_thread_step os ?p (?p\<lparr>pg_server := s', pg_main := Active ph'\<rparr>)"
    by (rule main_thread_step.main_turn) (use step.hyps(2) c in simp_all)
  then have "inside_step os it ?p (p\<lparr>pg_server := s', pg_main := Active ph'\<rparr>)"
    by (simp add: inside_step_def)
  with step.hyps(3)[OF c step.prems] show ?case
    by (rule rtranclp.rtrancl_into_rtrancl)
qed

lemma sub_turns:
  assumes M: "machine_ok os regs opens mu"
  shows "loop_steps os (sub_owner os it) c c' \<Longrightarrow> c = (ph, lend i (pg_server p)) \<Longrightarrow> pg_subs p ! i = Active ph \<Longrightarrow> i < length (pg_subs p) \<Longrightarrow>
    good os it regs opens mu p \<Longrightarrow>
    \<exists>p'. (inside_step os it)\<^sup>*\<^sup>* p p' \<and> lend i (pg_server p') = snd c' \<and> pg_subs p' ! i = Active (fst c') \<and> pg_ctl p' = pg_ctl p \<and>
      sv_useThreadPool (pg_server p') = sv_useThreadPool (pg_server p)"
proof (induction arbitrary: p ph rule: converse_rtranclp_induct)
  case base
  then show ?case
    by auto
next
  case (step c d)
  obtain ph1 sub where d: "d = (ph1, sub)" by fastforce
  let ?p = "p\<lparr>pg_server := give_back i sub (pg_server p), pg_subs := (pg_subs p)[i := Active ph1]\<rparr>"
  note st = step.hyps(1)[unfolded step.prems(1) d]
  have in_step: "inside_step os it p ?p"
    using sub_thread_step.sub_turn[OF step.prems(3,2) st] by (simp add: inside_step_def)
  note g = inside_good[OF M in_step step.prems(4)]
  have i: "i < length (sv_SubReactors (pg_server p))"
    using step.prems(3,4) prog_okD(1)[of os it regs opens mu p] by (simp add: good_def)
  have "sub.phase_ok os it (epfd (sv_SubReactors (pg_server p) ! i)) (reg_of regs (epfd (sv_SubReactors (pg_server p) ! i))) mu (ph, lend i (pg_server p))"
    using prog_okD(6)[of os it regs opens mu p i] i step.prems(2,4) by (simp add: good_def sub_ok_def)
  from sub_step_effect[OF M this st] obtain js where "pl_tasks (rc_pool sub) = pl_tasks (rc_pool (lend i (pg_server p))) @ js"
      "pl_stop (rc_pool sub) = pl_stop (rc_pool (lend i (pg_server p)))"
    by (auto simp: sub_effect_def)
  then have "d = (ph1, lend i (pg_server ?p))"
    using lend_give_back(1)[OF i] d by simp
  from step.IH[OF this _ _ g] step.prems(3) obtain p' where "(inside_step os it)\<^sup>*\<^sup>* ?p p'"
      "lend i (pg_server p') = snd c' \<and> pg_subs p' ! i = Active (fst c') \<and> pg_ctl p' = pg_ctl p \<and>
        sv_useThreadPool (pg_server p') = sv_useThreadPool (pg_server p)"
    by auto
  with in_step show ?case
    by (blast intro: converse_rtranclp_into_rtranclp)
qed

text \<open>Once the pool is being stopped nothing can fail any more.\<close>

definition only_pool :: "'k program \<Rightarrow> bool" where
  "only_pool p \<longleftrightarrow> pg_ctl p \<in> {StopPool, JoinPool, Returned} \<and> pg_main p = Ended \<and> sv_threadpool (pg_server p) \<noteq> None"

lemma last_steps: "(inside_step os it)\<^sup>*\<^sup>* p p' \<Longrightarrow> only_pool p \<Longrightarrow> only_pool p'"
  by (induction rule: rtranclp_induct)
    (auto simp: only_pool_def inside_step_def give_back_def Let_def elim: start_step.cases wait_step.cases stop_step.cases main_thread_step.cases sub_thread_step.cases worker_step.cases)

lemma pool_returns:
  assumes M: "machine_ok os regs opens mu" and g: "good os it regs opens mu p" and ct: "pg_ctl p = StopPool"
  shows "\<exists>p'. (inside_step os it)\<^sup>*\<^sup>* p p' \<and> pg_ctl p' = Returned \<and> sv_threadpool (pg_server p') \<noteq> None"
proof -
  obtain p' where p': "(inside_step os it)\<^sup>*\<^sup>* p p'" "pg_ctl p' = Returned \<or> can_exit os it p'"
    using pool_stops[OF M g ct] by (auto simp: leads_def)
  have "only_pool p"
    using g ct by (auto simp: only_pool_def good_def ctl_ok_def threads_ok_def pool_flag_ok_def Let_def)
  then have last: "only_pool p'"
    by (rule last_steps[OF p'(1)])
  then have "all_subs (\<lambda>th. th = Ended) (length (pg_subs p')) (pg_subs p')"
    using steps_good[OF M p'(1) g] by (auto simp: only_pool_def good_def ctl_ok_def threads_ok_def Let_def)
  then have "\<not> can_exit os it p'"
    using last by (auto simp: can_exit_def Let_def all_subs_def only_pool_def)
  with p' last show ?thesis
    by (auto simp: only_pool_def)
qed

text \<open>The turns of the main reactor and of the sub-reactor in which they stop.\<close>

definition kern2 :: mkern where
  "kern2 = kern1\<lparr>mk_interest := [((4, 5), TimeChan, 0), ((7, 8), TimeChan, EPOLLIN OR EPOLLET),
     ((7, 6), EloopChan, EPOLLIN OR EPOLLET), ((4, 3), EloopChan, EPOLLIN OR EPOLLET)]\<rparr>"

definition kern3 :: mkern where
  "kern3 = kern1\<lparr>mk_interest := [((7, 8), TimeChan, 0), ((4, 5), TimeChan, 0),
     ((7, 6), EloopChan, EPOLLIN OR EPOLLET), ((4, 3), EloopChan, EPOLLIN OR EPOLLET)]\<rparr>"

lemma eventfd_report:
  "mk_clients k = n \<Longrightarrow> mk_interest k = pre @ ((ep, fd), EloopChan, EPOLLIN OR EPOLLET) # post \<Longrightarrow> \<forall>x \<in> set pre. fst (fst x) = ep \<longrightarrow> fst (snd x) = TimeChan \<Longrightarrow>
   (ep, fd) \<notin> fst ` set pre \<Longrightarrow> epoll_poll pos ep True k = ret ([(EloopChan, EPOLLIN)], k)"
proof -
  assume k: "mk_interest k = pre @ ((ep, fd), EloopChan, EPOLLIN OR EPOLLET) # post" "\<forall>x \<in> set pre. fst (fst x) = ep \<longrightarrow> fst (snd x) = TimeChan"
    "(ep, fd) \<notin> fst ` set pre"
  have "(EPOLLIN OR EPOLLET) AND EPOLLIN \<noteq> 0"
    by (simp add: EPOLLIN_def EPOLLET_def)
  moreover have "map_of (mk_interest k) (ep, fd) = Some (EloopChan, EPOLLIN OR EPOLLET)"
    using k by (simp add: map_add_def map_of_eq_None_iff[THEN iffD2])
  moreover have "filter (\<lambda>x. fst (fst x) = ep \<and> mk_live k (fst (snd x)) \<and> snd (snd x) AND EPOLLIN \<noteq> 0 \<and>
      map_of (mk_interest k) (ep, snd (fst x)) = Some (snd x)) pre = []"
    using k(2) by (auto simp: filter_empty_conv mk_live_def)
  ultimately have "mk_wait ep MAX_EVENTS k = (Inr [(EloopChan, EPOLLIN)], k)"
    by (simp add: mk_wait_def mk_regs_def k(1)) (simp add: mk_live_def)
  then show ?thesis
    by (subst epoll_poll.simps) simp
qed

lemma demo_main_turn:
  "loop_round pos (main_owner pos (handleNewConnection pos)) (server0\<lparr>lp_tasks := [MListen 8888, MStop]\<rparr>) =
    ret (server0\<lparr>kern := kern2, lp_tasks := [], lp_stop := True, lp_signal := False, tq := (fd_timers 5)\<lparr>tq_chan := (fd_chan 5)\<lparr>ch_events := 0\<rparr>\<rparr>\<rparr>)"
proof -
  have poll: "epoll_poll pos 4 True kern1 = ret ([(EloopChan, EPOLLIN)], kern1)"
    by (rule eventfd_report[where fd = 3 and pre = "[((7, 8), TimeChan, EPOLLIN OR EPOLLET), ((7, 6), EloopChan, EPOLLIN OR EPOLLET),
        ((4, 5), TimeChan, EPOLLIN OR EPOLLET)]" and post = "[]"]) (simp_all add: kern1_def)
  have ev: "handle_channel pos (main_owner pos (handleNewConnection pos)) (EloopChan, EPOLLIN) s = ret (s\<lparr>lp_signal := False\<rparr>)" for s
    by (simp add: handle_channel_def channel_handle_def readCallback_def drain_counter.simps EPOLLIN_def EPOLLOUT_def)
  have "signalled (server0\<lparr>lp_tasks := ts\<rparr>)" for ts
    by (simp add: signalled_def server0_def fd_chan_def EPOLLIN_def EPOLLET_def)
  then have sig: "signalled (server0\<lparr>lp_tasks := ts\<rparr>) = True" for ts
    by blast
  have "turn_order [(EloopChan, EPOLLIN)] = [(EloopChan, EPOLLIN)]"
    by (simp add: turn_order_def isTimeChannel_def)
  then show ?thesis
    unfolding loop_round_order sig using poll ev
    by (simp add: server0_def main_owner_def main_task_run_def main_listen_def Acceptor_new_def Socket_listening_def Let_def
        setNonBlocking_def enableListen_def Channel_new_def epoll_updateChannel_def mk_ctl_def mk_new_def Acceptor_startListen_def startListen_def
        main_stop_def stopLoop_def timerq_stop_def disableAll_def Acceptor_delete_def Socket_delete_def kern1_def kern2_def fd_chan_def fd_timers_def)
qed

definition sub1 :: "mkern subr" where
  "sub1 = sub0\<lparr>kern := kern2, lp_tasks := [TStop], lp_signal := True\<rparr>"

lemma demo_sub_turn:
  "\<exists>s. loop_round pos (sub_owner pos id) sub1 = ret s \<and> lp_stop s"
proof -
  have poll: "epoll_poll pos 7 True kern2 = ret ([(EloopChan, EPOLLIN)], kern2)"
    by (rule eventfd_report[where fd = 6 and pre = "[((4, 5), TimeChan, 0), ((7, 8), TimeChan, EPOLLIN OR EPOLLET)]" and
        post = "[((4, 3), EloopChan, EPOLLIN OR EPOLLET)]"]) (simp_all add: kern1_def kern2_def)
  have ev: "handle_channel pos (sub_owner pos id) (EloopChan, EPOLLIN) s = ret (s\<lparr>lp_signal := False\<rparr>)" for s :: "mkern subr"
    by (simp add: handle_channel_def channel_handle_def readCallback_def drain_counter.simps EPOLLIN_def EPOLLOUT_def)
  have sig: "signalled sub1 = True"
    by (simp add: signalled_def sub1_def sub0_def fd_chan_def EPOLLIN_def EPOLLET_def)
  have "turn_order [(EloopChan, EPOLLIN)] = [(EloopChan, EPOLLIN)]"
    by (simp add: turn_order_def isTimeChannel_def)
  moreover have "ow_task (sub_owner pos id) TStop s = Some (stopLoop pos s)" if "sr_conns s = []" for s :: "mkern subr"
    using that by (simp add: sub_owner_def sub_task_run_def sub_stop_def)
  ultimately show ?thesis
    unfolding loop_round_order sig using poll ev by (simp add: sub1_def sub0_def stopLoop_def timerq_stop_def disableAll_def epoll_updateChannel_def
        fd_timers_def fd_chan_def mk_ctl_def kern2_def kern1_def)
qed

text \<open>From the constructor to the moment at which all threads run and the signal has come.\<close>

definition running :: "mkern program" where
  "running = \<lparr>pg_server = server0, pg_main = Active Poll, pg_subs = [Active Poll], pg_ctl = Waiting, g_stop_requested = True\<rparr>"

definition more_clients :: "mkern \<Rightarrow> mkern \<Rightarrow> bool" where
  "more_clients k k' \<longleftrightarrow> mk_open k' = mk_open k \<and> mk_interest k' = mk_interest k"

lemma more_clients_law: "more_clients k k' \<Longrightarrow> mk_regs k' = mk_regs k \<and> mk_opens k' = mk_opens k"
  by (simp add: more_clients_def mk_regs_def mk_opens_def fun_eq_iff)

lemma inside_prog: "(inside_step os it)\<^sup>*\<^sup>* p p' \<Longrightarrow> (prog_step os it env)\<^sup>*\<^sup>* p p'"
  by (erule rtranclp_mono[THEN predicate2D, rotated]) (auto simp: prog_step_def)

lemma demo_running: "(prog_step pos id more_clients)\<^sup>*\<^sup>* (program_new server0) running"
proof -
  let ?p = "program_new server0"
  let ?p1 = "?p\<lparr>pg_subs := [Active Poll], pg_ctl := StartSub 1\<rparr>" and ?p2 = "?p\<lparr>pg_subs := [Active Poll], pg_ctl := StartMain\<rparr>"
  let ?p3 = "running\<lparr>g_stop_requested := False\<rparr>"
  have "length (sv_SubReactors server0) = 1"
    by (simp add: server0_def)
  then have "start_step ?p ?p1" "start_step ?p1 ?p2" "start_step ?p2 ?p3"
    using start_step.start_sub[of ?p 0] start_step.subs_started[of ?p1] start_step.start_main[of ?p2]
    by (simp_all add: program_new_def running_def)
  moreover have "outside_step more_clients ?p3 running"
    using outside_step.signal[of more_clients ?p3] by (simp add: onStopSignal_def running_def)
  ultimately have "prog_step pos id more_clients ?p ?p1" "prog_step pos id more_clients ?p1 ?p2" "prog_step pos id more_clients ?p2 ?p3"
      "prog_step pos id more_clients ?p3 running"
    by (simp_all add: prog_step_def inside_step_def)
  then show ?thesis
    by (meson rtranclp.rtrancl_into_rtrancl rtranclp.rtrancl_refl)
qed

lemma running_good: "good pos id mk_regs mk_opens (\<lambda>k. 0) running"
proof -
  have 1: "prog_ok pos id mk_regs mk_opens (\<lambda>k. 0) (program_new server0) \<and> ctl_ok (program_new server0)"
    by (rule server_main_ok[OF pos_machine it_ok_id demo_start])
  then have "awake_ok running"
    using prog_steps_wake[OF pos_machine more_clients_law demo_running _ _ server_main_awake[OF pos_machine it_ok_id demo_start]] by blast
  with prog_steps_ok[OF pos_machine more_clients_law demo_running 1] show ?thesis
    by (simp add: good_def)
qed

text \<open>And from there to the return of \<open>main\<close>.\<close>

lemma demo_main_ended:
  "\<exists>s. (inside_step pos id)\<^sup>*\<^sup>* running (running\<lparr>pg_server := s, pg_main := Ended, pg_ctl := StopSub 0\<rparr>) \<and>
     sv_SubReactors s = [sub0] \<and> kern s = kern2 \<and> sv_threadpool s = Some (ThreadPool_new 1) \<and> sv_useThreadPool s"
proof -
  let ?s1 = "server0\<lparr>lp_tasks := [MListen 8888, MStop]\<rparr>"
  let ?s2 = "server0\<lparr>kern := kern2, lp_tasks := [], lp_stop := True, lp_signal := False, tq := (fd_timers 5)\<lparr>tq_chan := (fd_chan 5)\<lparr>ch_events := 0\<rparr>\<rparr>\<rparr>"
  let ?p1 = "running\<lparr>pg_server := ?s1, pg_ctl := JoinMain\<rparr>" and ?p2 = "running\<lparr>pg_server := ?s2, pg_ctl := JoinMain\<rparr>"
  let ?p3 = "?p2\<lparr>pg_main := Ended\<rparr>"
  have "wait_step running (running\<lparr>pg_ctl := StopMain\<rparr>)"
    by (rule wait_step.signalled) (simp_all add: running_def)
  moreover have "MainReactor_stop pos server0 = Inr ?s1"
    by (simp add: MainReactor_stop_def enqueueTask_def wakeup_write_def push_task_def server0_def)
  then have "stop_step pos (running\<lparr>pg_ctl := StopMain\<rparr>) ?p1"
    using stop_step.stop_main[of "running\<lparr>pg_ctl := StopMain\<rparr>" pos ?s1] by (simp add: running_def)
  ultimately have "inside_step pos id running (running\<lparr>pg_ctl := StopMain\<rparr>)" "inside_step pos id (running\<lparr>pg_ctl := StopMain\<rparr>) ?p1"
    by (simp_all add: inside_step_def)
  then have "(inside_step pos id)\<^sup>*\<^sup>* running ?p1"
    by (meson rtranclp.rtrancl_into_rtrancl rtranclp.rtrancl_refl)
  also have "loop_steps pos (main_owner pos (handleNewConnection pos)) (Poll, ?s1) (Poll, ?s2)"
    by (rule round_steps[OF _ demo_main_turn]) (simp add: server0_def)
  from main_turns[OF this, of ?p1 id] have "(inside_step pos id)\<^sup>*\<^sup>* ?p1 ?p2"
    by (simp add: running_def)
  also have "main_thread_step pos ?p2 ?p3"
    by (rule main_thread_step.main_end[where ph = Poll]) (simp_all add: running_def loop_ended_def)
  then have "inside_step pos id ?p2 ?p3"
    by (simp add: inside_step_def)
  also have "stop_step pos ?p3 (running\<lparr>pg_server := ?s2, pg_main := Ended, pg_ctl := StopSub 0\<rparr>)"
    using stop_step.join_main[of ?p3 pos] by simp
  then have "inside_step pos id ?p3 (running\<lparr>pg_server := ?s2, pg_main := Ended, pg_ctl := StopSub 0\<rparr>)"
    by (simp add: inside_step_def)
  finally have "(inside_step pos id)\<^sup>*\<^sup>* running (running\<lparr>pg_server := ?s2, pg_main := Ended, pg_ctl := StopSub 0\<rparr>)" .
  then show ?thesis
    by (intro exI[of _ ?s2] conjI) (assumption, simp_all add: server0_def)
qed

text \<open>The sub-reactor, asleep until then, has been asked to stop.\<close>

lemma demo_sub_asked:
  "\<exists>q. (inside_step pos id)\<^sup>*\<^sup>* running q \<and> lend 0 (pg_server q) = sub1 \<and> pg_subs q = [Active Poll] \<and> pg_ctl q = JoinSub 0 \<and>
     sv_useThreadPool (pg_server q)"
proof -
  obtain s where s: "(inside_step pos id)\<^sup>*\<^sup>* running (running\<lparr>pg_server := s, pg_main := Ended, pg_ctl := StopSub 0\<rparr>)"
      "sv_SubReactors s = [sub0]" "kern s = kern2" "sv_threadpool s = Some (ThreadPool_new 1)" "sv_useThreadPool s"
    using demo_main_ended by blast
  let ?p = "running\<lparr>pg_server := s, pg_main := Ended, pg_ctl := StopSub 0\<rparr>"
  let ?s' = "s\<lparr>sv_SubReactors := [sub1]\<rparr>"
  let ?q = "?p\<lparr>pg_server := ?s', pg_ctl := JoinSub 0\<rparr>"
  have "on_sub 0 (SubReactor_stop pos) s = Inr ?s'"
    using s(2,3) by (cases s) (simp add: on_sub_def SubReactor_stop_def enqueueTask_def wakeup_write_def push_task_def sub1_def sub0_def)
  then have "inside_step pos id ?p ?q"
    using stop_step.stop_sub[of ?p 0 pos ?s'] by (simp add: inside_step_def running_def)
  with s(1) have "(inside_step pos id)\<^sup>*\<^sup>* running ?q"
    by (rule rtranclp.rtrancl_into_rtrancl)
  moreover have "lend 0 (pg_server ?q) = sub1"
    using s(3,4) by (simp add: lend_def Let_def pool_view_def ThreadPool_new_def pool_new_def sub1_def sub0_def)
  ultimately show ?thesis
    using s(5) by (intro exI[of _ ?q]) (simp add: running_def)
qed

lemma demo_returns: "\<exists>p. (prog_step pos id more_clients)\<^sup>*\<^sup>* (program_new server0) p \<and> pg_ctl p = Returned \<and> sv_threadpool (pg_server p) \<noteq> None"
proof -
  obtain q where q: "(inside_step pos id)\<^sup>*\<^sup>* running q" "lend 0 (pg_server q) = sub1" "pg_subs q = [Active Poll]" "pg_ctl q = JoinSub 0"
      "sv_useThreadPool (pg_server q)"
    using demo_sub_asked by blast
  note g = steps_good[OF pos_machine q(1) running_good]
  obtain sub where "loop_round pos (sub_owner pos id) sub1 = ret sub" and stop: "lp_stop sub"
    using demo_sub_turn by blast
  then have "loop_steps pos (sub_owner pos id) (Poll, sub1) (Poll, sub)"
    by (intro round_steps) (simp_all add: sub1_def sub0_def)
  from sub_turns[OF pos_machine this, of Poll 0 q] g q(2,3)
  obtain r where r: "(inside_step pos id)\<^sup>*\<^sup>* q r" "lend 0 (pg_server r) = sub" "pg_subs r ! 0 = Active Poll" "pg_ctl r = JoinSub 0"
      "sv_useThreadPool (pg_server r)"
    using q(4,5) by auto
  have len: "length (pg_subs r) = 1"
    using steps_subs[OF r(1)] q(3) by simp
  let ?r1 = "r\<lparr>pg_subs := [Ended]\<rparr>"
  let ?r2 = "?r1\<lparr>pg_ctl := StopSub 1\<rparr>" and ?r3 = "?r1\<lparr>pg_ctl := StopPool\<rparr>"
  obtain th where th: "pg_subs r = [th]"
    using len by (auto simp: length_Suc_conv)
  have "sub_thread_step pos id r ?r1"
    using sub_thread_step.sub_end[of 0 r Poll pos id] r stop th by (simp add: loop_ended_def)
  moreover have "stop_step pos ?r1 ?r2" "stop_step pos ?r2 ?r3"
    using stop_step.join_sub[of ?r1 0 pos] stop_step.subs_stopped[of ?r2 pos] r(4,5) by simp_all
  ultimately have "inside_step pos id r ?r1" "inside_step pos id ?r1 ?r2" "inside_step pos id ?r2 ?r3"
    by (simp_all add: inside_step_def)
  with q(1) r(1) have end_loops: "(inside_step pos id)\<^sup>*\<^sup>* running ?r3"
    by (meson rtranclp.rtrancl_into_rtrancl rtranclp_trans)
  from pool_returns[OF pos_machine steps_good[OF pos_machine this running_good]]
  obtain p where "(inside_step pos id)\<^sup>*\<^sup>* ?r3 p" "pg_ctl p = Returned" "sv_threadpool (pg_server p) \<noteq> None"
    by auto
  with end_loops demo_running inside_prog show ?thesis
    by (meson rtranclp_trans)
qed

end
