(* ===== verification/ProgramProps.thy ===== *)
theory ProgramProps
  imports ProgramDemo
begin

section \<open>Properties of the whole program\<close>

subsection \<open>No thread goes wrong\<close>

text \<open>
  C1. The whole program is safe. In every interleaving of the control thread, the main reactor, the
  sub-reactors, the workers, the signal and the clients, from the arguments of \<open>main\<close> on: the next
  step of each running loop, unless it sleeps in \<open>epoll_wait\<close> with nothing ready, returns and can end the process only for a listed reason, which is never
  the exception of a stopped pool; a worker that
  has computed a response can hand it to the loop of its connection, which exists; and the loops
  keep their invariants on the shared kernel, each on its own epoll instance.
\<close>

theorem program_safe:
  assumes "machine_ok os regs opens mu" and "it_ok it" and "\<And>k k'. env k k' \<Longrightarrow> regs k' = regs k \<and> opens k' = opens k"
    and "server_main os hw args k = Inr (Some p0)" and "(prog_step os it env)\<^sup>*\<^sup>* p0 p"
  shows "(\<forall>ph. pg_main p = Active ph \<longrightarrow> waits os (ph, pg_server p) \<or>
      runs main_faults (loop_next os (main_owner os (handleNewConnection os)) (ph, pg_server p))
        (\<lambda>c. main_inv (epfd (pg_server p)) (reg_of regs (epfd (pg_server p))) (snd c))) \<and>
    (\<forall>i ph. i < length (pg_subs p) \<and> pg_subs p ! i = Active ph \<longrightarrow> waits os (ph, lend i (pg_server p)) \<or>
      runs (sub_faults False) (loop_next os (sub_owner os it) (ph, lend i (pg_server p)))
        (\<lambda>c. sub_inv (epfd (lend i (pg_server p))) (reg_of regs (epfd (lend i (pg_server p)))) (pending (fst c)) (snd c))) \<and>
    (\<forall>t i j. sv_threadpool (pg_server p) = Some t \<and> Running (i, j) \<in> set (tp_workers t) \<longrightarrow>
      sr_heap (sv_SubReactors (pg_server p) ! i) (fst j) \<noteq> None \<and>
      runs {Exit ''eloopFd write error''} (Some (on_sub (int i) (enqueueTask os (worker_job j)) (pg_server p))) (\<lambda>s. True)) \<and>
    distinct (epfd (pg_server p) # map epfd (sv_SubReactors (pg_server p)))"
proof -
  have ok: "prog_ok os it regs opens mu p" and ctl: "ctl_ok p"
    using prog_steps_ok[OF assms(1,3,5) server_main_ok[OF assms(1,2,4)]] by simp_all
  note D = prog_okD[OF ok]
  have main: "runs main_faults (loop_next os (main_owner os (handleNewConnection os)) (ph, pg_server p))
      (\<lambda>c. main_inv (epfd (pg_server p)) (reg_of regs (epfd (pg_server p))) (snd c))"
    if "pg_main p = Active ph" "\<not> waits os (ph, pg_server p)" for ph
    using D(5) that by (intro runs_mono[OF srv.acc.next_runs]) (auto dest: main_phase_ok_inv)
  have subs: "runs (sub_faults False) (loop_next os (sub_owner os it) (ph, lend i (pg_server p)))
      (\<lambda>c. sub_inv (epfd (lend i (pg_server p))) (reg_of regs (epfd (lend i (pg_server p)))) (pending (fst c)) (snd c))"
    if "i < length (pg_subs p)" "pg_subs p ! i = Active ph" "\<not> waits os (ph, lend i (pg_server p))" for i ph
    using D(6)[of i] D(1) that running_pool_view[OF ctl, of i]
      sub_next_runs[of os it "epfd (lend i (pg_server p))" "reg_of regs (epfd (lend i (pg_server p)))" mu "(ph, lend i (pg_server p))" False]
    by (simp add: sub_ok_def)
  have workers: "sr_heap (sv_SubReactors (pg_server p) ! i) (fst j) \<noteq> None \<and>
      runs {Exit ''eloopFd write error''} (Some (on_sub (int i) (enqueueTask os (worker_job j)) (pg_server p))) (\<lambda>s. True)"
    if "sv_threadpool (pg_server p) = Some t" "Running (i, j) \<in> set (tp_workers t)" for t i j
  proof -
    have "(i, j) \<in> pool_jobs t"
      using that(2) by (force simp: pool_jobs_def running_jobs_def)
    then have "i < length (sv_SubReactors (pg_server p)) \<and> sr_heap (sv_SubReactors (pg_server p) ! i) (fst j) \<noteq> None"
      using D(3) that(1) unfolding jobs_ok_def by fastforce
    then show ?thesis
      using enqueueTask_cases[of os "worker_job j" "(sv_SubReactors (pg_server p) ! i)\<lparr>kern := kern (pg_server p)\<rparr>"]
      by (auto simp: on_sub_def)
  qed
  show ?thesis
    using main subs workers D(2) unfolding eps_ok_def by blast
qed

theorem program_safe_witness:
  "pg_main running = Active Poll \<and> \<not> waits pos (Poll, server0) \<and>
   runs main_faults (loop_next pos (main_owner pos (handleNewConnection pos)) (Poll, server0)) (\<lambda>c. main_inv 4 (reg_of mk_regs 4) (snd c)) \<and>
   waits pos (Poll, lend 0 server0) \<and>
   (\<exists>p. (prog_step pos id more_clients)\<^sup>*\<^sup>* (program_new server0) p \<and> pg_subs p = [Active Poll] \<and> lend 0 (pg_server p) = sub1) \<and>
   \<not> waits pos (Poll, sub1) \<and>
   runs (sub_faults False) (loop_next pos (sub_owner pos id) (Poll, sub1)) (\<lambda>c. sub_inv 7 (reg_of mk_regs 7) (pending (fst c)) (snd c))"
proof -
  have sig: "(EPOLLIN OR EPOLLET) AND EPOLLIN \<noteq> 0"
    by (simp add: EPOLLIN_def EPOLLET_def)
  have wait: "\<not> waits pos (Poll, server0)" "waits pos (Poll, lend 0 server0)" "\<not> waits pos (Poll, sub1)"
    using sig by (simp_all add: asleep_def signalled_def mk_ready_def mk_live_def server0_def sub0_def sub1_def lend_def Let_def kern1_def fd_chan_def)
  obtain q where q: "(inside_step pos id)\<^sup>*\<^sup>* running q" "lend 0 (pg_server q) = sub1" "pg_subs q = [Active Poll]"
    using demo_sub_asked by blast
  have hist: "(prog_step pos id more_clients)\<^sup>*\<^sup>* (program_new server0) q"
    using demo_running inside_prog[OF q(1)] by (rule rtranclp_trans)
  have "epfd sub1 = 7"
    by (simp add: sub1_def sub0_def)
  then have sub: "runs (sub_faults False) (loop_next pos (sub_owner pos id) (Poll, sub1)) (\<lambda>c. sub_inv 7 (reg_of mk_regs 7) (pending (fst c)) (snd c))"
    using program_safe[OF pos_machine it_ok_id more_clients_law demo_start hist, THEN conjunct2, THEN conjunct1, rule_format, of 0 Poll] q(2,3) wait(3) by simp
  have "epfd server0 = 4" "pg_server running = server0" "pg_main running = Active Poll"
    by (simp_all add: server0_def running_def)
  then have "runs main_faults (loop_next pos (main_owner pos (handleNewConnection pos)) (Poll, server0)) (\<lambda>c. main_inv 4 (reg_of mk_regs 4) (snd c))"
    using program_safe[OF pos_machine it_ok_id more_clients_law demo_start demo_running, THEN conjunct1, rule_format, of Poll] wait(1) by simp
  with sub hist q(2,3) wait show ?thesis
    by (auto simp: running_def)
qed

subsection \<open>The end comes in order\<close>

text \<open>
  C3. The program stops in order. As long as a loop may still run, the pool is not stopped, so no
  connection submits a job to a stopped pool; and when \<open>main\<close> returns, every reactor thread has ended and has been
  joined, no acceptor is left, each loop is stopped, and the pool has run and finished every job that
  was ever submitted, before its workers were joined.
\<close>

theorem program_stops_in_order:
  assumes "machine_ok os regs opens mu" and "it_ok it" and "\<And>k k'. env k k' \<Longrightarrow> regs k' = regs k \<and> opens k' = opens k"
    and "server_main os hw args k = Inr (Some p0)" and "(prog_step os it env)\<^sup>*\<^sup>* p0 p"
  shows "(\<forall>t. sv_threadpool (pg_server p) = Some t \<and> pl_stop (tp_pool t) \<longrightarrow>
      pg_main p = Ended \<and> (\<forall>th \<in> set (pg_subs p). th = Ended)) \<and>
    (pg_ctl p = Returned \<longrightarrow> pg_main p = Ended \<and> mr_Acceptors (pg_server p) = [] \<and> lp_stop (pg_server p) \<and>
      (\<forall>th \<in> set (pg_subs p). th = Ended) \<and> (\<forall>sub \<in> set (sv_SubReactors (pg_server p)). lp_stop sub) \<and>
      (\<forall>t. sv_threadpool (pg_server p) = Some t \<longrightarrow>
        all_joined t \<and> pl_tasks (tp_pool t) = [] \<and> mset (tp_finished t) = mset (tp_submitted t)))"
proof -
  have ok: "prog_ok os it regs opens mu p" and c: "ctl_ok p"
    using prog_steps_ok[OF assms(1,3,5) server_main_ok[OF assms(1,2,4)]] by simp_all
  have ends: "pg_main p = Ended \<and> (\<forall>th \<in> set (pg_subs p). th = Ended)" if "pg_ctl p = JoinPool \<or> pg_ctl p = Returned"
    using c that by (auto simp: ctl_ok_def threads_ok_def Let_def all_subs_def in_set_conv_nth)
  have pool: "pg_ctl p = JoinPool \<or> pg_ctl p = Returned" if "sv_threadpool (pg_server p) = Some t" "pl_stop (tp_pool t)" for t
    using c that by (simp add: ctl_ok_def pool_flag_ok_def)
  have loops: "lp_stop (pg_server p) \<and> (\<forall>sub \<in> set (sv_SubReactors (pg_server p)). lp_stop sub)" if "pg_ctl p = Returned"
  proof -
    have "lp_stop (sv_SubReactors (pg_server p) ! i)" if i: "i < length (sv_SubReactors (pg_server p))" for i
    proof -
      have "pg_subs p ! i = Ended" "i < length (pg_subs p)"
        using ends \<open>pg_ctl p = Returned\<close> i prog_okD(1)[OF ok] by simp_all
      then show ?thesis
        using c by (simp add: ctl_ok_def ended_ok_def)
    qed
    then show ?thesis
      using c ends that by (auto simp: ctl_ok_def ended_ok_def in_set_conv_nth)
  qed
  have acceptors: "mr_Acceptors (pg_server p) = []" if "pg_ctl p = Returned"
    using c loops[OF that] that by (simp add: ctl_ok_def main_stop_ok_def mstop_ok_def)
  have jobs: "all_joined t \<and> pl_tasks (tp_pool t) = [] \<and> mset (tp_finished t) = mset (tp_submitted t)"
    if "pg_ctl p = Returned" "sv_threadpool (pg_server p) = Some t" for t
  proof -
    have joined: "all_joined t"
      using c that by (simp add: ctl_ok_def pool_flag_ok_def)
    have "\<exists>n. 0 < n \<and> tp_reach n t"
      using prog_okD(3)[OF ok] that(2) unfolding jobs_ok_def by blast
    then obtain n where n: "0 < n" "tp_reach n t"
      by blast
    from tp_reach_inv[OF n(2)] have inv: "tp_inv t" "tp_workers t \<noteq> []"
      using n(1) by auto
    have exited: "Exited \<in> set (tp_workers t)" "running_jobs (tp_workers t) = []"
      using joined inv(2) by (cases "tp_workers t"; auto simp: all_joined_def list_all_iff running_jobs_def)+
    then show ?thesis
      using inv(1) joined by (auto simp: tp_inv_def)
  qed
  show ?thesis
    using ends pool loops acceptors jobs by blast
qed

theorem program_stops_in_order_witness:
  "\<exists>p t. (prog_step pos id more_clients)\<^sup>*\<^sup>* (program_new server0) p \<and> pg_ctl p = Returned \<and> pg_main p = Ended \<and>
     sv_threadpool (pg_server p) = Some t \<and> all_joined t \<and> mset (tp_finished t) = mset (tp_submitted t)"
proof -
  obtain p t where "(prog_step pos id more_clients)\<^sup>*\<^sup>* (program_new server0) p" "pg_ctl p = Returned" "sv_threadpool (pg_server p) = Some t"
    using demo_returns by auto
  with program_stops_in_order[OF pos_machine it_ok_id more_clients_law demo_start this(1)] show ?thesis
    by blast
qed

subsection \<open>The end always comes within reach\<close>

text \<open>
  C4. No deadlock on the way out. After the signal, in whatever state the threads are, and without
  any further input from the clients, the program can take steps of its own until \<open>main\<close> returns,
  unless it reaches a state in which a thread is about to end the process with one of the listed
  errors; so neither a join nor a lost wake-up can block \<open>Server::stop\<close> for ever.
\<close>

theorem program_can_stop:
  assumes "machine_ok os regs opens mu" and "it_ok it" and "\<And>k k'. env k k' \<Longrightarrow> regs k' = regs k \<and> opens k' = opens k"
    and "server_main os hw args k = Inr (Some p0)" and "(prog_step os it env)\<^sup>*\<^sup>* p0 p" and "g_stop_requested p"
  shows "\<exists>p'. (inside_step os it)\<^sup>*\<^sup>* p p' \<and> (pg_ctl p' = Returned \<or> can_exit os it p')"
proof -
  note start = server_main_ok[OF assms(1,2,4)]
  have "good os it regs opens mu p"
    using prog_steps_ok[OF assms(1,3,5) start] prog_steps_wake[OF assms(1,3,5) _ _ server_main_awake[OF assms(1,2,4)]] start
    by (simp add: good_def)
  from stops[OF assms(1) this] assms(6) show ?thesis
    by (simp add: leads_def)
qed

theorem program_can_stop_witness:
  "g_stop_requested running \<and> pg_ctl running = Waiting \<and>
   (\<exists>p'. (inside_step pos id)\<^sup>*\<^sup>* running p' \<and> (pg_ctl p' = Returned \<or> can_exit pos id p'))"
proof -
  have "g_stop_requested running" "pg_ctl running = Waiting"
    by (simp_all add: running_def)
  with program_can_stop[OF pos_machine it_ok_id more_clients_law demo_start demo_running this(1)] show ?thesis
    by blast
qed

end
