(* ===== verification/Client.thy ===== *)
theory Client
  imports CppString Kernel
begin

section \<open>The acceptance client\<close>

text \<open>
  Models src/client/main.cpp: the blocking socket helpers, the reader of one HTTP response, the test
  cases and their verdicts, the arguments. Console output is not modelled; the titles and reasons
  of the test cases, Chinese sentences in the code, are the constructors of two datatypes.
\<close>

subsection \<open>The client's system calls\<close>

text \<open>
  Another process than the server, with other calls. \<open>co_connect\<close> gets the address that
  \<open>co_pton\<close> makes of the host name; \<open>co_select fd t\<close> waits up to \<open>t\<close> seconds for \<open>fd\<close> and
  answers whether it is readable.
\<close>

record ('k, 'a) cos =
  co_socket :: "'k \<Rightarrow> (errno + int) \<times> 'k"
  co_pton :: "string \<Rightarrow> 'a option"
  co_connect :: "int \<Rightarrow> 'a \<Rightarrow> 16 word \<Rightarrow> 'k \<Rightarrow> (errno + unit) \<times> 'k"
  co_write :: "int \<Rightarrow> string \<Rightarrow> 'k \<Rightarrow> (errno + nat) \<times> 'k"
  co_select :: "int \<Rightarrow> nat \<Rightarrow> 'k \<Rightarrow> (errno + bool) \<times> 'k"
  co_read :: "int \<Rightarrow> nat \<Rightarrow> 'k \<Rightarrow> (errno + string) \<times> 'k"
  co_close :: "int \<Rightarrow> 'k \<Rightarrow> 'k"
  co_sleep :: "nat \<Rightarrow> 'k \<Rightarrow> 'k"

definition kRecvTimeoutSec :: nat where "kRecvTimeoutSec = 3"
definition kIdleWaitSec :: nat where "kIdleWaitSec = 65"

subsection \<open>Connecting, writing, reading\<close>

definition connectServer :: "('k, 'a) cos \<Rightarrow> string \<Rightarrow> 16 word \<Rightarrow> 'k \<Rightarrow> (int \<times> 'k) outcome" where
  "connectServer os host port k =
     (case co_socket os k of
        (Inl e, k1) \<Rightarrow> Inl (Exit ''socket create error'')
      | (Inr fd, k1) \<Rightarrow>
          (case co_pton os host of
             None \<Rightarrow> Inl (Exit ''inet_pton error'')
           | Some addr \<Rightarrow>
               (case co_connect os fd addr port k1 of
                  (r, k2) \<Rightarrow> ebind (errif (failed r) ''connect error'') (\<lambda>_. Inr (fd, k2)))))"

partial_function (option) writeAll :: "('k, 'a) cos \<Rightarrow> int \<Rightarrow> string \<Rightarrow> 'k \<Rightarrow> (bool \<times> 'k) res" where
  "writeAll os fd data k =
     (if data = [] then ret (True, k)
      else
        (case co_write os fd data k of
           (r, k') \<Rightarrow>
             (case r of
                Inl e \<Rightarrow> if e = EINTR then writeAll os fd data k' else ret (False, k')
              | Inr n \<Rightarrow> writeAll os fd (drop n data) k')))"

text \<open>The number of bytes read is \<open>0\<close> at the end of the file and also when the time is up.\<close>

partial_function (option) readWithTimeout ::
  "('k, 'a) cos \<Rightarrow> int \<Rightarrow> nat \<Rightarrow> nat \<Rightarrow> 'k \<Rightarrow> ((errno + string) \<times> 'k) res" where
  "readWithTimeout os fd cap timeoutSec k =
     (case co_select os fd timeoutSec k of
        (r, k') \<Rightarrow>
          (case r of
             Inr ready \<Rightarrow> if \<not> ready then ret (Inr [], k') else ret (co_read os fd cap k')
           | Inl e \<Rightarrow> if e = EINTR then readWithTimeout os fd cap timeoutSec k' else ret (Inl e, k')))"

subsection \<open>One HTTP response\<close>

abbreviation HEADER_END :: string where
  "HEADER_END \<equiv> CRLF @ CRLF"

text \<open>The first loop: \<open>Some b\<close> when the function returns \<open>b\<close> from inside it.\<close>

partial_function (option) read_header ::
  "('k, 'a) cos \<Rightarrow> int \<Rightarrow> string \<Rightarrow> 'k \<Rightarrow> (bool option \<times> string \<times> 'k) res" where
  "read_header os fd out k =
     (if find_str out HEADER_END 0 \<noteq> None then ret (None, out, k)
      else rbind (readWithTimeout os fd 4096 kRecvTimeoutSec k) (\<lambda>(r, k').
        case r of
          Inl e \<Rightarrow> ret (Some False, out, k')
        | Inr buf \<Rightarrow>
            if buf = [] then ret (Some (out \<noteq> []), out, k')
            else if length (out @ buf) > 65536 then ret (Some False, out @ buf, k')
            else read_header os fd (out @ buf) k'))"

lemma find_str_ge: "find_str s n pos = Some i \<Longrightarrow> pos \<le> i \<and> i + length n \<le> length s"
  by (auto simp: find_str_def split: if_splits dest: str_index_bound)

text \<open>The value of the last Content-Length line; \<open>pos\<close> walks over the header block.\<close>

function content_length :: "string \<Rightarrow> nat \<Rightarrow> nat \<Rightarrow> nat outcome" where
  "content_length headers pos contentLength =
     (if pos < length headers then
        (let lineEnd = (case find_str headers CRLF pos of None \<Rightarrow> length headers | Some i \<Rightarrow> i);
             line = substr headers pos (lineEnd - pos);
             pos' = (if lineEnd = length headers then lineEnd else lineEnd + 2) in
         if 15 \<le> length line \<and> (take 15 line = ''Content-Length:'' \<or> take 15 line = ''content-length:'') then
           (case stoul (drop 15 line) of
              Inl e \<Rightarrow> Inl e
            | Inr n \<Rightarrow> content_length headers pos' n)
         else content_length headers pos' contentLength)
      else Inr contentLength)"
  by pat_completeness auto

termination
  by (relation "measure (\<lambda>(h, pos, n). length h - pos)") (auto split: option.splits dest: find_str_ge)

declare content_length.simps [simp del]

partial_function (option) read_body ::
  "('k, 'a) cos \<Rightarrow> int \<Rightarrow> nat \<Rightarrow> nat \<Rightarrow> string \<Rightarrow> 'k \<Rightarrow> (bool \<times> string \<times> 'k) res" where
  "read_body os fd bodyStart contentLength out k =
     (if length out - bodyStart < contentLength then
        rbind (readWithTimeout os fd 4096 kRecvTimeoutSec k) (\<lambda>(r, k').
          case r of
            Inl e \<Rightarrow> ret (False, out, k')
          | Inr buf \<Rightarrow>
              if buf = [] then ret (True, out, k')
              else read_body os fd bodyStart contentLength (out @ buf) k')
      else ret (True, out, k))"

definition readHttpResponse :: "('k, 'a) cos \<Rightarrow> int \<Rightarrow> 'k \<Rightarrow> (bool \<times> string \<times> 'k) res" where
  "readHttpResponse os fd k =
     rbind (read_header os fd [] k) (\<lambda>(r, out, k1).
       case r of
         Some b \<Rightarrow> ret (b, out, k1)
       | None \<Rightarrow>
           (let headerEnd = the (find_str out HEADER_END 0) in
            rbind (Some (content_length (substr out 0 headerEnd) 0 0)) (\<lambda>contentLength.
              read_body os fd (headerEnd + 4) contentLength out k1)))"

subsection \<open>Requests and expectations\<close>

definition buildGetRequest :: "string \<Rightarrow> bool \<Rightarrow> string" where
  "buildGetRequest path close =
     ''GET '' @ path @ '' HTTP/1.1'' @ CRLF @ ''Host: localhost'' @ CRLF @
     (if close then ''Connection: close'' @ CRLF else ''Connection: keep-alive'' @ CRLF) @ CRLF"

definition buildPostRequest :: string where
  "buildPostRequest = ''POST / HTTP/1.1'' @ CRLF @ ''Host: localhost'' @ CRLF @ ''Content-Length: 0'' @ CRLF @ CRLF"

definition expectStatus :: "string \<Rightarrow> string \<Rightarrow> bool" where
  "expectStatus resp statusLine \<longleftrightarrow>
     take (length statusLine) resp = statusLine \<or> find_str resp (CRLF @ statusLine) 0 \<noteq> None"

definition expectBodyContains :: "string \<Rightarrow> string \<Rightarrow> bool" where
  "expectBodyContains resp body \<longleftrightarrow> find_str resp body 0 \<noteq> None"

definition closeFd :: "('k, 'a) cos \<Rightarrow> int \<Rightarrow> 'k \<Rightarrow> 'k" where
  "closeFd os fd k = (if fd \<ge> 0 then co_close os fd k else k)"

text \<open>\<open>resp\<close> keeps its old value when the request could not be written.\<close>

definition keepAliveGetOnFd ::
  "('k, 'a) cos \<Rightarrow> int \<Rightarrow> string \<Rightarrow> string \<Rightarrow> 'k \<Rightarrow> (bool \<times> string \<times> 'k) res" where
  "keepAliveGetOnFd os fd path resp k =
     rbind (writeAll os fd (buildGetRequest path False) k) (\<lambda>(sent, k1).
       if \<not> sent then ret (False, resp, k1) else readHttpResponse os fd k1)"

subsection \<open>Test cases\<close>

datatype test_name = SingleGet | KeepAliveGet string | ConnectionClose | Post400 | IdleTimeout

datatype reason = NoReason | WriteFailed | ReadFailed | WantStatus string | WantBody | WantCloseHeader | WantEof int |
  FirstRound reason | StillAlive | ReconnectFailed

record TestCaseResult =
  tr_name :: test_name
  tr_passed :: bool
  tr_reason :: reason
  tr_response :: string

definition TestCaseResult_new :: "test_name \<Rightarrow> TestCaseResult" where
  "TestCaseResult_new name = \<lparr>tr_name = name, tr_passed = True, tr_reason = NoReason, tr_response = []\<rparr>"

definition failCase :: "TestCaseResult \<Rightarrow> reason \<Rightarrow> string \<Rightarrow> TestCaseResult" where
  "failCase r reason resp =
     (let r1 = r\<lparr>tr_passed := False, tr_reason := reason\<rparr> in if resp \<noteq> [] then r1\<lparr>tr_response := resp\<rparr> else r1)"

text \<open>The checks on a page: status 200, then the body.\<close>

definition check_page :: "TestCaseResult \<Rightarrow> string \<Rightarrow> TestCaseResult" where
  "check_page r resp =
     (if \<not> expectStatus resp ''HTTP/1.1 200'' then failCase r (WantStatus ''HTTP/1.1 200'') resp
      else if \<not> expectBodyContains resp ''Hello, World'' then failCase r WantBody resp
      else r)"

definition testSingleGet ::
  "('k, 'a) cos \<Rightarrow> string \<Rightarrow> 16 word \<Rightarrow> 'k \<Rightarrow> (TestCaseResult \<times> 'k) res" where
  "testSingleGet os host port k =
     (let r = TestCaseResult_new SingleGet in
      rbind (Some (connectServer os host port k)) (\<lambda>(fd, k1).
      rbind (writeAll os fd (buildGetRequest ''/'' False) k1) (\<lambda>(sent, k2).
        if \<not> sent then ret (failCase r WriteFailed [], closeFd os fd k2)
        else rbind (readHttpResponse os fd k2) (\<lambda>(got, resp, k3).
          if \<not> got then ret (failCase r ReadFailed [], closeFd os fd k3)
          else ret (check_page r resp, closeFd os fd k3)))))"

definition testKeepAliveOneGet ::
  "('k, 'a) cos \<Rightarrow> int \<Rightarrow> string \<Rightarrow> 'k \<Rightarrow> (TestCaseResult \<times> 'k) res" where
  "testKeepAliveOneGet os fd path k =
     (let r = TestCaseResult_new (KeepAliveGet path) in
      rbind (keepAliveGetOnFd os fd path [] k) (\<lambda>(ok, resp, k1).
        if \<not> ok then ret (failCase r ReadFailed [], k1) else ret (check_page r resp, k1)))"

definition testKeepAliveTwoGets ::
  "('k, 'a) cos \<Rightarrow> string \<Rightarrow> 16 word \<Rightarrow> 'k \<Rightarrow> (TestCaseResult list \<times> 'k) res" where
  "testKeepAliveTwoGets os host port k =
     rbind (Some (connectServer os host port k)) (\<lambda>(fd, k1).
     rbind (testKeepAliveOneGet os fd ''/a'' k1) (\<lambda>(ra, k2).
     rbind (testKeepAliveOneGet os fd ''/b'' k2) (\<lambda>(rb, k3).
       ret ([ra, rb], closeFd os fd k3))))"

definition testConnectionClose ::
  "('k, 'a) cos \<Rightarrow> string \<Rightarrow> 16 word \<Rightarrow> 'k \<Rightarrow> (TestCaseResult \<times> 'k) res" where
  "testConnectionClose os host port k =
     (let r = TestCaseResult_new ConnectionClose in
      rbind (Some (connectServer os host port k)) (\<lambda>(fd, k1).
      rbind (writeAll os fd (buildGetRequest ''/'' True) k1) (\<lambda>(sent, k2).
        if \<not> sent then ret (failCase r WriteFailed [], closeFd os fd k2)
        else rbind (readHttpResponse os fd k2) (\<lambda>(got, resp, k3).
          if \<not> got then ret (failCase r ReadFailed [], closeFd os fd k3)
          else if \<not> expectStatus resp ''HTTP/1.1 200'' then
            ret (failCase r (WantStatus ''HTTP/1.1 200'') resp, closeFd os fd k3)
          else if find_str resp ''Connection: close'' 0 = None then
            ret (failCase r WantCloseHeader resp, closeFd os fd k3)
          else rbind (readWithTimeout os fd 64 1 k3) (\<lambda>(n, k4).
            ret (case n of
                   Inl e \<Rightarrow> failCase r (WantEof (- 1)) []
                 | Inr buf \<Rightarrow> if buf \<noteq> [] then failCase r (WantEof (int (length buf))) [] else r,
                 closeFd os fd k4))))))"

definition testPost400 ::
  "('k, 'a) cos \<Rightarrow> string \<Rightarrow> 16 word \<Rightarrow> 'k \<Rightarrow> (TestCaseResult \<times> 'k) res" where
  "testPost400 os host port k =
     (let r = TestCaseResult_new Post400 in
      rbind (Some (connectServer os host port k)) (\<lambda>(fd, k1).
      rbind (writeAll os fd buildPostRequest k1) (\<lambda>(sent, k2).
        if \<not> sent then ret (failCase r WriteFailed [], closeFd os fd k2)
        else rbind (readHttpResponse os fd k2) (\<lambda>(got, resp, k3).
          if \<not> got then ret (failCase r ReadFailed [], closeFd os fd k3)
          else if \<not> expectStatus resp ''HTTP/1.1 400'' then
            ret (failCase r (WantStatus ''HTTP/1.1 400'') resp, closeFd os fd k3)
          else ret (r, closeFd os fd k3)))))"

text \<open>The first requests of the idle test, up to the first that fails.\<close>

fun first_round ::
  "('k, 'a) cos \<Rightarrow> int \<Rightarrow> string list \<Rightarrow> 'k \<Rightarrow> (TestCaseResult option \<times> 'k) res" where
  "first_round os fd [] k = ret (None, k)"
| "first_round os fd (path # paths) k =
     rbind (testKeepAliveOneGet os fd path k) (\<lambda>(t, k1).
       if \<not> tr_passed t then ret (Some t, k1) else first_round os fd paths k1)"

definition testIdleTimeout ::
  "('k, 'a) cos \<Rightarrow> string \<Rightarrow> 16 word \<Rightarrow> 'k \<Rightarrow> (TestCaseResult \<times> 'k) res" where
  "testIdleTimeout os host port k =
     (let r = TestCaseResult_new IdleTimeout in
      rbind (Some (connectServer os host port k)) (\<lambda>(fd, k1).
      rbind (first_round os fd [''/'', ''/a'', ''/b''] k1) (\<lambda>(bad, k2).
        case bad of
          Some t \<Rightarrow> ret (failCase r (FirstRound (tr_reason t)) (tr_response t), closeFd os fd k2)
        | None \<Rightarrow>
            rbind (keepAliveGetOnFd os fd ''/idle-check'' [] (co_sleep os kIdleWaitSec k2)) (\<lambda>(stillAlive, resp, k3).
              let k4 = closeFd os fd k3 in
              if stillAlive then ret (failCase r StillAlive resp, k4)
              else
                rbind (Some (connectServer os host port k4)) (\<lambda>(fd2, k5).
                rbind (keepAliveGetOnFd os fd2 ''/'' resp k5) (\<lambda>(ok, resp2, k6).
                  if \<not> ok \<or> \<not> expectStatus resp2 ''HTTP/1.1 200''
                  then ret (failCase r ReconnectFailed resp2, closeFd os fd2 k6)
                  else ret (r, closeFd os fd2 k6)))))))"

definition runAll ::
  "('k, 'a) cos \<Rightarrow> string \<Rightarrow> 16 word \<Rightarrow> 'k \<Rightarrow> (TestCaseResult list \<times> 'k) res" where
  "runAll os host port k =
     rbind (testSingleGet os host port k) (\<lambda>(r1, k1).
     rbind (testKeepAliveTwoGets os host port k1) (\<lambda>(ka, k2).
     rbind (testConnectionClose os host port k2) (\<lambda>(r3, k3).
     rbind (testPost400 os host port k3) (\<lambda>(r4, k4).
       ret (r1 # ka @ [r3, r4], k4)))))"

subsection \<open>Arguments and main\<close>

text \<open>
  \<open>std::atoi\<close>: leading white space, a sign, digits; 0 without digits; undefined when the value does not
  fit an \<open>int\<close>.
\<close>

definition atoi :: "string \<Rightarrow> int outcome" where
  "atoi s =
     (let t = dropWhile isspace_char s;
          neg = (t \<noteq> [] \<and> hd t = CHR ''-'');
          u = (if t \<noteq> [] \<and> (hd t = CHR ''-'' \<or> hd t = CHR ''+'') then tl t else t);
          v = int (digits_value (takeWhile isdigit u));
          n = (if neg then - v else v) in
      if - (2 ^ 31) \<le> n \<and> n < 2 ^ 31 then Inr n else Inl (Undefined ''atoi''))"

record ClientConfig =
  cfg_host :: string
  cfg_port :: "16 word"
  cfg_repeat :: int
  cfg_idleTest :: bool

definition ClientConfig_new :: ClientConfig where
  "ClientConfig_new = \<lparr>cfg_host = ''127.0.0.1'', cfg_port = 8888, cfg_repeat = 1, cfg_idleTest = False\<rparr>"

text \<open>The option loop on the arguments that are left; \<open>None\<close> is the return value \<open>false\<close>.\<close>

fun parse_modes :: "string list \<Rightarrow> bool \<Rightarrow> ClientConfig \<Rightarrow> (string list \<times> bool \<times> ClientConfig) option outcome" where
  "parse_modes [] gotMode cfg = Inr (Some ([], gotMode, cfg))"
| "parse_modes (a # rest) gotMode cfg =
     (if a = ''-t'' then
        if gotMode then Inr None else parse_modes rest True (cfg\<lparr>cfg_idleTest := True, cfg_repeat := 1\<rparr>)
      else if a = ''-n'' then
        if gotMode then Inr None
        else
          (case rest of
             [] \<Rightarrow> Inr None
           | b # rest' \<Rightarrow>
               ebind (atoi b) (\<lambda>n. if n < 1 then Inr None else parse_modes rest' True (cfg\<lparr>cfg_repeat := n\<rparr>)))
      else Inr (Some (a # rest, gotMode, cfg)))"

definition parse_target :: "string list \<Rightarrow> ClientConfig \<Rightarrow> ClientConfig option outcome" where
  "parse_target args cfg =
     (case args of
        [] \<Rightarrow> Inr (Some cfg)
      | [host] \<Rightarrow> Inr (Some (cfg\<lparr>cfg_host := host\<rparr>))
      | host # port # rest \<Rightarrow>
          ebind (atoi port) (\<lambda>n.
            if rest = [] then Inr (Some (cfg\<lparr>cfg_host := host, cfg_port := word_of_int n\<rparr>)) else Inr None))"

definition parseConfig :: "string list \<Rightarrow> ClientConfig option outcome" where
  "parseConfig args =
     ebind (parse_modes args False ClientConfig_new) (\<lambda>r.
       case r of
         None \<Rightarrow> Inr None
       | Some (rest, gotMode, cfg) \<Rightarrow>
           if \<not> gotMode \<and> rest \<noteq> [] \<and> hd rest \<noteq> [] \<and> isdigit (hd (hd rest)) then
             ebind (atoi (hd rest)) (\<lambda>n. if n < 1 then Inr None else parse_target (tl rest) (cfg\<lparr>cfg_repeat := n\<rparr>))
           else parse_target rest cfg)"

fun run_rounds :: "('k, 'a) cos \<Rightarrow> string \<Rightarrow> 16 word \<Rightarrow> nat \<Rightarrow> nat \<Rightarrow> 'k \<Rightarrow> (nat \<times> 'k) res" where
  "run_rounds os host port 0 totalFailed k = ret (totalFailed, k)"
| "run_rounds os host port (Suc rounds) totalFailed k =
     rbind (runAll os host port k) (\<lambda>(results, k1).
       run_rounds os host port rounds (totalFailed + length (filter (\<lambda>t. \<not> tr_passed t) results)) k1)"

text \<open>\<open>main\<close> on the arguments after the program's name: the exit code.\<close>

definition client_main :: "('k, 'a) cos \<Rightarrow> string list \<Rightarrow> 'k \<Rightarrow> (int \<times> 'k) res" where
  "client_main os args k =
     rbind (Some (parseConfig args)) (\<lambda>c.
       case c of
         None \<Rightarrow> ret (1, k)
       | Some cfg \<Rightarrow>
           if cfg_idleTest cfg then
             rbind (testIdleTimeout os (cfg_host cfg) (cfg_port cfg) k) (\<lambda>(r, k1). ret (if tr_passed r then 0 else 1, k1))
           else
             rbind (run_rounds os (cfg_host cfg) (cfg_port cfg) (nat (cfg_repeat cfg)) 0 k) (\<lambda>(totalFailed, k1).
               ret (if totalFailed = 0 then 0 else 1, k1)))"

end
