(* ===== verification/ClientProps.thy ===== *)
theory ClientProps
  imports Client Serve
begin

section \<open>The client against the server's protocol\<close>

text \<open>
  What the client prints the server parses, what the server prints the client reads, however the
  network cuts it into chunks; and what the verdicts of the test cases do and do not show.
\<close>

subsection \<open>Requests\<close>

definition client_fields :: "bool \<Rightarrow> (string \<times> string) list" where
  "client_fields close = [(''Host'', '' localhost''), (''Connection'', if close then '' close'' else '' keep-alive'')]"

lemma buildGetRequest_render:
  "buildGetRequest path close = render_request (''GET '' @ path @ SP # ''HTTP/1.1'') (map field_line (client_fields close))"
  by (simp add: buildGetRequest_def render_request_def client_fields_def field_line_def)

lemma client_fields_ok: "list_all field_ok (client_fields close)"
proof -
  have "list_all field_ok (client_fields True)" "list_all field_ok (client_fields False)"
    by code_simp+
  then show ?thesis
    by (cases close) simp_all
qed

lemma client_fields_effect:
  "fold header_effect (client_fields close) req = req\<lparr>rq_host := ''localhost'', rq_keepAlive := \<not> close\<rparr>"
proof -
  have keys: "toLower ''Host'' = ''host''" "toLower ''Connection'' = ''connection''"
    "trim_left '' localhost'' = ''localhost''" "trim_left '' close'' = ''close''" "trim_left '' keep-alive'' = ''keep-alive''"
    "find_str (toLower ''close'') ''close'' 0 = Some 0" "find_str (toLower ''keep-alive'') ''close'' 0 = None"
    "find_str (toLower ''keep-alive'') ''keep-alive'' 0 = Some 0"
    by code_simp+
  show ?thesis
    by (cases close) (simp_all add: client_fields_def header_effect_def updateKeepAlive_def Let_def keys)
qed

lemma parse_post:
  "parse_str HttpProcess_new (buildPostRequest @ rest) =
     Inr (kError, HttpProcess_new, ''Host: localhost'' @ CRLF @ ''Content-Length: 0'' @ CRLF @ CRLF @ rest)"
proof -
  have "good_line ''POST / HTTP/1.1''" and no: "parseRequestLine ''POST / HTTP/1.1'' (hp_current HttpProcess_new) = None"
    by code_simp+
  then have "line_str (buildPostRequest @ rest) = Line ''POST / HTTP/1.1'' (''Host: localhost'' @ CRLF @ ''Content-Length: 0'' @ CRLF @ CRLF @ rest)"
    using line_str_render[of "''POST / HTTP/1.1''"] by (simp add: buildPostRequest_def)
  with no show ?thesis
    by (simp add: parse_str_def HttpProcess_new_def)
qed

text \<open>
  C17. Requests round trip: what \<open>buildGetRequest\<close> prints for a path, the server's parser accepts in one
  call, leaving what follows unread, and the request it hands out has that path, version 1.1, the
  host, and asks for keep-alive exactly when the client did not say close. What \<open>buildPostRequest\<close>
  prints is rejected.
\<close>

theorem client_request_roundtrip:
  assumes "buffer_inv b" and "peek b = buildGetRequest path close @ rest"
    and "path \<noteq> []" and "hd path = CHR ''/''" and "SP \<notin> set path" and "good_line (''GET '' @ path @ '' HTTP/1.1'')"
    and "buffer_inv b2" and "peek b2 = buildPostRequest @ rest2"
  shows "(\<exists>h' b'. parse HttpProcess_new b = Inr (kComplete, h', b') \<and> peek b' = rest \<and> fst (releaseRequest h') =
      \<lparr>rq_method = ''GET'', rq_path = path, rq_version = ''HTTP/1.1'', rq_host = ''localhost'', rq_keepAlive = (\<not> close)\<rparr>) \<and>
    (\<exists>b'. parse HttpProcess_new b2 = Inr (kError, HttpProcess_new, b'))"
proof
  have v: "isHttpVersion ''HTTP/1.1''"
    by (simp add: isHttpVersion_def)
  have n: "length (client_fields close) \<le> 100"
    by (simp add: client_fields_def)
  obtain h' b' where "parse HttpProcess_new b = Inr (kComplete, h', b')" "peek b' = rest"
      "fst (releaseRequest h') = fold header_effect (client_fields close)
        \<lparr>rq_method = ''GET'', rq_path = path, rq_version = ''HTTP/1.1'', rq_host = [], rq_keepAlive = (''HTTP/1.1'' \<noteq> ''HTTP/1.0'')\<rparr>"
    using parse_fields[OF assms(1) assms(2)[unfolded buildGetRequest_render] assms(3-5) assms(6) v client_fields_ok n]
    by blast
  then show "\<exists>h' b'. parse HttpProcess_new b = Inr (kComplete, h', b') \<and> peek b' = rest \<and> fst (releaseRequest h') =
      \<lparr>rq_method = ''GET'', rq_path = path, rq_version = ''HTTP/1.1'', rq_host = ''localhost'', rq_keepAlive = (\<not> close)\<rparr>"
    by (simp add: client_fields_effect)
  have "parse_str HttpProcess_new (peek b2) = Inr (kError, HttpProcess_new, ''Host: localhost'' @ CRLF @ ''Content-Length: 0'' @ CRLF @ CRLF @ rest2)"
    unfolding assms(8) by (rule parse_post)
  then show "\<exists>b'. parse HttpProcess_new b2 = Inr (kError, HttpProcess_new, b')"
    using parse_from_str[OF assms(7)] by metis
qed

theorem client_request_roundtrip_witness:
  "(\<exists>h' b'. parse HttpProcess_new (dataIn (buildGetRequest ''/a'' True @ ''x'') Buffer_new) = Inr (kComplete, h', b') \<and> peek b' = ''x'' \<and>
      fst (releaseRequest h') = \<lparr>rq_method = ''GET'', rq_path = ''/a'', rq_version = ''HTTP/1.1'', rq_host = ''localhost'', rq_keepAlive = (\<not> True)\<rparr>) \<and>
   (\<exists>b'. parse HttpProcess_new (dataIn (buildPostRequest @ []) Buffer_new) = Inr (kError, HttpProcess_new, b'))"
proof (rule client_request_roundtrip)
  show "good_line (''GET '' @ ''/a'' @ '' HTTP/1.1'')"
    by code_simp
qed simp_all

subsection \<open>Responses\<close>

text \<open>
  \<open>delivers os fd cs k k'\<close>: from kernel state \<open>k\<close> on, waiting and reading hand out the chunks \<open>cs\<close> one after
  the other, with any number of interruptions, and leave \<open>k'\<close>. Each wait ends within the client's time limit.
\<close>

inductive delivers :: "('k, 'a) cos \<Rightarrow> int \<Rightarrow> string list \<Rightarrow> 'k \<Rightarrow> 'k \<Rightarrow> bool" for os fd where
  nothing: "delivers os fd [] k k"
| chunk: "co_select os fd kRecvTimeoutSec k = (Inr True, k1) \<Longrightarrow> co_read os fd 4096 k1 = (Inr c, k2) \<Longrightarrow> c \<noteq> [] \<Longrightarrow>
    delivers os fd cs k2 k' \<Longrightarrow> delivers os fd (c # cs) k k'"
| interrupted: "co_select os fd kRecvTimeoutSec k = (Inl EINTR, k1) \<Longrightarrow> cs \<noteq> [] \<Longrightarrow> delivers os fd cs k1 k' \<Longrightarrow> delivers os fd cs k k'"

inductive_cases delivers_NilE: "delivers os fd [] k k'"

lemma delivers_Nil [simp]: "delivers os fd [] k k' \<longleftrightarrow> k' = k"
  by (auto elim: delivers_NilE intro: delivers.nothing)

lemma delivers_read:
  assumes "delivers os fd cs' k k'" and "cs' = c # cs"
  shows "\<exists>k1. readWithTimeout os fd 4096 kRecvTimeoutSec k = ret (Inr c, k1) \<and> delivers os fd cs k1 k' \<and> c \<noteq> []"
  using assms
proof (induction rule: delivers.induct)
  case (chunk k k1 c' k2 cs'' k')
  then show ?case
    by (subst readWithTimeout.simps) simp
next
  case (interrupted k k1 cs'' k')
  then show ?case
    by (subst readWithTimeout.simps) simp
qed simp

text \<open>A response the reader can delimit: a header block, its blank line, and as many bytes as it announces.\<close>

definition response_ok :: "string \<Rightarrow> bool" where
  "response_ok s \<longleftrightarrow> length s \<le> 65536 \<and>
     (case find_str s HEADER_END 0 of
        None \<Rightarrow> False
      | Some i \<Rightarrow> content_length (take i s) 0 0 = Inr (length s - (i + 4)))"

lemma find_str_append:
  assumes "find_str a n 0 = Some i" shows "find_str (a @ b) n 0 = Some i"
proof -
  have "str_index n (a @ b) = Some i" if "str_index n a = Some i" for i
    using that
  proof (induction a arbitrary: i)
    case Nil
    then show ?case by (cases b) (auto split: if_splits)
  next
    case (Cons x a)
    have "take (length n) ((x # a) @ b) = take (length n) (x # a)"
      using str_index_bound[OF Cons.prems] by (simp only: take_append) simp
    then show ?case
      using Cons by (auto split: if_splits)
  qed
  then show ?thesis
    using assms by (simp add: find_str_def)
qed

lemma read_header_delivers:
  assumes "delivers os fd cs k k'" and "find_str (out @ concat cs) HEADER_END 0 = Some i" and "length (out @ concat cs) \<le> 65536"
  shows "\<exists>cs' k1 out'. read_header os fd out k = ret (None, out', k1) \<and> delivers os fd cs' k1 k' \<and>
    out' @ concat cs' = out @ concat cs \<and> find_str out' HEADER_END 0 = Some i"
  using assms
proof (induction cs arbitrary: out k)
  case Nil
  then have "read_header os fd out k = ret (None, out, k) \<and> delivers os fd [] k k'"
    by (subst read_header.simps) simp
  then show ?case
    using Nil.prems(2) by (intro exI[of _ "[]"] exI[of _ k] exI[of _ out]) simp
next
  case (Cons c cs)
  show ?case
  proof (cases "find_str out HEADER_END 0")
    case None
    obtain k1 where r: "readWithTimeout os fd 4096 kRecvTimeoutSec k = ret (Inr c, k1)" "delivers os fd cs k1 k'" "c \<noteq> []"
      using delivers_read[OF Cons.prems(1) refl] by blast
    have "read_header os fd out k = read_header os fd (out @ c) k1"
      using None r(1,3) Cons.prems(3) by (subst read_header.simps) simp
    then show ?thesis
      using Cons.IH[OF r(2), of "out @ c"] Cons.prems(2,3) by simp
  next
    case (Some j)
    then have "j = i"
      using find_str_append[OF Some, of "concat (c # cs)"] Cons.prems(2) by simp
    then show ?thesis
      using Some Cons.prems(1) by (intro exI[of _ "c # cs"] exI[of _ k] exI[of _ out]) (simp add: read_header.simps)
  qed
qed

lemma read_body_delivers:
  assumes "delivers os fd cs k k'" and "bodyStart \<le> length out" and "n = length (out @ concat cs) - bodyStart"
  shows "read_body os fd bodyStart n out k = ret (True, out @ concat cs, k')"
  using assms
proof (induction cs arbitrary: out k)
  case Nil
  then show ?case
    by (subst read_body.simps) simp
next
  case (Cons c cs)
  obtain k1 where r: "readWithTimeout os fd 4096 kRecvTimeoutSec k = ret (Inr c, k1)" "delivers os fd cs k1 k'" "c \<noteq> []"
    using delivers_read[OF Cons.prems(1) refl] by blast
  have "length out - bodyStart < n"
    using Cons.prems(2,3) r(3) by (simp add: diff_less_mono)
  then have "read_body os fd bodyStart n out k = read_body os fd bodyStart n (out @ c) k1"
    using r(1,3) by (subst read_body.simps) simp
  then show ?case
    using Cons.IH[OF r(2), of "out @ c"] Cons.prems(2,3) by simp
qed

lemma reader_delivers:
  assumes "delivers os fd cs k k'" and "response_ok (concat cs)"
  shows "readHttpResponse os fd k = ret (True, concat cs, k')"
proof -
  obtain i where i: "find_str (concat cs) HEADER_END 0 = Some i" "length (concat cs) \<le> 65536"
      "content_length (take i (concat cs)) 0 0 = Inr (length (concat cs) - (i + 4))"
    using assms(2) by (auto simp: response_ok_def split: option.splits)
  obtain cs' k1 out' where r: "read_header os fd [] k = ret (None, out', k1)" "delivers os fd cs' k1 k'"
      "out' @ concat cs' = concat cs" "find_str out' HEADER_END 0 = Some i"
    using read_header_delivers[OF assms(1), of "[]" i] i by auto
  have "i + 4 \<le> length out'"
    using find_str_ge[OF r(4)] by simp
  moreover from this have "take i (concat cs) = take i out'"
    unfolding r(3)[symmetric] by simp
  ultimately show ?thesis
    using i(3) r(1,3,4) read_body_delivers[OF r(2), of "i + 4" out' "length (concat cs) - (i + 4)"]
    by (simp add: readHttpResponse_def substr_def)
qed

text \<open>The server's three responses.\<close>

lemma buildResponse_keepAlive:
  "buildResponse req = buildResponse (HttpRequest_new\<lparr>rq_keepAlive := rq_keepAlive req\<rparr>)"
  by (simp add: buildResponse_def)

definition page :: "bool \<Rightarrow> string" where
  "page keepAlive = buildResponse (HttpRequest_new\<lparr>rq_keepAlive := keepAlive\<rparr>)"

lemma stoul_small: "stoul '' 13'' = Inr 13" "stoul '' 0'' = Inr 0"
  by (simp_all add: stoul_def Let_def isspace_char_def isdigit_def digits_value_def code_def ULONG_MAX_def)

lemma char_of_digits: "char_of (49 :: nat) = CHR ''1''" "char_of (51 :: nat) = CHR ''3''"
  by code_simp+

lemma page_simps:
  "page True = ''HTTP/1.1 200 OK'' @ CRLF @ ''Content-Length: 13'' @ CRLF @ ''Connection: keep-alive'' @ CRLF @ CRLF @ ''Hello, World!''"
  "page False = ''HTTP/1.1 200 OK'' @ CRLF @ ''Content-Length: 13'' @ CRLF @ ''Connection: close'' @ CRLF @ CRLF @ ''Hello, World!''"
  by (simp_all add: page_def buildResponse_def kBody_def kBodyLen_def to_string.simps HttpRequest_new_def char_of_digits)

lemma response_headers:
  "find_str (page True) HEADER_END 0 = Some 59"
  "find_str (page False) HEADER_END 0 = Some 54"
  "find_str build400 HEADER_END 0 = Some 62"
  by (simp_all add: page_simps build400_def find_str_def)

lemma content_length_responses:
  "content_length (take 59 (page True)) 0 0 = Inr 13"
  "content_length (take 54 (page False)) 0 0 = Inr 13"
  "content_length (take 62 build400) 0 0 = Inr 0"
  by (simp_all add: page_simps build400_def find_str_def substr_def content_length.simps stoul_small)

lemma response_ok_responses: "response_ok (page keepAlive)" "response_ok build400"
proof -
  have "response_ok (page True)" "response_ok (page False)" "length (page True) = 76" "length (page False) = 71"
    using response_headers content_length_responses by (simp_all add: response_ok_def) (simp_all add: page_simps)
  then show "response_ok (page keepAlive)"
    by (cases keepAlive) simp_all
  show "response_ok build400"
    using response_headers content_length_responses by (simp add: response_ok_def) (simp add: build400_def)
qed

lemma response_verdicts:
  "expectStatus (page True) ''HTTP/1.1 200''" "expectStatus (page False) ''HTTP/1.1 200''"
  "expectBodyContains (page True) ''Hello, World''" "expectBodyContains (page False) ''Hello, World''"
  "find_str (page True) ''Connection: close'' 0 = None" "find_str (page False) ''Connection: close'' 0 \<noteq> None"
  "expectStatus build400 ''HTTP/1.1 400''" "\<not> expectStatus build400 ''HTTP/1.1 200''"
  by (simp_all add: page_simps build400_def expectStatus_def expectBodyContains_def find_str_def)

lemma page_verdicts:
  "expectStatus (page ka) ''HTTP/1.1 200''" "expectBodyContains (page ka) ''Hello, World''"
  "find_str (page ka) ''Connection: close'' 0 = None \<longleftrightarrow> ka"
  using response_verdicts by (cases ka; simp)+

lemma check_page_ok [simp]: "check_page r (page ka) = r"
  by (simp add: check_page_def page_verdicts)

lemma buildResponse_page: "buildResponse req = page (rq_keepAlive req)"
  unfolding page_def by (rule buildResponse_keepAlive)

text \<open>
  C18. Responses round trip: however the network cuts them, the client's reader returns exactly the page
  that \<open>buildResponse\<close> builds and the page that \<open>build400\<close> builds, and the client's checks tell them
  apart: the first passes as a page and shows \<open>Connection: close\<close> exactly when the request did not ask
  for keep-alive, the second has status 400 and not 200.
\<close>

theorem client_reads_responses:
  assumes "delivers os fd cs k k'" and "concat cs = buildResponse req"
    and "delivers os fd cs2 j j'" and "concat cs2 = build400"
  shows "readHttpResponse os fd k = ret (True, buildResponse req, k') \<and> check_page r (buildResponse req) = r \<and>
    (find_str (buildResponse req) ''Connection: close'' 0 = None \<longleftrightarrow> rq_keepAlive req) \<and>
    readHttpResponse os fd j = ret (True, build400, j') \<and>
    expectStatus build400 ''HTTP/1.1 400'' \<and> \<not> expectStatus build400 ''HTTP/1.1 200''"
  using reader_delivers[OF assms(1)] reader_delivers[OF assms(3)] assms(2,4)
  by (simp add: buildResponse_page response_ok_responses page_verdicts response_verdicts)

subsection \<open>A scripted server for the witnesses\<close>

text \<open>\<open>ck_in\<close> are the chunks to come; when there are none left, waiting runs into its limit. \<open>ck_out\<close> is what was written.\<close>

record ckern =
  ck_in :: "string list"
  ck_out :: string

definition cks :: "(ckern, unit) cos" where
  "cks = \<lparr>co_socket = (\<lambda>k. (Inr 3, k)), co_pton = (\<lambda>h. Some ()), co_connect = (\<lambda>fd a p k. (Inr (), k)),
     co_write = (\<lambda>fd s k. (Inr (length s), k\<lparr>ck_out := ck_out k @ s\<rparr>)),
     co_select = (\<lambda>fd t k. (Inr (ck_in k \<noteq> []), k)),
     co_read = (\<lambda>fd n k. case ck_in k of [] \<Rightarrow> (Inr [], k)
       | c # cs \<Rightarrow> (Inr (take n c), k\<lparr>ck_in := (if length c \<le> n then cs else drop n c # cs)\<rparr>)),
     co_close = (\<lambda>fd k. k), co_sleep = (\<lambda>n k. k)\<rparr>"

lemma cks_simps [simp]:
  "co_socket cks k = (Inr 3, k)" "co_pton cks h = Some ()" "co_connect cks fd a p k = (Inr (), k)"
  "co_write cks fd s k = (Inr (length s), k\<lparr>ck_out := ck_out k @ s\<rparr>)" "co_select cks fd t k = (Inr (ck_in k \<noteq> []), k)"
  "co_close cks fd k = k" "co_sleep cks n k = k"
  by (simp_all add: cks_def)

lemma cks_read: "ck_in k = c # cs \<Longrightarrow> length c \<le> n \<Longrightarrow> co_read cks fd n k = (Inr c, k\<lparr>ck_in := cs\<rparr>)"
  by (simp add: cks_def)

lemma cks_delivers:
  "ck_in k = cs @ rest \<Longrightarrow> list_all (\<lambda>c. c \<noteq> [] \<and> length c \<le> 4096) cs \<Longrightarrow> delivers cks fd cs k (k\<lparr>ck_in := rest\<rparr>)"
proof (induction cs arbitrary: k)
  case (Cons c cs)
  have "delivers cks fd cs (k\<lparr>ck_in := cs @ rest\<rparr>) (k\<lparr>ck_in := rest\<rparr>)"
    using Cons.IH[of "k\<lparr>ck_in := cs @ rest\<rparr>"] Cons.prems(2) by simp
  then show ?case
    using Cons.prems by (intro delivers.chunk[where ?k1.0 = k and ?k2.0 = "k\<lparr>ck_in := cs @ rest\<rparr>"]) (simp_all add: cks_read)
qed simp

lemma cks_writeAll: "writeAll cks fd data k = ret (True, k\<lparr>ck_out := ck_out k @ data\<rparr>)"
  by (subst writeAll.simps, subst writeAll.simps) simp

lemma response_chunks:
  "list_all (\<lambda>c. c \<noteq> [] \<and> length c \<le> 4096) [take 20 (page ka), drop 20 (page ka)]" "list_all (\<lambda>c. c \<noteq> [] \<and> length c \<le> 4096) [build400]"
  by (cases ka) (simp_all add: page_simps build400_def)

theorem client_reads_responses_witness:
  "\<exists>k. ck_in k = [take 20 (buildResponse HttpRequest_new), drop 20 (buildResponse HttpRequest_new)] \<and>
     readHttpResponse cks 3 k = ret (True, buildResponse HttpRequest_new, k\<lparr>ck_in := []\<rparr>) \<and>
     readHttpResponse cks 3 (k\<lparr>ck_in := [build400]\<rparr>) = ret (True, build400, k\<lparr>ck_in := []\<rparr>)"
proof -
  let ?k = "\<lparr>ck_in = [take 20 (buildResponse HttpRequest_new), drop 20 (buildResponse HttpRequest_new)], ck_out = []\<rparr>"
  have 1: "delivers cks 3 [take 20 (buildResponse HttpRequest_new), drop 20 (buildResponse HttpRequest_new)] ?k (?k\<lparr>ck_in := []\<rparr>)"
    by (rule cks_delivers) (simp, unfold buildResponse_page, rule response_chunks)
  have 2: "delivers cks 3 [build400] (?k\<lparr>ck_in := [build400]\<rparr>) (?k\<lparr>ck_in := [build400]\<rparr>\<lparr>ck_in := []\<rparr>)"
    by (rule cks_delivers) (simp, rule response_chunks)
  show ?thesis
    using client_reads_responses[OF 1 _ 2, of HttpRequest_new] by (intro exI[of _ ?k]) simp
qed

end
