(* ===== verification/ClientTests.thy ===== *)
theory ClientTests
  imports ClientProps
begin

section \<open>What the verdicts of the client show\<close>

subsection \<open>A server that answers as specified\<close>

lemma serve_get:
  assumes "path \<noteq> []" "hd path = CHR ''/''" "SP \<notin> set path" "good_line (''GET '' @ path @ '' HTTP/1.1'')"
  shows "fst (serve HttpProcess_new (buildGetRequest path close)) = [page (\<not> close)]"
proof -
  let ?b = "dataIn (buildGetRequest path close) Buffer_new"
  have v: "isHttpVersion ''HTTP/1.1''" and n: "length (client_fields close) \<le> 100"
    by (simp_all add: isHttpVersion_def client_fields_def)
  have b: "buffer_inv ?b" and p: "peek ?b = render_request (''GET '' @ path @ SP # ''HTTP/1.1'') (map field_line (client_fields close)) @ []"
    using buildGetRequest_render[of path close] by simp_all
  obtain h' b' where r: "parse HttpProcess_new ?b = Inr (kComplete, h', b')" "peek b' = []"
      "fst (releaseRequest h') = fold header_effect (client_fields close)
        \<lparr>rq_method = ''GET'', rq_path = path, rq_version = ''HTTP/1.1'', rq_host = [], rq_keepAlive = (''HTTP/1.1'' \<noteq> ''HTTP/1.0'')\<rparr>"
    using parse_fields[OF b p assms v client_fields_ok n] by blast
  have "parse_str HttpProcess_new (buildGetRequest path close) = Inr (kComplete, h', [])"
    using parse_to_str[OF b r(1)] r(2) by simp
  from serve_complete[OF this] show ?thesis
    using r(3) by (simp add: buildResponse_page client_fields_effect)
qed

lemma serve_post: "fst (serve HttpProcess_new buildPostRequest) = [build400]"
  using serve_stop(3)[OF parse_post[of "[]"]] by simp

text \<open>
  \<open>exchange os fd req k k'\<close>: the request goes out completely and the bytes that come back within the time
  limit are the server's answers to it according to \<open>serve\<close>, which ConnStream.thy shows the
  server's connections to send.
\<close>

definition exchange :: "('k, 'a) cos \<Rightarrow> int \<Rightarrow> string \<Rightarrow> 'k \<Rightarrow> 'k \<Rightarrow> bool" where
  "exchange os fd req k k' \<longleftrightarrow> (\<exists>k1 cs. writeAll os fd req k = ret (True, k1) \<and> delivers os fd cs k1 k' \<and>
     concat cs = concat (fst (serve HttpProcess_new req)))"

lemma exchange_reads:
  assumes "exchange os fd req k k'" and "fst (serve HttpProcess_new req) = [resp]" and "response_ok resp"
  shows "\<exists>k1. writeAll os fd req k = ret (True, k1) \<and> readHttpResponse os fd k1 = ret (True, resp, k')"
proof -
  obtain k1 cs where "writeAll os fd req k = ret (True, k1)" "delivers os fd cs k1 k'" "concat cs = resp"
    using assms(1,2) by (auto simp: exchange_def)
  with reader_delivers[OF this(2)] assms(3) show ?thesis
    by auto
qed

lemma client_paths:
  "good_line (''GET '' @ ''/'' @ '' HTTP/1.1'')" "good_line (''GET '' @ ''/a'' @ '' HTTP/1.1'')"
  "good_line (''GET '' @ ''/b'' @ '' HTTP/1.1'')"
  by code_simp+

lemmas get_exchange = exchange_reads[OF _ serve_get response_ok_responses(1)]
lemmas post_exchange = exchange_reads[OF _ serve_post response_ok_responses(2)]

lemma single_get_passes:
  assumes "connectServer os host port k = Inr (fd, k1)" and "exchange os fd (buildGetRequest ''/'' False) k1 k2"
  shows "testSingleGet os host port k = ret (TestCaseResult_new SingleGet, closeFd os fd k2)"
  using get_exchange[OF assms(2)] client_paths(1) assms(1) by (auto simp: testSingleGet_def)

lemma keep_alive_passes:
  assumes "exchange os fd (buildGetRequest path False) k k'" and "path \<in> {''/'', ''/a'', ''/b''}"
  shows "testKeepAliveOneGet os fd path k = ret (TestCaseResult_new (KeepAliveGet path), k')"
  using get_exchange[OF assms(1)] client_paths assms(2)
  by (auto simp: testKeepAliveOneGet_def keepAliveGetOnFd_def)

lemma close_passes:
  assumes "connectServer os host port k = Inr (fd, k1)" and "exchange os fd (buildGetRequest ''/'' True) k1 k2"
    and "readWithTimeout os fd 64 1 k2 = ret (Inr [], k3)"
  shows "testConnectionClose os host port k = ret (TestCaseResult_new ConnectionClose, closeFd os fd k3)"
  using get_exchange[OF assms(2)] client_paths(1) assms(1,3) page_verdicts(1,3)[of False]
  by (auto simp: testConnectionClose_def Let_def)

lemma post_passes:
  assumes "connectServer os host port k = Inr (fd, k1)" and "exchange os fd buildPostRequest k1 k2"
  shows "testPost400 os host port k = ret (TestCaseResult_new Post400, closeFd os fd k2)"
  using post_exchange[OF assms(2)] assms(1) response_verdicts(7) by (auto simp: testPost400_def)

text \<open>
  C19. The acceptance tests pass on a server that meets the specification: when each connection
  succeeds, each request is answered within the time limit as \<open>serve\<close> says, in whatever chunks,
  and the connection of the third test is then closed, all five results of a round are passes.
\<close>

theorem acceptance_tests_pass:
  assumes "connectServer os host port k = Inr (f1, a1)" and "exchange os f1 (buildGetRequest ''/'' False) a1 a2"
    and "connectServer os host port (closeFd os f1 a2) = Inr (f2, b1)" and "exchange os f2 (buildGetRequest ''/a'' False) b1 b2"
    and "exchange os f2 (buildGetRequest ''/b'' False) b2 b3"
    and "connectServer os host port (closeFd os f2 b3) = Inr (f3, c1)" and "exchange os f3 (buildGetRequest ''/'' True) c1 c2"
    and "readWithTimeout os f3 64 1 c2 = ret (Inr [], c3)"
    and "connectServer os host port (closeFd os f3 c3) = Inr (f4, d1)" and "exchange os f4 buildPostRequest d1 d2"
  shows "runAll os host port k = ret (map TestCaseResult_new
    [SingleGet, KeepAliveGet ''/a'', KeepAliveGet ''/b'', ConnectionClose, Post400], closeFd os f4 d2)"
  using single_get_passes[OF assms(1,2)] keep_alive_passes[OF assms(4)] keep_alive_passes[OF assms(5)] assms(3)
    close_passes[OF assms(6,7,8)] post_passes[OF assms(9,10)]
  by (simp add: runAll_def testKeepAliveTwoGets_def)

lemma cks_exchange:
  assumes "ck_in k = c # rest" and "fst (serve HttpProcess_new req) = [c]" and "c \<noteq> []" and "length c \<le> 4096"
  shows "exchange cks fd req k (k\<lparr>ck_out := ck_out k @ req, ck_in := rest\<rparr>)"
proof -
  have "delivers cks fd [c] (k\<lparr>ck_out := ck_out k @ req\<rparr>) (k\<lparr>ck_out := ck_out k @ req\<rparr>\<lparr>ck_in := rest\<rparr>)"
    by (rule cks_delivers) (simp_all add: assms)
  then show ?thesis
    unfolding exchange_def using cks_writeAll[of fd req k] assms(2)
    by (intro exI[of _ "k\<lparr>ck_out := ck_out k @ req\<rparr>"] exI[of _ "[c]"]) simp
qed

lemma cks_connect: "connectServer cks host port k = Inr (3, k)"
  by (simp add: connectServer_def)

lemma cks_page_exchange:
  assumes "ck_in k = page (\<not> close) # rest" and "path \<in> {''/'', ''/a'', ''/b''}"
  shows "exchange cks fd (buildGetRequest path close) k (k\<lparr>ck_out := ck_out k @ buildGetRequest path close, ck_in := rest\<rparr>)"
proof (rule cks_exchange[OF assms(1)])
  show "fst (serve HttpProcess_new (buildGetRequest path close)) = [page (\<not> close)]"
    by (rule serve_get) (use assms(2) client_paths in auto)
  show "page (\<not> close) \<noteq> []" "length (page (\<not> close)) \<le> 4096"
    by (cases close; simp add: page_simps)+
qed

lemma cks_eof: "ck_in k = [] # rest \<Longrightarrow> readWithTimeout cks fd n t k = ret (Inr [], k\<lparr>ck_in := rest\<rparr>)"
  by (subst readWithTimeout.simps) (simp add: cks_read)

theorem acceptance_tests_pass_witness:
  "\<exists>k'. runAll cks ''127.0.0.1'' 8888 \<lparr>ck_in = [page True, page True, page True, page False, [], build400], ck_out = []\<rparr> =
     ret (map TestCaseResult_new [SingleGet, KeepAliveGet ''/a'', KeepAliveGet ''/b'', ConnectionClose, Post400], k')"
proof -
  let ?k = "\<lambda>o1 i. \<lparr>ck_in = i, ck_out = o1\<rparr>"
  let ?o1 = "buildGetRequest ''/'' False" let ?o2 = "?o1 @ buildGetRequest ''/a'' False"
  let ?o3 = "?o2 @ buildGetRequest ''/b'' False" let ?o4 = "?o3 @ buildGetRequest ''/'' True"
  have again: "connectServer cks host port (closeFd cks 3 k) = Inr (3, k)" for host port k
    by (simp add: closeFd_def cks_connect)
  have e: "exchange cks 3 ?o1 (?k [] [page True, page True, page True, page False, [], build400]) (?k ?o1 [page True, page True, page False, [], build400])"
    "exchange cks 3 (buildGetRequest ''/a'' False) (?k ?o1 [page True, page True, page False, [], build400]) (?k ?o2 [page True, page False, [], build400])"
    "exchange cks 3 (buildGetRequest ''/b'' False) (?k ?o2 [page True, page False, [], build400]) (?k ?o3 [page False, [], build400])"
    "exchange cks 3 (buildGetRequest ''/'' True) (?k ?o3 [page False, [], build400]) (?k ?o4 [[], build400])"
    using cks_page_exchange[of "?k [] [page True, page True, page True, page False, [], build400]" False _ "''/''" 3]
      cks_page_exchange[of "?k ?o1 [page True, page True, page False, [], build400]" False _ "''/a''" 3]
      cks_page_exchange[of "?k ?o2 [page True, page False, [], build400]" False _ "''/b''" 3]
      cks_page_exchange[of "?k ?o3 [page False, [], build400]" True _ "''/''" 3]
    by simp_all
  have p: "exchange cks 3 buildPostRequest (?k ?o4 [build400]) (?k (?o4 @ buildPostRequest) [])"
    using cks_exchange[of "?k ?o4 [build400]" build400 "[]" buildPostRequest 3] serve_post by (simp add: build400_def)
  have r: "readWithTimeout cks 3 64 1 (?k ?o4 [[], build400]) = ret (Inr [], ?k ?o4 [build400])"
    using cks_eof[of "?k ?o4 [[], build400]"] by simp
  show ?thesis
    using acceptance_tests_pass[OF cks_connect e(1) again e(2,3) again e(4) r again p] by blast
qed

subsection \<open>What they do not show\<close>

text \<open>
  C34. A silent connection looks closed: \<open>readWithTimeout\<close> answers 0 when the time is up as it does at the
  end of the file. So the third test passes on a server that sends its response with
  \<open>Connection: close\<close> and keeps the connection open, and the idle test passes on a server that after
  65 seconds has neither closed the connection nor answers on it.
\<close>

theorem silence_passes_for_close:
  assumes "connectServer os host port k = Inr (fd, k1)"
    and "exchange os fd (buildGetRequest ''/'' True) k1 k2" and "co_select os fd 1 k2 = (Inr False, k3)"
    and "first_round os fd [''/'', ''/a'', ''/b''] k1 = ret (None, j2)"
    and "writeAll os fd (buildGetRequest ''/idle-check'' False) (co_sleep os kIdleWaitSec j2) = ret (True, j3)"
    and "co_select os fd kRecvTimeoutSec j3 = (Inr False, j4)"
    and "connectServer os host port (closeFd os fd j4) = Inr (fd2, j5)"
    and "exchange os fd2 (buildGetRequest ''/'' False) j5 j6"
  shows "testConnectionClose os host port k = ret (TestCaseResult_new ConnectionClose, closeFd os fd k3) \<and>
    testIdleTimeout os host port k = ret (TestCaseResult_new IdleTimeout, closeFd os fd2 j6)"
proof
  have "readWithTimeout os fd 64 1 k2 = ret (Inr [], k3)"
    using assms(3) by (subst readWithTimeout.simps) simp
  then show "testConnectionClose os host port k = ret (TestCaseResult_new ConnectionClose, closeFd os fd k3)"
    by (rule close_passes[OF assms(1,2)])
  have "readWithTimeout os fd 4096 kRecvTimeoutSec j3 = ret (Inr [], j4)"
    using assms(6) by (subst readWithTimeout.simps) simp
  moreover have "find_str [] HEADER_END 0 = None"
    by (simp add: find_str_def)
  ultimately have "readHttpResponse os fd j3 = ret (False, [], j4)"
    unfolding readHttpResponse_def by (subst read_header.simps) simp
  then have dead: "keepAliveGetOnFd os fd ''/idle-check'' [] (co_sleep os kIdleWaitSec j2) = ret (False, [], j4)"
    using assms(5) by (simp add: keepAliveGetOnFd_def)
  have again: "keepAliveGetOnFd os fd2 ''/'' resp j5 = ret (True, page True, j6)" for resp
    using get_exchange[OF assms(8)] client_paths(1) by (auto simp: keepAliveGetOnFd_def)
  show "testIdleTimeout os host port k = ret (TestCaseResult_new IdleTimeout, closeFd os fd2 j6)"
    using assms(1,4,7) dead again page_verdicts(1)[of True] by (simp add: testIdleTimeout_def Let_def)
qed

text \<open>
  The witness is a server that answers every request as specified, never closes a connection, and is
  deaf on a connection that has been idle: what is left of the real one when descriptors are
  never closed. The state is the bytes under way and whether the connection has gone deaf.
\<close>

definition sks :: "(string \<times> bool, unit) cos" where
  "sks = \<lparr>co_socket = (\<lambda>k. (Inr 3, k)), co_pton = (\<lambda>h. Some ()), co_connect = (\<lambda>fd a p k. (Inr (), ([], False))),
     co_write = (\<lambda>fd s k. (Inr (length s), if snd k then k else (fst k @ concat (fst (serve HttpProcess_new s)), snd k))),
     co_select = (\<lambda>fd t k. (Inr (fst k \<noteq> []), k)),
     co_read = (\<lambda>fd n k. (Inr (take n (fst k)), (drop n (fst k), snd k))),
     co_close = (\<lambda>fd k. k), co_sleep = (\<lambda>n k. (fst k, True))\<rparr>"

lemma sks_simps [simp]:
  "co_socket sks k = (Inr 3, k)" "co_pton sks h = Some ()" "co_connect sks fd a p k = (Inr (), ([], False))"
  "co_write sks fd s k = (Inr (length s), if snd k then k else (fst k @ concat (fst (serve HttpProcess_new s)), snd k))"
  "co_select sks fd t k = (Inr (fst k \<noteq> []), k)" "co_read sks fd n k = (Inr (take n (fst k)), (drop n (fst k), snd k))"
  "co_close sks fd k = k" "co_sleep sks n k = (fst k, True)"
  by (simp_all add: sks_def)

lemma sks_connect: "connectServer sks host port k = Inr (3, ([], False))"
  by (simp add: connectServer_def)

lemma sks_exchange:
  assumes "path \<in> {''/'', ''/a'', ''/b''}"
  shows "exchange sks fd (buildGetRequest path close) ([], False) ([], False)"
proof -
  have s: "fst (serve HttpProcess_new (buildGetRequest path close)) = [page (\<not> close)]"
    by (rule serve_get) (use assms client_paths in auto)
  have n: "page (\<not> close) \<noteq> []" "length (page (\<not> close)) \<le> 4096" "buildGetRequest path close \<noteq> []"
    by (cases close; simp add: page_simps buildGetRequest_def)+
  have "writeAll sks fd (buildGetRequest path close) ([], False) = ret (True, (page (\<not> close), False))"
    using n(3) s by (subst writeAll.simps, subst writeAll.simps) simp
  moreover have "delivers sks fd [page (\<not> close)] (page (\<not> close), False) ([], False)"
    by (rule delivers.chunk[where ?k1.0 = "(page (\<not> close), False)"]) (use n in simp_all)
  ultimately show ?thesis
    unfolding exchange_def by (intro exI[of _ "(page (\<not> close), False)"] exI[of _ "[page (\<not> close)]"]) (simp add: s)
qed

theorem silence_passes_for_close_witness:
  "testConnectionClose sks ''127.0.0.1'' 8888 ([], False) = ret (TestCaseResult_new ConnectionClose, ([], False)) \<and>
   testIdleTimeout sks ''127.0.0.1'' 8888 ([], False) = ret (TestCaseResult_new IdleTimeout, ([], False))"
proof -
  have close: "closeFd sks 3 k = k" for k
    by (simp add: closeFd_def)
  have round: "first_round sks 3 [''/'', ''/a'', ''/b''] ([], False) = ret (None, ([], False))"
    using keep_alive_passes[OF sks_exchange] by (simp add: TestCaseResult_new_def)
  have mute: "writeAll sks 3 (buildGetRequest ''/idle-check'' False) (co_sleep sks kIdleWaitSec ([], False)) = ret (True, ([], True))"
    by (subst writeAll.simps, subst writeAll.simps) (simp add: buildGetRequest_def)
  have still: "co_select sks 3 1 ([], False) = (Inr False, ([], False))" "co_select sks 3 kRecvTimeoutSec ([], True) = (Inr False, ([], True))"
    by simp_all
  show ?thesis
    using silence_passes_for_close[OF sks_connect sks_exchange still(1) round mute still(2) sks_connect sks_exchange] close by simp
qed

subsection \<open>Writing\<close>

text \<open>write(2): it takes a prefix, and neither interrupts nor takes nothing for ever. \<open>sent\<close> is what it has taken.\<close>

definition client_wire :: "('k, 'a) cos \<Rightarrow> ('k \<Rightarrow> int \<Rightarrow> string) \<Rightarrow> ('k \<Rightarrow> nat) \<Rightarrow> bool" where
  "client_wire os sent mu \<longleftrightarrow>
     (\<forall>fd s k r k'. co_write os fd s k = (r, k') \<longrightarrow>
        sent k' fd = sent k fd @ (case r of Inr n \<Rightarrow> take n s | Inl e \<Rightarrow> []) \<and> (\<forall>n. r = Inr n \<longrightarrow> n \<le> length s) \<and>
        mu k' \<le> mu k \<and> (s \<noteq> [] \<and> (r = Inl EINTR \<or> r = Inr 0) \<longrightarrow> mu k' < mu k))"



subsection \<open>The arguments\<close>

definition plain :: "string list \<Rightarrow> bool" where
  "plain t \<longleftrightarrow> t = [] \<or> hd t \<noteq> ''-t'' \<and> hd t \<noteq> ''-n''"

definition starts_with_digit :: "string list \<Rightarrow> bool" where
  "starts_with_digit t \<longleftrightarrow> t \<noteq> [] \<and> hd t \<noteq> [] \<and> isdigit (hd (hd t))"

text \<open>\<open>[host] [port]\<close> on top of a configuration.\<close>

definition target :: "string list \<Rightarrow> ClientConfig \<Rightarrow> ClientConfig \<Rightarrow> bool" where
  "target t c cfg \<longleftrightarrow> t = [] \<and> cfg = c \<or> (\<exists>h. t = [h] \<and> cfg = c\<lparr>cfg_host := h\<rparr>) \<or>
     (\<exists>h p n. t = [h, p] \<and> atoi p = Inr n \<and> cfg = c\<lparr>cfg_host := h, cfg_port := word_of_int n\<rparr>)"

lemma parse_target_iff: "parse_target t c = Inr (Some cfg) \<longleftrightarrow> target t c cfg"
  by (auto simp: parse_target_def target_def ebind_eq_Inr split: list.splits)

lemma parse_modes_plain: "plain t \<Longrightarrow> parse_modes t g c = Inr (Some (t, g, c))"
  by (cases t) (simp_all add: plain_def)

lemma parse_modes_got: "parse_modes t True c = Inr (if plain t then Some (t, True, c) else None)"
  by (cases t) (auto simp: plain_def)

lemma parse_repeat:
  "ebind (atoi s) (\<lambda>n. if n < 1 then Inr None else parse_target t (c n)) = Inr (Some cfg) \<longleftrightarrow>
   (\<exists>n. atoi s = Inr n \<and> 1 \<le> n \<and> target t (c n) cfg)"
  by (cases "atoi s") (auto simp: parse_target_iff[symmetric])

lemma parseConfig_plain:
  assumes "plain args"
  shows "parseConfig args =
    (if starts_with_digit args then
       ebind (atoi (hd args)) (\<lambda>n. if n < 1 then Inr None else parse_target (tl args) (ClientConfig_new\<lparr>cfg_repeat := n\<rparr>))
     else parse_target args ClientConfig_new)"
  using assms by (simp add: parseConfig_def parse_modes_plain starts_with_digit_def)

lemma parseConfig_idle:
  "parseConfig (''-t'' # t) =
    (if plain t then parse_target t (ClientConfig_new\<lparr>cfg_idleTest := True\<rparr>) else Inr None)"
  by (simp add: parseConfig_def parse_modes_got ClientConfig_new_def)

lemma parseConfig_repeat:
  "parseConfig (''-n'' # s # t) =
    ebind (atoi s) (\<lambda>n.
      if n < 1 \<or> \<not> plain t then Inr None else parse_target t (ClientConfig_new\<lparr>cfg_repeat := n\<rparr>))"
  by (cases "atoi s") (simp_all add: parseConfig_def parse_modes_got)

lemma option_not_plain: "\<not> plain (''-t'' # t)" "\<not> plain (''-n'' # t)"
  "\<not> starts_with_digit (''-t'' # t)" "\<not> starts_with_digit (''-n'' # t)"
  by (simp_all add: plain_def starts_with_digit_def isdigit_def code_def)

text \<open>
  The client accepts exactly these command lines: \<open>-t [host] [port]\<close>; \<open>-n repeat [host] [port]\<close> with
  \<open>repeat\<close> at least 1; \<open>repeat [host] [port]\<close> when the first argument starts with a digit; and
  \<open>[host] [port]\<close>; with the defaults of \<open>ClientConfig\<close> for what is left out and the port cut to 16
  bits. So a numeric host in first place is read as the number of rounds.
\<close>

theorem client_arguments:
  "parseConfig args = Inr (Some cfg) \<longleftrightarrow>
     (\<exists>t. args = ''-t'' # t \<and> plain t \<and> target t (ClientConfig_new\<lparr>cfg_idleTest := True\<rparr>) cfg) \<or>
     (\<exists>s n t. args = ''-n'' # s # t \<and> atoi s = Inr n \<and> 1 \<le> n \<and> plain t \<and> target t (ClientConfig_new\<lparr>cfg_repeat := n\<rparr>) cfg) \<or>
     (\<exists>s n t. args = s # t \<and> starts_with_digit args \<and> atoi s = Inr n \<and> 1 \<le> n \<and> target t (ClientConfig_new\<lparr>cfg_repeat := n\<rparr>) cfg) \<or>
     plain args \<and> \<not> starts_with_digit args \<and> target args ClientConfig_new cfg"
proof (cases "plain args")
  case True
  then have none: "args \<noteq> ''-t'' # t" "args \<noteq> ''-n'' # t" for t
    using option_not_plain by auto
  have digit: "starts_with_digit args \<Longrightarrow> args = hd args # tl args"
    by (simp add: starts_with_digit_def)
  show ?thesis
    unfolding parseConfig_plain[OF True]
    using True none digit by (cases "starts_with_digit args") (simp_all add: parse_repeat parse_target_iff, metis list.sel)
next
  case False
  then consider t where "args = ''-t'' # t" | "args = [''-n'']" | s t where "args = ''-n'' # s # t"
    by (metis list.collapse plain_def)
  then show ?thesis
  proof cases
    case (1 t)
    then show ?thesis
      by (simp add: parseConfig_idle option_not_plain parse_target_iff)
  next
    case 2
    then show ?thesis
      by (simp add: option_not_plain) (simp add: parseConfig_def)
  next
    case (3 s t)
    have "parseConfig args = Inr (Some cfg) \<longleftrightarrow>
        (\<exists>n. atoi s = Inr n \<and> 1 \<le> n \<and> plain t \<and> target t (ClientConfig_new\<lparr>cfg_repeat := n\<rparr>) cfg)"
      unfolding 3 parseConfig_repeat by (cases "atoi s") (auto simp: parse_target_iff[symmetric])
    with 3 show ?thesis
      by (simp add: option_not_plain)
  qed
qed

end
