(* ===== verification/PrevMain.thy ===== *)
theory PrevMain
  imports CppString Kernel
begin

section \<open>The first server: one thread, one file\<close>

text \<open>
  Models src/server/prev_main.cpp, the echo server the project started from. It is compiled into
  the server but nothing calls it. It has its own way of using the kernel: epoll hands back a
  descriptor instead of a channel, a connection is nothing but its descriptor, and what a client
  sends is printed and sent back.
\<close>

subsection \<open>Its system calls\<close>

text \<open>
  \<open>po_epoll_add ep fd m\<close> is \<open>epoll_ctl\<close> with \<open>EPOLL_CTL_ADD\<close>, whose result the code ignores;
  \<open>po_print\<close> is \<open>std::cout\<close>, here part of the model because printing a buffer can go wrong.
\<close>

record 'k prev_os =
  po_socket :: "'k \<Rightarrow> (errno + int) \<times> 'k"
  po_reuseaddr :: "int \<Rightarrow> 'k \<Rightarrow> 'k"
  po_bind :: "int \<Rightarrow> 16 word \<Rightarrow> 'k \<Rightarrow> (errno + unit) \<times> 'k"
  po_listen :: "int \<Rightarrow> nat \<Rightarrow> 'k \<Rightarrow> (errno + unit) \<times> 'k"
  po_epoll_create :: "'k \<Rightarrow> (errno + int) \<times> 'k"
  po_getfl :: "int \<Rightarrow> 'k \<Rightarrow> 32 word \<times> 'k"
  po_setfl :: "int \<Rightarrow> 32 word \<Rightarrow> 'k \<Rightarrow> 'k"
  po_epoll_add :: "int \<Rightarrow> int \<Rightarrow> 32 word \<Rightarrow> 'k \<Rightarrow> 'k"
  po_epoll_wait :: "int \<Rightarrow> nat \<Rightarrow> 'k \<Rightarrow> (errno + (int \<times> 32 word) list) \<times> 'k"
  po_accept :: "int \<Rightarrow> 'k \<Rightarrow> (errno + int) \<times> 'k"
  po_read :: "int \<Rightarrow> nat \<Rightarrow> 'k \<Rightarrow> (errno + string) \<times> 'k"
  po_write :: "int \<Rightarrow> string \<Rightarrow> 'k \<Rightarrow> (errno + nat) \<times> 'k"
  po_close :: "int \<Rightarrow> 'k \<Rightarrow> 'k"
  po_print :: "string \<Rightarrow> 'k \<Rightarrow> 'k"

definition prev_MAX_EVENTS :: nat where "prev_MAX_EVENTS = 100"
definition READ_BUFFER :: nat where "READ_BUFFER = 1024"

subsection \<open>The echo of one client\<close>

definition int_to_string :: "int \<Rightarrow> string" where
  "int_to_string z = (if z < 0 then ''-'' @ to_string (nat (- z)) else to_string (nat z))"

definition over_read :: fault where
  "over_read = Undefined ''std::cout reads past the end of buf''"

text \<open>
  The array \<open>buf\<close> after \<open>memset\<close> and \<open>read\<close>; \<open>std::cout << buf\<close> takes it for a C string and looks
  for the terminator, which a full buffer may not have.
\<close>

definition prev_buf :: "string \<Rightarrow> string" where
  "prev_buf d = blit 0 d (replicate READ_BUFFER (CHR 0x00))"

definition c_string :: "string \<Rightarrow> string outcome" where
  "c_string b = (if CHR 0x00 \<in> set b then Inr (takeWhile (\<lambda>c. c \<noteq> CHR 0x00) b) else Inl over_read)"

definition print_msg :: "'k prev_os \<Rightarrow> int \<Rightarrow> string \<Rightarrow> 'k \<Rightarrow> 'k outcome" where
  "print_msg os fd d k =
     ebind (c_string (prev_buf d)) (\<lambda>s.
       Inr (po_print os (''msg from client '' @ int_to_string fd @ '' : '' @ s @ [CHR 0x0A]) k))"

text \<open>The loop has no branch for an error other than \<open>EINTR\<close> and \<open>EAGAIN\<close>: it reads again.\<close>

partial_function (option) echo_client :: "'k prev_os \<Rightarrow> int \<Rightarrow> 'k \<Rightarrow> 'k res" where
  "echo_client os fd k =
     (case po_read os fd READ_BUFFER k of
        (r, k1) \<Rightarrow>
          (case r of
             Inr d \<Rightarrow>
               if d \<noteq> [] then
                 rbind (Some (print_msg os fd d k1)) (\<lambda>k2.
                   echo_client os fd (snd (po_write os fd d k2)))
               else ret (po_close os fd (po_print os (''EOF'' @ [CHR 0x0A]) k1))
           | Inl e \<Rightarrow>
               if e = EINTR then echo_client os fd (po_print os (''interrupted! continue.'' @ [CHR 0x0A]) k1)
               else if would_block e then ret (po_print os (''read OK!'' @ [CHR 0x0A]) k1)
               else echo_client os fd k1))"

subsection \<open>The loop and the start\<close>

definition prev_setnonblocking :: "'k prev_os \<Rightarrow> int \<Rightarrow> 'k \<Rightarrow> 'k" where
  "prev_setnonblocking os fd k = (case po_getfl os fd k of (flags, k1) \<Rightarrow> po_setfl os fd (flags OR O_NONBLOCK) k1)"

definition prev_accept :: "'k prev_os \<Rightarrow> int \<Rightarrow> int \<Rightarrow> 'k \<Rightarrow> 'k outcome" where
  "prev_accept os listen_fd epfd k =
     (case po_accept os listen_fd k of
        (Inl e, k1) \<Rightarrow> Inl (Exit ''socket accept error'')
      | (Inr clnt_sockfd, k1) \<Rightarrow>
          (let k2 = po_print os (''new client accept!'' @ [CHR 0x0A]) k1;
               k3 = prev_setnonblocking os clnt_sockfd k2 in
           Inr (po_epoll_add os epfd clnt_sockfd (EPOLLIN OR EPOLLET) k3)))"

definition prev_event :: "'k prev_os \<Rightarrow> int \<Rightarrow> int \<Rightarrow> int \<times> 32 word \<Rightarrow> 'k \<Rightarrow> 'k res" where
  "prev_event os listen_fd epfd ev k =
     (if fst ev = listen_fd then Some (prev_accept os listen_fd epfd k)
      else if snd ev AND EPOLLIN \<noteq> 0 then echo_client os (fst ev) k
      else ret k)"

primrec prev_events :: "'k prev_os \<Rightarrow> int \<Rightarrow> int \<Rightarrow> (int \<times> 32 word) list \<Rightarrow> 'k \<Rightarrow> 'k res" where
  "prev_events os listen_fd epfd [] k = ret k"
| "prev_events os listen_fd epfd (ev # evs) k =
     rbind (prev_event os listen_fd epfd ev k) (prev_events os listen_fd epfd evs)"

definition prev_round :: "'k prev_os \<Rightarrow> int \<Rightarrow> int \<Rightarrow> 'k \<Rightarrow> 'k res" where
  "prev_round os listen_fd epfd k =
     (case po_epoll_wait os epfd prev_MAX_EVENTS k of
        (Inl e, k1) \<Rightarrow> fail (Exit ''epoll wait error'')
      | (Inr evs, k1) \<Rightarrow> prev_events os listen_fd epfd evs k1)"

partial_function (option) prev_loop :: "'k prev_os \<Rightarrow> int \<Rightarrow> int \<Rightarrow> 'k \<Rightarrow> 'k res" where
  "prev_loop os listen_fd epfd k = rbind (prev_round os listen_fd epfd k) (\<lambda>k1. prev_loop os listen_fd epfd k1)"

definition prev_setup :: "'k prev_os \<Rightarrow> 'k \<Rightarrow> (int \<times> int \<times> 'k) outcome" where
  "prev_setup os k =
     (case po_socket os (po_print os (''here is server'' @ [CHR 0x0A]) k) of
        (Inl e, k1) \<Rightarrow> Inl (Exit ''socket create error'')
      | (Inr listen_fd, k1) \<Rightarrow>
          (case po_bind os listen_fd 8888 (po_reuseaddr os listen_fd k1) of
             (b, k2) \<Rightarrow> ebind (errif (failed b) ''socket bind error'') (\<lambda>_.
               case po_listen os listen_fd 128 k2 of
                 (l, k3) \<Rightarrow> ebind (errif (failed l) ''socket listen error'') (\<lambda>_.
                   case po_epoll_create os k3 of
                     (Inl e, k4) \<Rightarrow> Inl (Exit ''epoll create error'')
                   | (Inr epfd, k4) \<Rightarrow>
                       Inr (listen_fd, epfd,
                         po_epoll_add os epfd listen_fd (EPOLLIN OR EPOLLET) (prev_setnonblocking os listen_fd k4))))))"

text \<open>The loop is followed by \<open>close\<close> and \<open>return\<close>, which are never reached.\<close>

definition prev_main :: "'k prev_os \<Rightarrow> 'k \<Rightarrow> 'k res" where
  "prev_main os k =
     rbind (Some (prev_setup os k)) (\<lambda>(listen_fd, epfd, k1).
       rbind (prev_loop os listen_fd epfd k1) (\<lambda>k2. ret (po_close os listen_fd k2)))"

subsection \<open>What the kernel promises\<close>

text \<open>
  \<open>inp k fd\<close> and \<open>out k fd\<close> are the bytes read from and sent to a descriptor so far. \<open>read\<close> returns
  at most what was asked for, and a measure \<open>mu\<close> of the input still to come goes down with each
  answer after which the loop reads again; \<open>write\<close> sends the prefix it answers; other calls leave
  both streams alone.
\<close>

type_synonym 'k streams = "'k \<Rightarrow> int \<Rightarrow> string"

definition prev_data :: "'k prev_os \<Rightarrow> 'k streams \<Rightarrow> 'k streams \<Rightarrow> ('k \<Rightarrow> nat) \<Rightarrow> bool" where
  "prev_data os inp out mu \<longleftrightarrow>
     (\<forall>fd n k r k'. po_read os fd n k = (r, k') \<longrightarrow>
        inp k' = (inp k)(fd := inp k fd @ (case r of Inr d \<Rightarrow> d | Inl e \<Rightarrow> [])) \<and> out k' = out k \<and>
        (\<forall>d. r = Inr d \<longrightarrow> length d \<le> n) \<and>
        (case r of Inr d \<Rightarrow> d \<noteq> [] \<longrightarrow> mu k' < mu k | Inl e \<Rightarrow> \<not> would_block e \<longrightarrow> mu k' < mu k)) \<and>
     (\<forall>fd s k r k'. po_write os fd s k = (r, k') \<longrightarrow>
        inp k' = inp k \<and> out k' = (out k)(fd := out k fd @ (case r of Inr n \<Rightarrow> take n s | Inl e \<Rightarrow> [])) \<and> mu k' \<le> mu k) \<and>
     (\<forall>s k. inp (po_print os s k) = inp k \<and> out (po_print os s k) = out k \<and> mu (po_print os s k) \<le> mu k)"

definition leaves_streams :: "'k streams \<Rightarrow> 'k streams \<Rightarrow> ('k \<Rightarrow> 'k) \<Rightarrow> bool" where
  "leaves_streams inp out f \<longleftrightarrow> (\<forall>k. inp (f k) = inp k \<and> out (f k) = out k)"

definition prev_control :: "'k prev_os \<Rightarrow> 'k streams \<Rightarrow> 'k streams \<Rightarrow> bool" where
  "prev_control os inp out \<longleftrightarrow>
     leaves_streams inp out (\<lambda>k. snd (po_socket os k)) \<and>
     (\<forall>fd. leaves_streams inp out (po_reuseaddr os fd)) \<and>
     (\<forall>fd p. leaves_streams inp out (\<lambda>k. snd (po_bind os fd p k))) \<and>
     (\<forall>fd n. leaves_streams inp out (\<lambda>k. snd (po_listen os fd n k))) \<and>
     leaves_streams inp out (\<lambda>k. snd (po_epoll_create os k)) \<and>
     (\<forall>fd. leaves_streams inp out (\<lambda>k. snd (po_getfl os fd k))) \<and>
     (\<forall>fd f. leaves_streams inp out (po_setfl os fd f)) \<and>
     (\<forall>ep fd m. leaves_streams inp out (po_epoll_add os ep fd m)) \<and>
     (\<forall>ep n. leaves_streams inp out (\<lambda>k. snd (po_epoll_wait os ep n k))) \<and>
     (\<forall>fd. leaves_streams inp out (\<lambda>k. snd (po_accept os fd k))) \<and>
     (\<forall>fd. leaves_streams inp out (po_close os fd))"

definition takes_all :: "'k prev_os \<Rightarrow> bool" where
  "takes_all os \<longleftrightarrow> (\<forall>fd s k. fst (po_write os fd s k) = Inr (length s))"

definition prev_kernel :: "'k prev_os \<Rightarrow> 'k streams \<Rightarrow> 'k streams \<Rightarrow> ('k \<Rightarrow> nat) \<Rightarrow> bool" where
  "prev_kernel os inp out mu \<longleftrightarrow> prev_data os inp out mu \<and> prev_control os inp out \<and> takes_all os"

lemma prev_kernelD:
  assumes "prev_kernel os inp out mu"
  shows "po_read os fd n k = (r, k') \<Longrightarrow>
      inp k' = (inp k)(fd := inp k fd @ (case r of Inr d \<Rightarrow> d | Inl e \<Rightarrow> [])) \<and> out k' = out k \<and>
      (\<forall>d. r = Inr d \<longrightarrow> length d \<le> n) \<and>
      (case r of Inr d \<Rightarrow> d \<noteq> [] \<longrightarrow> mu k' < mu k | Inl e \<Rightarrow> \<not> would_block e \<longrightarrow> mu k' < mu k)"
    and "inp (snd (po_write os fd s k)) = inp k"
    and "out (snd (po_write os fd s k)) = (out k)(fd := out k fd @ s)"
    and "mu (snd (po_write os fd s k)) \<le> mu k"
    and "inp (po_print os s k) = inp k" "out (po_print os s k) = out k" "mu (po_print os s k) \<le> mu k"
proof -
  have D: "prev_data os inp out mu" and all: "fst (po_write os fd s k) = Inr (length s)"
    using assms by (simp_all add: prev_kernel_def takes_all_def)
  show "po_read os fd n k = (r, k') \<Longrightarrow>
      inp k' = (inp k)(fd := inp k fd @ (case r of Inr d \<Rightarrow> d | Inl e \<Rightarrow> [])) \<and> out k' = out k \<and>
      (\<forall>d. r = Inr d \<longrightarrow> length d \<le> n) \<and>
      (case r of Inr d \<Rightarrow> d \<noteq> [] \<longrightarrow> mu k' < mu k | Inl e \<Rightarrow> \<not> would_block e \<longrightarrow> mu k' < mu k)"
    using conjunct1[OF D[unfolded prev_data_def]] by blast
  obtain r k' where w: "po_write os fd s k = (r, k')"
    by fastforce
  from conjunct1[OF conjunct2[OF D[unfolded prev_data_def]], rule_format, OF w]
  show "inp (snd (po_write os fd s k)) = inp k" "out (snd (po_write os fd s k)) = (out k)(fd := out k fd @ s)"
    "mu (snd (po_write os fd s k)) \<le> mu k"
    using w all by simp_all
  show "inp (po_print os s k) = inp k" "out (po_print os s k) = out k" "mu (po_print os s k) \<le> mu k"
    using conjunct2[OF conjunct2[OF D[unfolded prev_data_def]]] by blast+
qed

lemma leaves_streamsD: "leaves_streams inp out f \<Longrightarrow> inp (f k) = inp k \<and> out (f k) = out k"
  by (simp add: leaves_streams_def)

lemma prev_controlD:
  assumes "prev_kernel os inp out mu"
  shows "po_socket os k = (r1, k') \<Longrightarrow> inp k' = inp k \<and> out k' = out k"
    and "inp (po_reuseaddr os fd k) = inp k" "out (po_reuseaddr os fd k) = out k"
    and "po_bind os fd p k = (r2, k') \<Longrightarrow> inp k' = inp k \<and> out k' = out k"
    and "po_listen os fd n k = (r2, k') \<Longrightarrow> inp k' = inp k \<and> out k' = out k"
    and "po_epoll_create os k = (r1, k') \<Longrightarrow> inp k' = inp k \<and> out k' = out k"
    and "inp (prev_setnonblocking os fd k) = inp k" "out (prev_setnonblocking os fd k) = out k"
    and "inp (po_epoll_add os ep fd m k) = inp k" "out (po_epoll_add os ep fd m k) = out k"
    and "po_epoll_wait os ep n k = (r3, k') \<Longrightarrow> inp k' = inp k \<and> out k' = out k"
    and "po_accept os fd k = (r1, k') \<Longrightarrow> inp k' = inp k \<and> out k' = out k"
    and "inp (po_close os fd k) = inp k" "out (po_close os fd k) = out k"
proof -
  have C: "prev_control os inp out"
    using assms by (simp add: prev_kernel_def)
  have start: "leaves_streams inp out (\<lambda>k. snd (po_socket os k))" "leaves_streams inp out (po_reuseaddr os fd)"
      "leaves_streams inp out (\<lambda>k. snd (po_bind os fd p k))" "leaves_streams inp out (\<lambda>k. snd (po_listen os fd n k))"
      "leaves_streams inp out (\<lambda>k. snd (po_epoll_create os k))"
    and flags: "leaves_streams inp out (\<lambda>k. snd (po_getfl os fd k))" "\<And>f. leaves_streams inp out (po_setfl os fd f)"
    and rest: "leaves_streams inp out (po_epoll_add os ep fd m)" "leaves_streams inp out (\<lambda>k. snd (po_epoll_wait os ep n k))"
      "leaves_streams inp out (\<lambda>k. snd (po_accept os fd k))" "leaves_streams inp out (po_close os fd)"
    using C by (simp_all add: prev_control_def)
  note start = start[THEN leaves_streamsD] and flags = flags[THEN leaves_streamsD] and rest = rest[THEN leaves_streamsD]
  show "po_socket os k = (r1, k') \<Longrightarrow> inp k' = inp k \<and> out k' = out k"
    using start(1)[of k] by simp
  show "inp (po_reuseaddr os fd k) = inp k" "out (po_reuseaddr os fd k) = out k"
    using start(2)[of k] by simp_all
  show "po_bind os fd p k = (r2, k') \<Longrightarrow> inp k' = inp k \<and> out k' = out k"
    using start(3)[of k] by simp
  show "po_listen os fd n k = (r2, k') \<Longrightarrow> inp k' = inp k \<and> out k' = out k"
    using start(4)[of k] by simp
  show "po_epoll_create os k = (r1, k') \<Longrightarrow> inp k' = inp k \<and> out k' = out k"
    using start(5)[of k] by simp
  show "inp (prev_setnonblocking os fd k) = inp k" "out (prev_setnonblocking os fd k) = out k"
    using flags(1)[of k] flags(2) by (simp_all add: prev_setnonblocking_def case_prod_beta)
  show "inp (po_epoll_add os ep fd m k) = inp k" "out (po_epoll_add os ep fd m k) = out k"
    using rest(1)[of k] by simp_all
  show "po_epoll_wait os ep n k = (r3, k') \<Longrightarrow> inp k' = inp k \<and> out k' = out k"
    using rest(2)[of k] by simp
  show "po_accept os fd k = (r1, k') \<Longrightarrow> inp k' = inp k \<and> out k' = out k"
    using rest(3)[of k] by simp
  show "inp (po_close os fd k) = inp k" "out (po_close os fd k) = out k"
    using rest(4)[of k] by simp_all
qed

subsection \<open>What it sends is what it received\<close>

lemma c_string_cases:
  "c_string (prev_buf d) = Inl over_read \<and> READ_BUFFER \<le> length d \<and> CHR 0x00 \<notin> set d \<or>
   c_string (prev_buf d) = Inr (takeWhile (\<lambda>c. c \<noteq> CHR 0x00) d)"
proof -
  have buf: "prev_buf d = d @ replicate (READ_BUFFER - length d) (CHR 0x00)"
    by (simp add: prev_buf_def blit_def)
  have whole: "takeWhile (\<lambda>c. c \<noteq> CHR 0x00) (d @ replicate n (CHR 0x00)) = takeWhile (\<lambda>c. c \<noteq> CHR 0x00) d" for n
    by (cases n) (auto simp: takeWhile_append takeWhile_eq_all_conv[THEN iffD2])
  have none: "CHR 0x00 \<notin> set d \<Longrightarrow> takeWhile (\<lambda>c. c \<noteq> CHR 0x00) d = d"
    by (induction d) auto
  show ?thesis
    by (cases "CHR 0x00 \<in> set d"; cases "READ_BUFFER \<le> length d") (auto simp: c_string_def buf whole none)
qed

definition extends_both :: "'k streams \<Rightarrow> 'k streams \<Rightarrow> int \<Rightarrow> 'k \<Rightarrow> 'k \<Rightarrow> bool" where
  "extends_both inp out fd k k' \<longleftrightarrow>
     (\<exists>d. inp k' = (inp k)(fd := inp k fd @ d) \<and> out k' = (out k)(fd := out k fd @ d))"

lemma extends_both_same: "inp k' = inp k \<Longrightarrow> out k' = out k \<Longrightarrow> extends_both inp out fd k k'"
  unfolding extends_both_def by (intro exI[of _ "[]"]) simp

lemma extends_both_trans:
  "extends_both inp out fd k k1 \<Longrightarrow> extends_both inp out fd k1 k2 \<Longrightarrow> extends_both inp out fd k k2"
  unfolding extends_both_def by (elim exE conjE, rule_tac x = "d @ da" in exI) simp

lemma echo_client_runs:
  assumes K: "prev_kernel os inp out mu"
  shows "runs {over_read} (echo_client os fd k) (extends_both inp out fd k)"
proof (induction "mu k" arbitrary: k rule: less_induct)
  case less
  obtain r k1 where rd: "po_read os fd READ_BUFFER k = (r, k1)"
    by fastforce
  note law = prev_kernelD(1)[OF K rd]
  have again: "runs {over_read} (echo_client os fd k2) (extends_both inp out fd k)"
    if "mu k2 < mu k" "extends_both inp out fd k k2" for k2
    using less[OF that(1)] by (rule runs_mono) (rule extends_both_trans[OF that(2)])
  show ?case
  proof (cases r)
    case (Inl e)
    let ?int = "po_print os (''interrupted! continue.'' @ [CHR 0x0A]) k1"
    have "mu ?int \<le> mu k1" "extends_both inp out fd k ?int" "extends_both inp out fd k k1"
      using law Inl prev_kernelD(5-7)[OF K] by (auto intro: extends_both_same)
    moreover have "\<not> would_block e \<Longrightarrow> mu k1 < mu k" "e = EINTR \<Longrightarrow> \<not> would_block e"
      using law Inl by (simp_all add: would_block_def)
    moreover have "extends_both inp out fd k (po_print os s k1)" for s
      using law Inl prev_kernelD(5,6)[OF K] by (auto intro: extends_both_same)
    ultimately show ?thesis
      using rd Inl by (subst echo_client.simps) (auto intro: again)
  next
    case (Inr d)
    show ?thesis
    proof (cases "d = []")
      case True
      then have "extends_both inp out fd k (po_close os fd (po_print os (''EOF'' @ [CHR 0x0A]) k1))"
        using law Inr prev_kernelD(5,6)[OF K] prev_controlD(13,14)[OF K] by (auto intro: extends_both_same)
      then show ?thesis
        using rd Inr True by (subst echo_client.simps) simp
    next
      case False
      have "runs {over_read} (echo_client os fd (snd (po_write os fd d (po_print os m k1)))) (extends_both inp out fd k)" for m
      proof (rule again)
        show "mu (snd (po_write os fd d (po_print os m k1))) < mu k"
          using law Inr False prev_kernelD(4)[OF K, of fd d "po_print os m k1"] prev_kernelD(7)[OF K, of m k1] by simp
        show "extends_both inp out fd k (snd (po_write os fd d (po_print os m k1)))"
          unfolding extends_both_def using law Inr prev_kernelD(2,3,5,6)[OF K] by auto
      qed
      then show ?thesis
        using rd Inr False c_string_cases[of d]
        by (subst echo_client.simps) (auto simp: print_msg_def)
    qed
  qed
qed

definition prev_faults :: "fault set" where
  "prev_faults = {over_read, Exit ''socket accept error'', Exit ''epoll wait error''}"

definition echoed :: "'k streams \<Rightarrow> 'k streams \<Rightarrow> 'k \<Rightarrow> bool" where
  "echoed inp out k \<longleftrightarrow> out k = inp k"

lemma prev_event_runs:
  assumes K: "prev_kernel os inp out mu" and "echoed inp out k"
  shows "runs prev_faults (prev_event os l ep ev k) (echoed inp out)"
proof -
  have "runs prev_faults (echo_client os fd k) (echoed inp out)" for fd
    by (rule runs_mono[OF runs_mono_faults[OF echo_client_runs[OF K]]])
      (use assms(2) in \<open>auto simp: prev_faults_def extends_both_def echoed_def\<close>)
  moreover have "runs prev_faults (Some (prev_accept os l ep k)) (echoed inp out)"
    using prev_controlD[OF K] prev_kernelD(5,6)[OF K] assms(2)
    by (auto simp: prev_accept_def prev_faults_def echoed_def Let_def split: prod.split sum.split)
  ultimately show ?thesis
    using assms(2) by (simp add: prev_event_def)
qed

lemma prev_events_runs:
  assumes "prev_kernel os inp out mu" and "echoed inp out k"
  shows "runs prev_faults (prev_events os l ep evs k) (echoed inp out)"
  using assms(2)
  by (induction evs arbitrary: k) (auto intro: runs_bindI[OF prev_event_runs[OF assms(1)]])

lemma prev_round_runs:
  assumes "prev_kernel os inp out mu" and "echoed inp out k"
  shows "runs prev_faults (prev_round os l ep k) (echoed inp out)"
proof -
  have "echoed inp out k'" if "po_epoll_wait os ep prev_MAX_EVENTS k = (r, k')" for r k'
    using prev_controlD(11)[OF assms(1) that] assms(2) by (simp add: echoed_def)
  then show ?thesis
    by (auto simp: prev_round_def prev_faults_def intro: prev_events_runs[OF assms(1), unfolded prev_faults_def] split: prod.split sum.split)
qed

primrec prev_rounds :: "'k prev_os \<Rightarrow> int \<Rightarrow> int \<Rightarrow> nat \<Rightarrow> 'k \<Rightarrow> 'k res" where
  "prev_rounds os listen_fd epfd 0 k = ret k"
| "prev_rounds os listen_fd epfd (Suc n) k = rbind (prev_round os listen_fd epfd k) (prev_rounds os listen_fd epfd n)"

lemma prev_rounds_run:
  assumes "prev_kernel os inp out mu" and "echoed inp out k"
  shows "runs prev_faults (prev_rounds os l ep n k) (echoed inp out)"
  using assms(2)
  by (induction n arbitrary: k) (auto intro: runs_bindI[OF prev_round_runs[OF assms(1)]])

lemma prev_loop_rounds: "prev_loop os l ep k = rbind (prev_rounds os l ep n k) (prev_loop os l ep)"
proof (induction n arbitrary: k)
  case (Suc n)
  have "prev_loop os l ep k = rbind (prev_round os l ep k) (prev_loop os l ep)"
    by (rule prev_loop.simps)
  also have "\<dots> = rbind (prev_round os l ep k) (\<lambda>k1. rbind (prev_rounds os l ep n k1) (prev_loop os l ep))"
    by (rule arg_cong[where f = "rbind (prev_round os l ep k)"]) (rule ext, rule Suc)
  finally show ?case
    by (simp add: rbind_assoc)
qed simp

lemma prev_loop_never_returns: "prev_loop os l ep k \<noteq> ret k'"
proof
  assume "prev_loop os l ep k = ret k'"
  then have "\<exists>e. Inr k' = (Inl e :: 'a outcome)"
    by (rule prev_loop.raw_induct[rotated, where P = "\<lambda>os l ep k x. \<exists>e. x = Inl e"])
      (auto simp: rbind_def split: sum.splits bind_splits)
  then show False
    by simp
qed

lemma prev_setup_echoed:
  assumes "prev_kernel os inp out mu" and "echoed inp out k" and "prev_setup os k = Inr (l, ep, k1)"
  shows "echoed inp out k1"
  using assms(2,3) prev_kernelD(5,6)[OF assms(1)] prev_controlD[OF assms(1)]
  by (auto simp: prev_setup_def ebind_eq_Inr echoed_def split: prod.splits sum.splits)

subsection \<open>How it goes wrong\<close>

text \<open>A full read without a zero byte: printing it leaves the array.\<close>

lemma echo_client_over_reads:
  assumes "po_read os fd READ_BUFFER k = (Inr d, k1)" and "length d = READ_BUFFER" and "CHR 0x00 \<notin> set d"
  shows "echo_client os fd k = fail over_read"
  using assms by (subst echo_client.simps) (auto simp: print_msg_def c_string_def prev_buf_def blit_def READ_BUFFER_def)

text \<open>A descriptor that keeps reporting an error holds the only thread for ever.\<close>

definition hard_error :: "errno \<Rightarrow> bool" where
  "hard_error e \<longleftrightarrow> e \<noteq> EINTR \<and> \<not> would_block e"

lemma echo_client_returned:
  "echo_client os fd k = Some x \<Longrightarrow>
   (\<forall>k. P k \<longrightarrow> (\<exists>e k'. po_read os fd READ_BUFFER k = (Inl e, k') \<and> hard_error e \<and> P k')) \<longrightarrow> \<not> P k"
proof (erule echo_client.raw_induct[rotated], goal_cases)
  case (1 f os fd k x)
  show ?case
  proof (intro impI notI)
    assume law: "\<forall>k. P k \<longrightarrow> (\<exists>e k'. po_read os fd READ_BUFFER k = (Inl e, k') \<and> hard_error e \<and> P k')" and "P k"
    then obtain e k' where "po_read os fd READ_BUFFER k = (Inl e, k')" "hard_error e" "P k'"
      by blast
    then show False
      using 1 law by (auto simp: hard_error_def)
  qed
qed

lemma echo_client_spins:
  assumes "\<And>k. P k \<Longrightarrow> \<exists>e k'. po_read os fd READ_BUFFER k = (Inl e, k') \<and> hard_error e \<and> P k'"
    and "P k"
  shows "echo_client os fd k = None"
  using echo_client_returned[of os fd k _ P] assms by (metis not_None_eq)

subsection \<open>A concrete kernel\<close>

text \<open>
  Scripts of reads and of reports; descriptors are handed out by counting; a write takes everything.
\<close>

record pkern =
  pk_polls :: "(int \<times> 32 word) list list"
  pk_reads :: "(errno + string) list"
  pk_in :: "int \<Rightarrow> string"
  pk_out :: "int \<Rightarrow> string"
  pk_next :: int
  pk_epoll :: "(int \<times> 32 word) list"
  pk_closed :: "int list"
  pk_console :: string

definition pk_new :: "pkern \<Rightarrow> (errno + int) \<times> pkern" where
  "pk_new k = (Inr (pk_next k), k\<lparr>pk_next := pk_next k + 1\<rparr>)"

definition pk_read :: "int \<Rightarrow> nat \<Rightarrow> pkern \<Rightarrow> (errno + string) \<times> pkern" where
  "pk_read fd n k =
     (case pk_reads k of
        [] \<Rightarrow> (Inl EAGAIN, k)
      | Inl e # rs \<Rightarrow> (Inl e, k\<lparr>pk_reads := rs\<rparr>)
      | Inr d # rs \<Rightarrow>
          (Inr (take n d),
           k\<lparr>pk_reads := (if length d \<le> n then rs else Inr (drop n d) # rs),
             pk_in := (pk_in k)(fd := pk_in k fd @ take n d)\<rparr>))"

definition pk_wait :: "int \<Rightarrow> nat \<Rightarrow> pkern \<Rightarrow> (errno + (int \<times> 32 word) list) \<times> pkern" where
  "pk_wait ep n k =
     (case pk_polls k of [] \<Rightarrow> (Inl EINTR, k) | evs # ps \<Rightarrow> (Inr (take n evs), k\<lparr>pk_polls := ps\<rparr>))"

definition pk_os :: "pkern prev_os" where
  "pk_os = \<lparr>po_socket = pk_new, po_reuseaddr = (\<lambda>fd k. k), po_bind = (\<lambda>fd p k. (Inr (), k)),
     po_listen = (\<lambda>fd n k. (Inr (), k)), po_epoll_create = pk_new, po_getfl = (\<lambda>fd k. (0, k)),
     po_setfl = (\<lambda>fd f k. k), po_epoll_add = (\<lambda>ep fd m k. k\<lparr>pk_epoll := (fd, m) # pk_epoll k\<rparr>),
     po_epoll_wait = pk_wait, po_accept = (\<lambda>fd. pk_new), po_read = pk_read,
     po_write = (\<lambda>fd s k. (Inr (length s), k\<lparr>pk_out := (pk_out k)(fd := pk_out k fd @ s)\<rparr>)),
     po_close = (\<lambda>fd k. k\<lparr>pk_closed := fd # pk_closed k\<rparr>),
     po_print = (\<lambda>s k. k\<lparr>pk_console := pk_console k @ s\<rparr>)\<rparr>"

lemma pk_os_simps [simp]:
  "po_socket pk_os = pk_new" "po_reuseaddr pk_os fd k = k" "po_bind pk_os fd p k = (Inr (), k)"
  "po_listen pk_os fd n k = (Inr (), k)" "po_epoll_create pk_os = pk_new" "po_getfl pk_os fd k = (0, k)"
  "po_setfl pk_os fd f k = k" "po_epoll_add pk_os ep fd m k = k\<lparr>pk_epoll := (fd, m) # pk_epoll k\<rparr>"
  "po_epoll_wait pk_os = pk_wait" "po_accept pk_os fd = pk_new" "po_read pk_os = pk_read"
  "po_write pk_os fd s k = (Inr (length s), k\<lparr>pk_out := (pk_out k)(fd := pk_out k fd @ s)\<rparr>)"
  "po_close pk_os fd k = k\<lparr>pk_closed := fd # pk_closed k\<rparr>"
  "po_print pk_os s k = k\<lparr>pk_console := pk_console k @ s\<rparr>"
  by (simp_all add: pk_os_def)

definition pk_supply :: "pkern \<Rightarrow> nat" where
  "pk_supply k = sum_list (map (\<lambda>r. case r of Inl e \<Rightarrow> 1 | Inr d \<Rightarrow> Suc (length d)) (pk_reads k))"

lemma pk_kernel: "prev_kernel pk_os pk_in pk_out pk_supply"
proof -
  have "pk_in k' = (pk_in k)(fd := pk_in k fd @ (case r of Inr d \<Rightarrow> d | Inl e \<Rightarrow> [])) \<and> pk_out k' = pk_out k \<and>
      (\<forall>d. r = Inr d \<longrightarrow> length d \<le> n) \<and>
      (case r of Inr d \<Rightarrow> d \<noteq> [] \<longrightarrow> pk_supply k' < pk_supply k | Inl e \<Rightarrow> \<not> would_block e \<longrightarrow> pk_supply k' < pk_supply k)"
    if "pk_read fd n k = (r, k')" for fd n k r k'
    using that by (auto simp: pk_read_def pk_supply_def would_block_def split: list.splits sum.splits if_splits)
  then have "prev_data pk_os pk_in pk_out pk_supply"
    by (simp add: prev_data_def) (auto simp: pk_supply_def)
  moreover have "prev_control pk_os pk_in pk_out" "takes_all pk_os"
    by (simp_all add: prev_control_def takes_all_def leaves_streams_def pk_new_def pk_wait_def split: list.split)
  ultimately show ?thesis
    by (simp add: prev_kernel_def)
qed

definition pk0 :: pkern where
  "pk0 = \<lparr>pk_polls = [[(3, EPOLLIN)], [(5, EPOLLIN)]], pk_reads = [Inr ''hi'', Inl EINTR, Inr ''!'', Inl EAGAIN],
     pk_in = (\<lambda>fd. []), pk_out = (\<lambda>fd. []), pk_next = 3, pk_epoll = [], pk_closed = [], pk_console = []\<rparr>"

definition pk1 :: pkern where
  "pk1 = pk0\<lparr>pk_next := 5, pk_epoll := [(3, EPOLLIN OR EPOLLET)], pk_console := ''here is server'' @ [CHR 0x0A]\<rparr>"

lemma pk_setup: "prev_setup pk_os pk0 = Inr (3, 4, pk1)"
  by (simp add: prev_setup_def pk_new_def prev_setnonblocking_def pk1_def pk0_def)

subsection \<open>The property\<close>



text \<open>The two rounds of the script: a client is accepted, its three bytes come back.\<close>

lemma rbind_weak_cong: "m = m' \<Longrightarrow> rbind m f = rbind m' f"
  by simp

lemma echo_demo:
  "\<exists>k. prev_rounds pk_os 3 4 2 pk1 = ret k \<and> pk_in k 5 = ''hi!'' \<and> pk_out k 5 = ''hi!'' \<and>
     pk_epoll k = [(5, EPOLLIN OR EPOLLET), (3, EPOLLIN OR EPOLLET)] \<and>
     pk_console k =
       ''here is server'' @ [CHR 0x0A] @ ''new client accept!'' @ [CHR 0x0A] @ ''msg from client 5 : hi'' @ [CHR 0x0A] @
       ''interrupted! continue.'' @ [CHR 0x0A] @ ''msg from client 5 : !'' @ [CHR 0x0A] @ ''read OK!'' @ [CHR 0x0A]"
proof -
  have five: "int_to_string 5 = ''5''"
    by code_simp
  have print: "print_msg pk_os 5 d k = Inr (po_print pk_os (''msg from client 5 : '' @ d @ [CHR 0x0A]) k)"
    if "d = ''hi'' \<or> d = ''!''" for d k
    using that c_string_cases[of d] by (auto simp: print_msg_def READ_BUFFER_def five)
  show ?thesis
    by (simp add: numeral_2_eq_2 prev_round_def prev_event_def prev_accept_def prev_setnonblocking_def Let_def
        pk_new_def pk_wait_def pk_read_def pk1_def pk0_def prev_MAX_EVENTS_def READ_BUFFER_def EPOLLIN_def EPOLLET_def
        echo_client.simps print would_block_def cong: rbind_weak_cong)
qed

end
